(* ===== verification/Prelude.thy ===== *)
theory Prelude
  imports Main "HOL-Library.Word"
begin

text \<open>
  Shared vocabulary of the development: the machine-integer types of the C++ sources, the faults
  by which an execution leaves the defined part of the language, and sequencing of computations
  that may fault.  A computation of type \<open>fault + 'a\<close> is \<open>Inl f\<close> when the source reaches an
  undefined or aborting operation and \<open>Inr x\<close> when it returns \<open>x\<close>.
\<close>

section \<open>Machine integers\<close>

type_synonym u8 = "8 word"
type_synonym u16 = "16 word"
type_synonym u32 = "32 word"
type_synonym u64 = "64 word"

section \<open>Faults\<close>

text \<open>
  \<open>Out_Of_Bounds\<close>: a write or an index outside the object it addresses.  \<open>Indeterminate\<close>: a read
  of bytes nobody has written (past the end of the data held by a buffer).  \<open>Null_Pointer\<close>: a
  member call through a null pointer.  \<open>Bad_Free\<close>: \<open>free\<close> of an address \<open>malloc\<close> did not return.
  \<open>Dangling\<close>: an access to memory that is
  not part of a live object.  \<open>Div_By_Zero\<close>: a remainder by zero.  \<open>Exit\<close>: the source calls \<open>exit\<close> with that status.
\<close>

datatype fault = Out_Of_Bounds | Indeterminate | Null_Pointer | Bad_Free | Dangling | Div_By_Zero | Exit nat

text \<open>Sequencing: the first fault wins.\<close>

definition bindE :: "'e + 'a \<Rightarrow> ('a \<Rightarrow> 'e + 'b) \<Rightarrow> 'e + 'b" where
  "bindE m f = (case m of Inl e \<Rightarrow> Inl e | Inr x \<Rightarrow> f x)"

lemma bindE_simps [simp]:
  "bindE (Inl e) f = Inl e"
  "bindE (Inr x) f = f x"
  by (simp_all add: bindE_def)

lemma bindE_Inl_iff: "bindE r f = Inl e \<longleftrightarrow> r = Inl e \<or> (\<exists>v. r = Inr v \<and> f v = Inl e)"
  by (cases r) auto

lemma bindE_Inr_iff: "bindE m f = Inr y \<longleftrightarrow> (\<exists>x. m = Inr x \<and> f x = Inr y)"
  by (cases m) auto

lemma bindE_InrE [elim!]:
  assumes "bindE m f = Inr y"
  obtains x where "m = Inr x" and "f x = Inr y"
  using assms by (auto simp: bindE_Inr_iff)

lemma bindE_assoc: "bindE (bindE m f) g = bindE m (\<lambda>x. bindE (f x) g)"
  by (cases m) auto

lemma bindE_cong [fundef_cong]:
  assumes "m = m'" and "\<And>x. m' = Inr x \<Longrightarrow> f x = f' x"
  shows "bindE m f = bindE m' f'"
  using assms by (cases m') auto

text \<open>The condition that a computation does not fault.\<close>

definition okE :: "'e + 'a \<Rightarrow> bool" where
  "okE m \<longleftrightarrow> (\<exists>x. m = Inr x)"

lemma okE_simps [simp]: "okE (Inr x)" "\<not> okE (Inl e)"
  by (simp_all add: okE_def)

lemma okE_bindE: "okE (bindE m f) \<longleftrightarrow> (\<exists>x. m = Inr x \<and> okE (f x))"
  by (cases m) auto

lemma okE_bindE_Inr: "okE (bindE m (\<lambda>x. Inr (f x))) = okE m"
  by (cases m) auto

text \<open>
  Collections of facts.  \<open>layout\<close>: lengths and positions of encoded data.  \<open>rt_intros\<close>: preservation
  of the routing-table invariant.
\<close>

named_theorems layout "sizes and offsets of encoded structures"
named_theorems rt_intros "preservation of the routing table invariant"

section \<open>Weakest preconditions\<close>

text \<open>
  \<open>wpE m Q\<close>: the computation does not call through a null pointer or free a wrong address, and a
  result satisfies \<open>Q\<close>.  The faults that depend on the bytes received are allowed.
\<close>

definition wpE :: "fault + 'a \<Rightarrow> ('a \<Rightarrow> bool) \<Rightarrow> bool" where
  "wpE m Q \<longleftrightarrow> (case m of Inl f \<Rightarrow> f \<noteq> Null_Pointer \<and> f \<noteq> Bad_Free | Inr x \<Rightarrow> Q x)"

named_theorems wp "weakest-precondition rules"

lemma wpE_Inr [simp]: "wpE (Inr x) Q \<longleftrightarrow> Q x"
  by (simp add: wpE_def)

lemma wpE_Inl [simp]: "wpE (Inl f) Q \<longleftrightarrow> f \<noteq> Null_Pointer \<and> f \<noteq> Bad_Free"
  by (simp add: wpE_def)

lemma wpE_bindE [simp]: "wpE (bindE m f) Q \<longleftrightarrow> wpE m (\<lambda>x. wpE (f x) Q)"
  by (cases m) simp_all

lemma wpE_mono: "wpE m P \<Longrightarrow> (\<And>x. P x \<Longrightarrow> Q x) \<Longrightarrow> wpE m Q"
  by (cases m) simp_all

lemma wpE_conj: "wpE m P \<Longrightarrow> (\<And>x. m = Inr x \<Longrightarrow> P x \<Longrightarrow> Q x) \<Longrightarrow> wpE m Q"
  by (cases m) simp_all

lemma wpE_InrD: "wpE m Q \<Longrightarrow> m = Inr x \<Longrightarrow> Q x"
  by simp

section \<open>Lists\<close>

text \<open>The index of the first element that satisfies a test, the shape of the lookup loops.\<close>

fun first_index :: "('a \<Rightarrow> bool) \<Rightarrow> 'a list \<Rightarrow> nat option" where
  "first_index P [] = None"
| "first_index P (x # xs) = (if P x then Some 0 else map_option Suc (first_index P xs))"

lemma first_index_None: "first_index P xs = None \<longleftrightarrow> (\<forall>x \<in> set xs. \<not> P x)"
  by (induction xs) auto

lemma first_index_SomeD:
  "first_index P xs = Some i \<Longrightarrow> i < length xs \<and> P (xs ! i) \<and> (\<forall>j < i. \<not> P (xs ! j))"
proof (induction xs arbitrary: i)
  case Nil
  then show ?case by simp
next
  case (Cons x xs)
  show ?case
  proof (cases "P x")
    case True
    with Cons.prems show ?thesis by simp
  next
    case False
    with Cons.prems obtain j where j: "first_index P xs = Some j" "i = Suc j" by auto
    with Cons.IH[OF j(1)] False show ?thesis by (auto simp: less_Suc_eq_0_disj)
  qed
qed

lemma first_index_unique:
  "\<lbrakk>i < length xs; P (xs ! i); \<And>j. j < length xs \<Longrightarrow> P (xs ! j) \<Longrightarrow> j = i\<rbrakk>
    \<Longrightarrow> first_index P xs = Some i"
proof (cases "first_index P xs")
  case None
  assume "i < length xs" "P (xs ! i)"
  with None show ?thesis by (auto simp: first_index_None)
next
  case (Some k)
  assume "\<And>j. j < length xs \<Longrightarrow> P (xs ! j) \<Longrightarrow> j = i"
  with first_index_SomeD[OF Some] Some show ?thesis by auto
qed

end
