(* ===== verification/Bytes.thy ===== *)
theory Bytes
  imports Prelude
begin

text \<open>
  Bytes, host and network byte order, and raw memory.  The host is little-endian, the first
  alternative of the \<open>__BYTE_ORDER\<close> tests in \<open>src/ip.h\<close>.  A buffer is the list of the bytes that have
  been written into it; reading past them is the fault \<open>Indeterminate\<close>, writing past the capacity
  of the object is \<open>Out_Of_Bounds\<close>.
\<close>

unbundle bit_operations_syntax

type_synonym byte = "8 word"

section \<open>Words in memory\<close>

definition word16 :: "byte \<Rightarrow> byte \<Rightarrow> u16" where
  "word16 a b = ucast a OR push_bit 8 (ucast b)"

definition word32 :: "byte \<Rightarrow> byte \<Rightarrow> byte \<Rightarrow> byte \<Rightarrow> u32" where
  "word32 a b c d = ucast a OR push_bit 8 (ucast b) OR push_bit 16 (ucast c) OR push_bit 24 (ucast d)"

definition bytes16 :: "u16 \<Rightarrow> byte list" where
  "bytes16 w = [ucast w, ucast (drop_bit 8 w)]"

definition bytes32 :: "u32 \<Rightarrow> byte list" where
  "bytes32 w = [ucast w, ucast (drop_bit 8 w), ucast (drop_bit 16 w), ucast (drop_bit 24 w)]"

lemma length_bytes [layout, simp]: "length (bytes16 w) = 2" "length (bytes32 v) = 4"
  by (simp_all add: bytes16_def bytes32_def)

lemma word16_bytes16 [simp]: "word16 (ucast w) (ucast (drop_bit 8 w)) = w" for w :: u16
  by (rule bit_word_eqI) (auto simp: word16_def bit_simps)

lemma word32_bytes32 [simp]:
  "word32 (ucast w) (ucast (drop_bit 8 w)) (ucast (drop_bit 16 w)) (ucast (drop_bit 24 w)) = w"
  for w :: u32
proof (rule bit_word_eqI)
  fix n assume "n < LENGTH(32)"
  then consider "n < 8" | "8 \<le> n" "n < 16" | "16 \<le> n" "n < 24" | "24 \<le> n" "n < 32" by force
  then show "bit (word32 (ucast w) (ucast (drop_bit 8 w)) (ucast (drop_bit 16 w))
      (ucast (drop_bit 24 w))) n = bit w n"
    by cases (simp_all add: word32_def bit_simps, auto)
qed

lemma byte_word16 [simp]:
  "ucast (word16 a b) = a" "ucast (drop_bit 8 (word16 a b)) = b"
  by (rule bit_word_eqI, auto simp: word16_def bit_simps dest: bit_imp_le_length)+

lemma byte_word32 [simp]:
  "ucast (word32 a b c d) = a" "ucast (drop_bit 8 (word32 a b c d)) = b"
  "ucast (drop_bit 16 (word32 a b c d)) = c" "ucast (drop_bit 24 (word32 a b c d)) = d"
  by (rule bit_word_eqI, auto simp: word32_def bit_simps dest: bit_imp_le_length)+

lemma bytes16_word16 [simp]: "bytes16 (word16 a b) = [a, b]"
  by (simp add: bytes16_def)

lemma bytes32_word32 [simp]: "bytes32 (word32 a b c d) = [a, b, c, d]"
  by (simp add: bytes32_def)

lemma word16_nat: "unat (word16 a b) = unat a + 256 * unat b"
proof -
  have "word16 a b = ucast a + push_bit 8 (ucast b)"
    unfolding word16_def
    by (rule disjunctive_add [symmetric]) (auto simp: bit_simps dest: bit_imp_le_length)
  moreover have "unat (push_bit 8 (ucast b :: u16)) = 256 * unat b"
    using unsigned_less [of b, where 'a = nat]
    by (simp add: unsigned_push_bit_eq unsigned_ucast_eq take_bit_nat_eq_self push_bit_nat_def)
  moreover have "unat (ucast a :: u16) = unat a"
    using unsigned_less [of a, where 'a = nat]
    by (simp add: unsigned_ucast_eq take_bit_nat_eq_self)
  ultimately show ?thesis
    using unsigned_less [of a, where 'a = nat] unsigned_less [of b, where 'a = nat]
    by (simp add: unat_word_ariths)
qed

section \<open>Byte order\<close>

text \<open>\<open>htons\<close>, \<open>ntohs\<close>, \<open>htonl\<close> and \<open>ntohl\<close> of \<open>arpa/inet.h\<close> on a little-endian host.\<close>

definition bswap16 :: "u16 \<Rightarrow> u16" where
  "bswap16 w = word16 (ucast (drop_bit 8 w)) (ucast w)"

definition bswap32 :: "u32 \<Rightarrow> u32" where
  "bswap32 w = word32 (ucast (drop_bit 24 w)) (ucast (drop_bit 16 w)) (ucast (drop_bit 8 w)) (ucast w)"

definition htons :: "u16 \<Rightarrow> u16" where "htons w = bswap16 w"
definition ntohs :: "u16 \<Rightarrow> u16" where "ntohs w = bswap16 w"
definition htonl :: "u32 \<Rightarrow> u32" where "htonl w = bswap32 w"
definition ntohl :: "u32 \<Rightarrow> u32" where "ntohl w = bswap32 w"

lemma bswap16_word16 [simp]: "bswap16 (word16 a b) = word16 b a"
  by (simp add: bswap16_def)

lemma bswap32_word32 [simp]: "bswap32 (word32 a b c d) = word32 d c b a"
  by (simp add: bswap32_def)

lemma bswap16_bswap16 [simp]: "bswap16 (bswap16 w) = w"
  by (subst (2) bswap16_def) simp

lemma bswap32_bswap32 [simp]: "bswap32 (bswap32 w) = w"
  by (subst (2) bswap32_def) simp

lemma ntohs_htons [simp]: "ntohs (htons w) = w" "htons (ntohs w) = w"
  by (simp_all add: ntohs_def htons_def)

lemma ntohl_htonl [simp]: "ntohl (htonl w) = w" "htonl (ntohl w) = w"
  by (simp_all add: ntohl_def htonl_def)

lemma htonl_inject [simp]: "htonl a = htonl b \<longleftrightarrow> a = b"
  by (metis ntohl_htonl(1))

section \<open>Reading and writing memory\<close>

definition rd8 :: "byte list \<Rightarrow> nat \<Rightarrow> fault + u8" where
  "rd8 m i = (if i < length m then Inr (m ! i) else Inl Indeterminate)"

definition rd16 :: "byte list \<Rightarrow> nat \<Rightarrow> fault + u16" where
  "rd16 m i = (if i + 1 < length m then Inr (word16 (m ! i) (m ! (i + 1))) else Inl Indeterminate)"

definition rd32 :: "byte list \<Rightarrow> nat \<Rightarrow> fault + u32" where
  "rd32 m i = (if i + 3 < length m
     then Inr (word32 (m ! i) (m ! (i + 1)) (m ! (i + 2)) (m ! (i + 3))) else Inl Indeterminate)"

text \<open>\<open>memcpy\<close> or \<open>memset\<close> of the bytes \<open>xs\<close> at offset \<open>i\<close> of a buffer of which at least \<open>i\<close> bytes
  have been written and whose capacity is \<open>cap\<close>.\<close>

definition put :: "nat \<Rightarrow> byte list \<Rightarrow> nat \<Rightarrow> byte list \<Rightarrow> fault + byte list" where
  "put cap m i xs =
     (if i \<le> length m \<and> i + length xs \<le> cap
      then Inr (take i m @ xs @ drop (i + length xs) m) else Inl Out_Of_Bounds)"

text \<open>The first \<open>n\<close> bytes of a buffer, as the source of a \<open>memcpy\<close>.\<close>

definition get_bytes :: "byte list \<Rightarrow> nat \<Rightarrow> fault + byte list" where
  "get_bytes m n = (if n \<le> length m then Inr (take n m) else Inl Indeterminate)"

lemma rd16_at [simp]: "i = length xs \<Longrightarrow> rd16 (xs @ bytes16 w @ ys) i = Inr w"
  by (simp add: rd16_def bytes16_def nth_append)

lemma rd32_at [simp]: "i = length xs \<Longrightarrow> rd32 (xs @ bytes32 w @ ys) i = Inr w"
  by (simp add: rd32_def bytes32_def nth_append)

lemma rd16_bytes16 [simp]: "rd16 (bytes16 w @ ys) 0 = Inr w"
  using rd16_at [of 0 "[]"] by simp

lemma rd32_bytes32 [simp]: "rd32 (bytes32 w @ ys) 0 = Inr w"
  using rd32_at [of 0 "[]"] by simp

lemma put_length [layout]:
  "put cap m i xs = Inr m' \<Longrightarrow> i + length xs \<le> length m \<Longrightarrow> length m' = length m"
  by (auto simp: put_def split: if_splits)

text \<open>Reads and writes as \<open>wp\<close> rules: they fault only for the sake of the bytes.\<close>

lemma wpE_rd [wp]:
  "(\<And>w. i < length m \<Longrightarrow> Q w) \<Longrightarrow> wpE (rd8 m i) Q"
  "(\<And>w. i + 1 < length m \<Longrightarrow> Q' w) \<Longrightarrow> wpE (rd16 m i) Q'"
  "(\<And>w. i + 3 < length m \<Longrightarrow> Q'' w) \<Longrightarrow> wpE (rd32 m i) Q''"
  by (simp_all add: rd8_def rd16_def rd32_def)

lemma wpE_put [wp]:
  "(\<And>m'. length m' = max (length m) (i + length xs) \<Longrightarrow> length m' \<le> max (length m) cap \<Longrightarrow> Q m')
     \<Longrightarrow> wpE (put cap m i xs) Q"
  by (auto simp: put_def max_def)

lemma wpE_get_bytes [wp]:
  "(n \<le> length m \<Longrightarrow> Q (take n m)) \<Longrightarrow> wpE (get_bytes m n) Q"
  by (simp add: get_bytes_def)

end
