(* ===== verification/Std_Map.thy ===== *)
theory Std_Map
  imports Prelude
begin

text \<open>
  \<open>std::map<uint32_t, entry_wts>\<close> as the routing code uses it: an association list in ascending key
  order, because the code iterates it from \<open>begin()\<close> to \<open>end()\<close> and the order is visible in the
  messages it sends.  The locale \<open>key_map\<close> is the contract of a keyed store; its clients are the
  routing table here and the hash table of \<open>src/htable.c\<close>.
\<close>

section \<open>The contract of a keyed store\<close>

locale key_map =
  fixes lookup :: "'m \<Rightarrow> 'k \<Rightarrow> 'v option"
    and insert :: "'k \<Rightarrow> 'v \<Rightarrow> 'm \<Rightarrow> 'm"
    and delete :: "'k \<Rightarrow> 'm \<Rightarrow> 'm"
    and invar :: "'m \<Rightarrow> bool"
  assumes lookup_insert: "invar m \<Longrightarrow> lookup (insert k v m) k' = (if k' = k then Some v else lookup m k')"
    and lookup_delete: "invar m \<Longrightarrow> lookup (delete k m) k' = (if k' = k then None else lookup m k')"
    and invar_insert: "invar m \<Longrightarrow> invar (insert k v m)"
    and invar_delete: "invar m \<Longrightarrow> invar (delete k m)"
begin

lemmas laws = lookup_insert lookup_delete invar_insert invar_delete

lemma lookup_insert_same: "invar m \<Longrightarrow> lookup (insert k v m) k = Some v"
  by (simp add: laws)

lemma lookup_insert_other: "invar m \<Longrightarrow> k' \<noteq> k \<Longrightarrow> lookup (insert k v m) k' = lookup m k'"
  by (simp add: laws)

lemma insert_insert: "invar m \<Longrightarrow> lookup (insert k v (insert k w m)) = lookup (insert k v m)"
  by (auto simp: laws fun_eq_iff)

lemma delete_insert: "invar m \<Longrightarrow> lookup (delete k (insert k v m)) = lookup (delete k m)"
  by (auto simp: laws fun_eq_iff)

lemma insert_commute:
  "invar m \<Longrightarrow> k \<noteq> k' \<Longrightarrow> lookup (insert k v (insert k' w m)) = lookup (insert k' w (insert k v m))"
  by (auto simp: laws fun_eq_iff)

text \<open>Deleting a list of keys, the effect of the erase loops.\<close>

lemma delete_list:
  "invar m \<Longrightarrow> invar (fold delete ks m) \<and>
     lookup (fold delete ks m) k = (if k \<in> set ks then None else lookup m k)"
  by (induction ks arbitrary: m) (auto simp: laws)

end

section \<open>The ordered map\<close>

type_synonym ('k, 'v) std_map = "('k \<times> 'v) list"

text \<open>\<open>find\<close>: the value stored at a key, \<open>None\<close> for \<open>end()\<close>.\<close>

fun map_find :: "('k::linorder, 'v) std_map \<Rightarrow> 'k \<Rightarrow> 'v option" where
  "map_find [] k = None"
| "map_find ((a, b) # m) k = (if k = a then Some b else map_find m k)"

text \<open>\<open>m[k] = v\<close>.\<close>

fun map_assign :: "'k::linorder \<Rightarrow> 'v \<Rightarrow> ('k, 'v) std_map \<Rightarrow> ('k, 'v) std_map" where
  "map_assign k v [] = [(k, v)]"
| "map_assign k v ((a, b) # m) =
     (if k < a then (k, v) # (a, b) # m
      else if k = a then (k, v) # m
      else (a, b) # map_assign k v m)"

text \<open>\<open>erase\<close> of the element at a key.\<close>

fun map_erase :: "'k::linorder \<Rightarrow> ('k, 'v) std_map \<Rightarrow> ('k, 'v) std_map" where
  "map_erase k [] = []"
| "map_erase k ((a, b) # m) = (if k = a then m else (a, b) # map_erase k m)"

definition map_invar :: "('k::linorder, 'v) std_map \<Rightarrow> bool" where
  "map_invar m \<longleftrightarrow> sorted (map fst m) \<and> distinct (map fst m)"

lemma map_invar_Nil [simp]: "map_invar []"
  by (simp add: map_invar_def)

lemma map_invar_Cons:
  "map_invar ((a, b) # m) \<longleftrightarrow> (\<forall>x \<in> set m. a < fst x) \<and> map_invar m"
  by (auto simp: map_invar_def less_le)

lemma map_find_None: "map_find m k = None \<longleftrightarrow> k \<notin> fst ` set m"
  by (induction m) (auto split: if_splits simp: image_iff)

lemma map_find_SomeD: "map_find m k = Some v \<Longrightarrow> (k, v) \<in> set m"
  by (induction m) (auto split: if_splits)

lemma map_find_in: "map_invar m \<Longrightarrow> map_find m k = Some v \<longleftrightarrow> (k, v) \<in> set m"
  by (induction m) (fastforce simp: map_invar_Cons split: if_splits)+

lemma map_find_assign: "map_find (map_assign k v m) k' = (if k' = k then Some v else map_find m k')"
  by (induction m) auto

lemma map_find_erase:
  "map_invar m \<Longrightarrow> map_find (map_erase k m) k' = (if k' = k then None else map_find m k')"
proof (induction m)
  case (Cons x m)
  obtain a b where x: "x = (a, b)" by (cases x)
  have "k \<noteq> a \<or> map_find m k = None"
    using Cons.prems by (auto simp: x map_invar_Cons map_find_None)
  with Cons show ?case by (auto simp: x map_invar_Cons)
qed simp

lemma set_map_assign: "set (map_assign k v m) \<subseteq> insert (k, v) (set m)"
  by (induction m) (auto split: if_splits)

lemma set_map_erase: "set (map_erase k m) \<subseteq> set m"
  by (induction m) (auto split: if_splits)

lemma map_invar_assign: "map_invar m \<Longrightarrow> map_invar (map_assign k v m)"
proof (induction m)
  case Nil
  then show ?case by (simp add: map_invar_Cons)
next
  case (Cons x m)
  obtain a b where x: "x = (a, b)" by (cases x)
  have "\<forall>y \<in> set (map_assign k v m). a < fst y" if "a < k"
    using that Cons.prems set_map_assign [of k v m] by (auto simp: x map_invar_Cons)
  with Cons show ?case by (auto simp: x map_invar_Cons)
qed

lemma map_erase_length_le: "length (map_erase k m) \<le> length m"
  by (induction m) auto

lemma map_invar_erase: "map_invar m \<Longrightarrow> map_invar (map_erase k m)"
proof (induction m)
  case (Cons x m)
  then show ?case using set_map_erase [of k m] by (cases x) (auto simp: map_invar_Cons)
qed simp

interpretation std_map: key_map map_find map_assign map_erase map_invar
  by unfold_locales (simp_all add: map_find_assign map_find_erase map_invar_assign map_invar_erase)

text \<open>Under the invariant the set of pairs determines lookups, whatever the loop that removed them.\<close>

lemma map_invar_filter: "map_invar m \<Longrightarrow> map_invar (filter P m)"
  by (induction m) (auto simp: map_invar_Cons)

lemma map_find_filter:
  "map_invar m \<Longrightarrow> map_find (filter P m) k =
     (case map_find m k of None \<Rightarrow> None | Some v \<Rightarrow> if P (k, v) then Some v else None)"
proof (induction m)
  case (Cons x m)
  obtain a b where x: "x = (a, b)" by (cases x)
  have "k \<noteq> a \<or> map_find m k = None"
    using Cons.prems by (auto simp: x map_invar_Cons map_find_None)
  with Cons show ?case by (auto simp: x map_invar_Cons)
qed simp

lemma length_map_assign:
  "length (map_assign k v m) = (if map_find m k = None then Suc (length m) else length m)" if "map_invar m"
  using that
proof (induction m)
  case (Cons x m)
  obtain a b where x: "x = (a, b)" by (cases x)
  have "k < a \<Longrightarrow> map_find m k = None"
    using Cons.prems by (auto simp: x map_invar_Cons map_find_None)
  with Cons show ?case by (auto simp: x map_invar_Cons)
qed simp

lemma erase_loop_filter:
  assumes "map_invar (done @ todo)"
  shows "fold (\<lambda>(k, v) m. if P (k, v) then map_erase k m else m) todo (done @ todo)
    = done @ filter (\<lambda>x. \<not> P x) todo"
  using assms
proof (induction todo arbitrary: "done")
  case (Cons x todo)
  obtain k v where x: "x = (k, v)" by (cases x)
  have fresh: "k \<notin> fst ` set done" and inv: "map_invar (done @ todo)"
    using Cons.prems by (auto simp: x map_invar_def sorted_append)
  from fresh have "map_erase k (done @ (k, v) # todo) = done @ todo"
    by (induction "done") auto
  with Cons.IH [of "done"] Cons.IH [of "done @ [x]"] Cons.prems inv show ?case
    by (simp add: x)
qed simp

end
