(* ===== verification/Net_Types.thy ===== *)
theory Net_Types
  imports Bytes Std_Map
begin

text \<open>
  The data of the node: the structures of \<open>src/common.hh\<close> and \<open>src/ip.h\<close>, the state of a
  \<open>LinkLayer\<close> (\<open>src/LinkLayer.hh\<close>) and the state reachable from a \<open>Node\<close> (\<open>src/Node.hh\<close>), with the
  interface lookups of \<open>src/NodeImpl.cc\<close>.  A pointer to a \<open>LinkLayer\<close> is its index in \<open>_interfaces\<close>,
  \<open>None\<close> for \<open>nullptr\<close>.
\<close>

section \<open>src/common.hh\<close>

definition MAX_ENTRIES :: nat where "MAX_ENTRIES = 64"
definition UPDATE_TIMER_ID :: int where "UPDATE_TIMER_ID = 1"
definition REFRESH_TIMER_ID :: int where "REFRESH_TIMER_ID = 2"
definition REFRESH_TIMER_VAL :: u64 where "REFRESH_TIMER_VAL = 12"
definition DEFAULT_ADDR :: u32 where "DEFAULT_ADDR = 0xFFFFFFFF"

record timeval =
  tv_sec :: u64
  tv_usec :: u64

record entry =
  cost :: u32
  address :: u32
  emask :: u32

record entry_wts =
  ent :: entry
  next_hop :: u32
  tstamp :: timeval

type_synonym rtable = "(u32, entry_wts) std_map"

text \<open>The sizes of the packed structures, and the capacity of \<open>struct packet\<close>.\<close>

definition sizeof_entry :: nat where "sizeof_entry = 12"
definition sizeof_iphdr :: nat where "sizeof_iphdr = 20"
definition packet_data_cap :: nat where "packet_data_cap = 1024"
definition sizeof_packet :: nat where "sizeof_packet = 1044"

record ipmsg =
  ifc :: nat
  msize :: nat
  ippacket :: "byte list"

record rcvmsg =
  datalen :: nat
  rnext :: u32
  ippkt :: "byte list"

section \<open>src/ip.h\<close>

text \<open>The header as its fields hold it in memory (network order in the 16- and 32-bit fields), and its layout.\<close>

record iphdr =
  ihl :: "4 word"
  version :: "4 word"
  tos :: u8
  tot_len :: u16
  ident :: u16
  frag_off :: u16
  ttl :: u8
  protocol :: u8
  check :: u16
  saddr :: u32
  daddr :: u32

definition iphdr_bytes :: "iphdr \<Rightarrow> byte list" where
  "iphdr_bytes h =
     [ucast (ihl h) OR push_bit 4 (ucast (version h)), tos h] @ bytes16 (tot_len h)
     @ bytes16 (ident h) @ bytes16 (frag_off h) @ [ttl h, protocol h] @ bytes16 (check h)
     @ bytes32 (saddr h) @ bytes32 (daddr h)"

lemma length_iphdr_bytes [layout, simp]: "length (iphdr_bytes h) = 20"
  by (simp add: iphdr_bytes_def)

section \<open>The state of a link and of a node\<close>

record link =
  s_local :: int
  localip :: string
  localport :: u16
  remoteport :: u16
  isup :: bool
  sbuffer :: "byte list option"
  sbufferReady :: bool
  sbuffersz :: nat
  vip_local :: u32
  vip_remote :: u32

text \<open>What the code prints, with the raw arguments of each \<open>fprintf\<close>.\<close>

datatype console_line =
    Checksum_Difference u16 u16
  | Received_Packet int u32 u32 u8 int "byte list"
  | Ttl_Expired
  | Destination_Unreachable
  | Unrecognised_Type
  | Iface_Already_Up
  | Iface_Already_Down
  | Iface_Closing int
  | Help_Text
  | Incorrect_Command
  | No_Valid_Command
  | Usage_Send
  | Malformed_Ip
  | Payload_Unspecified
  | Usage_Down
  | Usage_Up
  | Interfaces_Header
  | Interface_Row nat string string
  | Routes_Header
  | Route_Row u32 string string
  | Invalid_Timer
  | Base_Message string

record node =
  interfaces :: "link list"
  rtable :: rtable
  incomingqueue :: "ipmsg list"
  outgoingqueue :: "rcvmsg list"
  timerQueue :: "int list"
  console :: "console_line list"

definition print :: "console_line \<Rightarrow> node \<Rightarrow> node" where
  "print x n = n\<lparr>console := console n @ [x]\<rparr>"

lemma print_sel [simp]:
  "interfaces (print x n) = interfaces n" "rtable (print x n) = rtable n"
  "incomingqueue (print x n) = incomingqueue n" "outgoingqueue (print x n) = outgoingqueue n"
  "timerQueue (print x n) = timerQueue n" "console (print x n) = console n @ [x]"
  by (simp_all add: print_def)

section \<open>src/NodeImpl.cc: interface lookups\<close>

definition is_my_interface :: "link list \<Rightarrow> u32 \<Rightarrow> bool" where
  "is_my_interface ifs addr \<longleftrightarrow> first_index (\<lambda>ll. vip_local ll = addr) ifs \<noteq> None"

definition is_destined_to_me :: "link list \<Rightarrow> u32 \<Rightarrow> bool" where
  "is_destined_to_me ifs addr \<longleftrightarrow> first_index (\<lambda>ll. vip_local ll = addr) ifs \<noteq> None"

definition get_interface :: "link list \<Rightarrow> u32 \<Rightarrow> nat option" where
  "get_interface ifs next_addr = first_index (\<lambda>ll. vip_local ll = next_addr) ifs"

definition get_interfaceid :: "link list \<Rightarrow> u32 \<Rightarrow> int" where
  "get_interfaceid ifs addr =
     (case first_index (\<lambda>ll. vip_remote ll = addr) ifs of Some i \<Rightarrow> int i | None \<Rightarrow> -1)"

definition get_interfaceid_with_port :: "link list \<Rightarrow> u16 \<Rightarrow> int" where
  "get_interfaceid_with_port ifs port =
     (case first_index (\<lambda>ll. remoteport ll = port) ifs of Some i \<Rightarrow> int i | None \<Rightarrow> -1)"

text \<open>\<open>_interfaces[i]\<close>: no bounds check, undefined outside the vector.\<close>

definition interface_at :: "link list \<Rightarrow> int \<Rightarrow> fault + link" where
  "interface_at ifs i =
     (if 0 \<le> i \<and> i < int (length ifs) then Inr (ifs ! nat i) else Inl Out_Of_Bounds)"

text \<open>The addresses a node owns.\<close>

definition my_addrs :: "link list \<Rightarrow> u32 set" where
  "my_addrs ifs = vip_local ` set ifs"

lemma is_my_interface_iff [simp]: "is_my_interface ifs a \<longleftrightarrow> a \<in> my_addrs ifs"
  by (auto simp: is_my_interface_def my_addrs_def first_index_None)

lemma is_destined_to_me_iff [simp]: "is_destined_to_me ifs a \<longleftrightarrow> a \<in> my_addrs ifs"
  by (auto simp: is_destined_to_me_def my_addrs_def first_index_None)

lemma get_interface_None: "get_interface ifs a = None \<longleftrightarrow> a \<notin> my_addrs ifs"
  by (auto simp: get_interface_def my_addrs_def first_index_None)

lemma get_interface_SomeD:
  "get_interface ifs a = Some i \<Longrightarrow> i < length ifs \<and> vip_local (ifs ! i) = a"
  unfolding get_interface_def by (drule first_index_SomeD) simp

lemma get_interface_my: "a \<in> my_addrs ifs \<Longrightarrow> \<exists>i. get_interface ifs a = Some i"
  using get_interface_None [of ifs a] by (cases "get_interface ifs a") simp_all

lemma get_interface_nth:
  assumes "distinct (map vip_local ifs)" and "i < length ifs"
  shows "get_interface ifs (vip_local (ifs ! i)) = Some i"
  unfolding get_interface_def
proof (rule first_index_unique)
  fix j assume "j < length ifs" and "vip_local (ifs ! j) = vip_local (ifs ! i)"
  then have "map vip_local ifs ! j = map vip_local ifs ! i" using assms(2) by simp
  with assms \<open>j < length ifs\<close> show "j = i" by (simp only: nth_eq_iff_index_eq length_map)
qed (use assms in simp_all)

lemma vip_local_nth [simp, intro]: "i < length ifs \<Longrightarrow> vip_local (ifs ! i) \<in> my_addrs ifs"
  by (auto simp: my_addrs_def)

lemma interface_at_nth [simp]: "i < length ifs \<Longrightarrow> interface_at ifs (int i) = Inr (ifs ! i)"
  by (simp add: interface_at_def)

lemma interface_at_InrD: "interface_at ifs i = Inr l \<Longrightarrow> l \<in> set ifs"
  by (auto simp: interface_at_def split: if_splits)

end
