(* ===== verification/Ip_Sum.thy ===== *)
theory Ip_Sum
  imports Bytes
begin

text \<open>
  \<open>src/ipsum.h\<close>: the Internet checksum.  The accumulator is the 64-bit \<open>long\<close> of the source; the loop
  reads host-order 16-bit words, so the result is stored back without a byte swap.  The lemmas show
  that the two folding lines compute the ones-complement sum of all words (for every length the
  \<open>int\<close> argument can express without overflowing two folds), and from it the detection property that
  the receive path relies on.
\<close>

section \<open>The routine\<close>

text \<open>The \<open>while (len > 1)\<close> loop and the odd byte after it.\<close>

fun ip_sum_loop :: "byte list \<Rightarrow> int \<Rightarrow> u64 \<Rightarrow> fault + u64" where
  "ip_sum_loop p len acc =
     (if len > 1 then
        (case p of
           a # b # p' \<Rightarrow> ip_sum_loop p' (len - 2) (acc + ucast (word16 a b))
         | _ \<Rightarrow> Inl Indeterminate)
      else if len = 1 then
        (case p of a # _ \<Rightarrow> Inr (acc + ucast (ucast a :: u16)) | [] \<Rightarrow> Inl Indeterminate)
      else Inr acc)"

declare ip_sum_loop.simps [simp del]

definition ip_sum :: "byte list \<Rightarrow> int \<Rightarrow> fault + u16" where
  "ip_sum packet len =
     bindE (ip_sum_loop packet len 0) (\<lambda>s.
       let s = signed_drop_bit 16 s + (s AND 0xffff);
           s = s + signed_drop_bit 16 s
       in Inr (ucast (NOT s)))"

section \<open>Reference: the ones-complement sum\<close>

text \<open>The 16-bit words of a block, an odd byte being the low byte of a last word.\<close>

fun words16 :: "byte list \<Rightarrow> u16 list" where
  "words16 (a # b # p) = word16 a b # words16 p"
| "words16 [a] = [word16 a 0]"
| "words16 [] = []"

definition total16 :: "byte list \<Rightarrow> nat" where
  "total16 p = sum_list (map unat (words16 p))"

text \<open>End-around carry: the representative of \<open>s\<close> modulo 65535 in \<open>1..65535\<close>, and 0 for 0.\<close>

definition oc_fold :: "nat \<Rightarrow> nat" where
  "oc_fold s = (if s = 0 then 0 else (s - 1) mod 65535 + 1)"

lemma total16_Nil [simp]: "total16 [] = 0"
  by (simp add: total16_def)

lemma total16_Cons2 [simp]: "total16 (a # b # p) = unat (word16 a b) + total16 p"
  by (simp add: total16_def)

lemma total16_Cons1 [simp]: "total16 [a] = unat a"
  by (simp add: total16_def word16_nat)

lemma total16_append: "even (length xs) \<Longrightarrow> total16 (xs @ ys) = total16 xs + total16 ys"
  by (induction xs rule: words16.induct) auto

lemma unat_u16: "unat (w :: u16) < 65536"
  using unsigned_less [of w, where 'a = nat] by simp

lemma unat_u8: "unat (w :: u8) < 256"
  using unsigned_less [of w, where 'a = nat] by simp

lemma total16_bound: "total16 p \<le> 65535 * ((length p + 1) div 2)"
proof (induction p rule: words16.induct)
  case (1 a b p)
  then show ?case using unat_u16 [of "word16 a b"] by simp
next
  case (2 a)
  then show ?case using unat_u8 [of a] by simp
qed simp

lemma oc_fold_bound: "oc_fold s < 65536"
  using mod_less_divisor [of 65535 "s - 1"] by (simp add: oc_fold_def)

lemma oc_fold_small: "s < 65536 \<Longrightarrow> oc_fold s = s"
  by (simp add: oc_fold_def)

lemma oc_fold_mod: "oc_fold s mod 65535 = s mod 65535"
  by (simp add: oc_fold_def mod_Suc_eq flip: Suc_eq_plus1)

lemma oc_fold_0_iff [simp]: "oc_fold s = 0 \<longleftrightarrow> s = 0"
  by (simp add: oc_fold_def)

lemma oc_fold_eq_iff:
  "oc_fold s = oc_fold t \<longleftrightarrow> s mod 65535 = t mod 65535 \<and> (s = 0 \<longleftrightarrow> t = 0)"
proof
  assume "oc_fold s = oc_fold t"
  then show "s mod 65535 = t mod 65535 \<and> (s = 0 \<longleftrightarrow> t = 0)"
    by (metis oc_fold_0_iff oc_fold_mod)
next
  assume r: "s mod 65535 = t mod 65535 \<and> (s = 0 \<longleftrightarrow> t = 0)"
  show "oc_fold s = oc_fold t"
  proof (cases "s = 0")
    case True
    with r show ?thesis by simp
  next
    case False
    with r have p: "0 < s" "0 < t" by auto
    obtain q r' where q: "s + 65535 * q = t + 65535 * r'"
      using r nat_mod_eq_iff by blast
    with p have "(s - 1) + 65535 * q = (t - 1) + 65535 * r'" by linarith
    then have "(s - 1) mod 65535 = (t - 1) mod 65535" using nat_mod_eq_iff by blast
    with p show ?thesis by (simp add: oc_fold_def)
  qed
qed

section \<open>The routine computes the complemented sum\<close>

lemma unat_ucast_64_16: "unat (ucast (w :: u16) :: u64) = unat w"
  using unat_u16 [of w] by (simp add: unsigned_ucast_eq take_bit_nat_eq_self)

lemma unat_ucast_16_8: "unat (ucast (w :: u8) :: u16) = unat w"
  using unat_u8 [of w] by (simp add: unsigned_ucast_eq take_bit_nat_eq_self)

lemma ip_sum_loop_total:
  "ip_sum_loop (p @ rest) (int (length p)) s = Inr (s + of_nat (total16 p))"
proof (induction p arbitrary: s rule: words16.induct)
  case (1 a b p)
  have "ip_sum_loop ((a # b # p) @ rest) (int (length (a # b # p))) s
      = ip_sum_loop (p @ rest) (int (length p)) (s + ucast (word16 a b))"
    by (subst ip_sum_loop.simps) simp
  also have "\<dots> = Inr (s + ucast (word16 a b) + of_nat (total16 p))" by (rule 1)
  also have "ucast (word16 a b) = (of_nat (unat (word16 a b)) :: u64)"
    by (simp flip: unat_ucast_64_16)
  finally show ?case by (simp add: algebra_simps)
next
  case (2 a)
  have "ucast (ucast a :: u16) = (of_nat (unat a) :: u64)"
    by (simp flip: unat_ucast_64_16 unat_ucast_16_8)
  then show ?case by (subst ip_sum_loop.simps) simp
next
  case 3
  then show ?case by (subst ip_sum_loop.simps) simp
qed

text \<open>The two folding lines on an accumulator below \<open>2 ^ 32\<close>.\<close>

lemma fold_nat:
  assumes "s < 2 ^ 32"
  defines "t \<equiv> s div 65536 + s mod 65536"
  shows "(t + t div 65536) mod 65536 = oc_fold s"
proof -
  have hi: "s div 65536 < 65536" using assms(1) by (simp add: less_mult_imp_div_less)
  have lo: "s mod 65536 < 65536" by simp
  have s: "s = 65535 * (s div 65536) + t"
    using div_mult_mod_eq [of s 65536] unfolding t_def by linarith
  show ?thesis
  proof (cases "t < 65536")
    case True
    have "s mod 65535 = t mod 65535" by (subst s) simp
    moreover have "s = 0 \<longleftrightarrow> t = 0" using s unfolding t_def by auto
    ultimately have "oc_fold s = oc_fold t" by (simp add: oc_fold_eq_iff)
    with True show ?thesis by (simp add: oc_fold_small)
  next
    case False
    then have t: "t div 65536 = 1" "t - 65535 < 65536" "0 < t - 65535"
      using hi lo unfolding t_def by auto
    have "a = 65535 * h + t \<Longrightarrow> a = 65535 * (h + 1) + (t - 65535)" for a h :: nat
      using False by simp
    from this [OF s] have "s = 65535 * (s div 65536 + 1) + (t - 65535)" .
    then have "s mod 65535 = (65535 * (s div 65536 + 1) + (t - 65535)) mod 65535"
      by (rule arg_cong)
    then have "s mod 65535 = (t - 65535) mod 65535" by (simp only: mod_mult_self4)
    with t(3) s have "oc_fold s = oc_fold (t - 65535)" by (auto simp: oc_fold_eq_iff)
    also have "\<dots> = t - 65535" using t(2) by (rule oc_fold_small)
    also have "\<dots> = (t + 1) mod 65536"
      using False t(2) by (simp add: le_mod_geq)
    finally show ?thesis using t(1) by simp
  qed
qed

lemma signed_drop_bit_16:
  fixes x :: u64
  assumes "unat x < 2 ^ 63"
  shows "signed_drop_bit 16 x = drop_bit 16 x"
proof -
  have "unat x div 2 ^ 63 = 0" using assms by simp
  then have "\<not> bit (unat x) 63" by (simp add: bit_iff_odd)
  then have "\<not> bit x 63" by (simp add: bit_unsigned_iff)
  then show ?thesis
    by (intro bit_word_eqI) (auto simp: bit_simps dest: bit_imp_le_length)
qed

lemma unat_fold_lines:
  fixes s :: u64
  assumes "unat s < 2 ^ 32"
  defines "t \<equiv> signed_drop_bit 16 s + (s AND 0xffff)"
  shows "unat (t + signed_drop_bit 16 t) mod 65536 = oc_fold (unat s)"
proof -
  have "(0xffff :: u64) = mask 16" by (simp add: mask_eq_exp_minus_1)
  then have m: "unat (s AND 0xffff) = unat s mod 65536"
    by (simp only: take_bit_eq_mask [symmetric] unsigned_take_bit_eq take_bit_nat_def) simp
  have d: "unat (drop_bit 16 x) = unat x div 65536" for x :: u64
    by (simp only: drop_bit_eq_div unat_div_distrib) simp
  have hi: "unat s div 65536 < 65536" using assms(1) by (simp add: less_mult_imp_div_less)
  have lo: "unat s mod 65536 < 65536" by simp
  have "t = drop_bit 16 s + (s AND 0xffff)"
    unfolding t_def using assms(1) by (simp add: signed_drop_bit_16)
  then have t: "unat t = unat s div 65536 + unat s mod 65536"
    using hi lo by (simp add: unat_word_ariths d m)
  then have "unat t < 131072" using hi lo by linarith
  then have "unat (t + signed_drop_bit 16 t) = unat t + unat t div 65536"
    by (simp add: signed_drop_bit_16 unat_word_ariths d)
  then show ?thesis using fold_nat [OF assms(1)] t by simp
qed

theorem ip_sum_eq:
  assumes "length p < 131072"
  shows "ip_sum (p @ rest) (int (length p)) = Inr (NOT (of_nat (oc_fold (total16 p))))"
proof -
  define s :: u64 where "s = of_nat (total16 p)"
  have "total16 p < 2 ^ 32"
  proof -
    have "65535 * ((length p + 1) div 2) \<le> 65535 * 65536" using assms by simp
    with total16_bound [of p] show ?thesis by simp
  qed
  then have u: "unat s = total16 p" by (simp add: s_def unat_of_nat take_bit_nat_eq_self)
  define t where "t = signed_drop_bit 16 s + (s AND 0xffff)"
  define r where "r = t + signed_drop_bit 16 t"
  have "unat r mod 65536 = oc_fold (total16 p)"
    using unat_fold_lines [of s] \<open>total16 p < 2 ^ 32\<close> by (simp add: u r_def t_def)
  then have "(ucast r :: u16) = of_nat (oc_fold (total16 p))"
    by (simp add: word_unat_eq_iff unsigned_ucast_eq unat_of_nat take_bit_nat_def)
  moreover have "ucast (NOT r) = NOT (ucast r :: u16)"
    by (rule bit_word_eqI) (auto simp: bit_simps)
  ultimately have "ucast (NOT r) = (NOT (of_nat (oc_fold (total16 p))) :: u16)" by simp
  then show ?thesis
    by (simp add: ip_sum_def ip_sum_loop_total Let_def r_def t_def flip: s_def)
qed

section \<open>What the checksum guarantees\<close>

lemma ip_sum_eq_iff:
  assumes "length p = length q" and "length p < 131072"
  shows "ip_sum (p @ r) (int (length p)) = ip_sum (q @ r') (int (length q))
    \<longleftrightarrow> oc_fold (total16 p) = oc_fold (total16 q)"
proof -
  have "(of_nat (oc_fold a) :: u16) = of_nat (oc_fold b) \<longleftrightarrow> oc_fold a = oc_fold b" for a b
    using oc_fold_bound [of a] oc_fold_bound [of b]
    by (simp add: word_unat_eq_iff unat_of_nat take_bit_nat_eq_self)
  moreover have "NOT a = NOT b \<longleftrightarrow> a = b" for a b :: u16
    by (metis bit.double_compl)
  ultimately show ?thesis
    using ip_sum_eq [of p r] ip_sum_eq [of q r'] assms by simp
qed

lemma total16_word [simp]: "total16 (bytes16 w @ p) = unat w + total16 p"
  by (simp add: bytes16_def)

lemma total16_insert:
  "even (length xs) \<Longrightarrow> total16 (xs @ bytes16 w @ ys) = total16 xs + unat w + total16 ys"
  by (simp add: total16_append)

lemma u16_cong_65535:
  fixes v w :: u16
  assumes "(a + unat v) mod 65535 = (a + unat w) mod 65535"
  shows "v = w \<or> {v, w} = {0, 0xffff}"
proof (rule ccontr)
  assume n: "\<not> ?thesis"
  have aux: "x = y \<or> (x = 0 \<and> y = 65535)"
    if "(a + x) mod 65535 = (a + y) mod 65535" "x \<le> y" "y < 65536" for x y :: nat
  proof -
    from that have "65535 dvd (y - x)"
      by (metis add_diff_cancel_left mod_eq_dvd_iff_nat nat_add_left_cancel_le)
    then obtain k where "y - x = 65535 * k" ..
    with that show ?thesis by (cases k) auto
  qed
  have z: "unat x = 0 \<Longrightarrow> x = 0" "unat x = 65535 \<Longrightarrow> x = 0xffff" for x :: u16
    by (simp_all add: word_unat_eq_iff)
  from n have "v \<noteq> w" by simp
  then have "unat v \<noteq> unat w" by (simp add: word_unat_eq_iff)
  moreover have "unat v \<le> unat w \<or> unat w \<le> unat v" by linarith
  ultimately have "(unat v = 0 \<and> unat w = 65535) \<or> (unat w = 0 \<and> unat v = 65535)"
    using aux [OF assms] aux [OF assms [symmetric]] unat_u16 [of v] unat_u16 [of w] by metis
  with z n show False by blast
qed

lemma unat_not: "unat (NOT w) = 65535 - unat w" for w :: u16
proof -
  have "NOT w = 0xffff - w" by (simp add: not_eq_complement)
  moreover have "w \<le> 0xffff" using unat_u16 [of w] by (simp add: word_le_nat_alt)
  ultimately show ?thesis by (simp add: unat_sub)
qed

text \<open>
  A block that carries the complement of its own sum sums to zero, which is the receiver test of
  RFC 1071; it holds for every position of the checksum word.
\<close>

lemma ip_sum_self_check:
  assumes "even (length xs)" and "length xs + length ys + 2 < 131072"
    and "ip_sum (xs @ bytes16 0 @ ys) (int (length xs + 2 + length ys)) = Inr c"
  shows "ip_sum (xs @ bytes16 c @ ys) (int (length xs + 2 + length ys)) = Inr 0"
proof -
  define S where "S = total16 xs + total16 ys"
  have l: "int (length xs + 2 + length ys) = int (length (xs @ bytes16 w @ ys))" for w
    by simp
  have "c = NOT (of_nat (oc_fold S))"
    using assms(3) ip_sum_eq [of "xs @ bytes16 0 @ ys" "[]"] assms(1,2)
    unfolding l [of 0] by (simp add: total16_insert S_def)
  then have c: "unat c = 65535 - oc_fold S"
    using oc_fold_bound [of S] by (simp add: unat_not unat_of_nat take_bit_nat_eq_self)
  have "(S + (65535 - oc_fold S)) mod 65535 = (oc_fold S + (65535 - oc_fold S)) mod 65535"
    using oc_fold_mod [of S] by (metis mod_add_left_eq)
  also have "oc_fold S + (65535 - oc_fold S) = 65535" using oc_fold_bound [of S] by simp
  finally have "(S + (65535 - oc_fold S)) mod 65535 = 65535 mod 65535" .
  moreover have "S + (65535 - oc_fold S) \<noteq> 0" by (cases "S = 0") (auto simp: oc_fold_def)
  ultimately have "oc_fold (S + (65535 - oc_fold S)) = oc_fold 65535"
    unfolding oc_fold_eq_iff by simp
  then have "oc_fold (total16 (xs @ bytes16 c @ ys)) = 65535"
    using assms(1) by (simp add: total16_insert c S_def add_ac oc_fold_small)
  then show ?thesis
    using ip_sum_eq [of "xs @ bytes16 c @ ys" "[]"] assms(2) unfolding l [of c] by simp
qed

text \<open>
  Corruption of one aligned word changes the checksum, except between the two representations of
  zero.
\<close>

lemma ip_sum_detects_word:
  assumes "even (length xs)" and "length xs + length ys + 2 < 131072"
    and "v \<noteq> w" and "{v, w} \<noteq> {0, 0xffff}"
  shows "ip_sum (xs @ bytes16 v @ ys @ r) (int (length xs + 2 + length ys))
       \<noteq> ip_sum (xs @ bytes16 w @ ys @ r') (int (length xs + 2 + length ys))"
proof
  have l: "int (length xs + 2 + length ys) = int (length (xs @ bytes16 x @ ys))" for x by simp
  assume "ip_sum (xs @ bytes16 v @ ys @ r) (int (length xs + 2 + length ys))
      = ip_sum (xs @ bytes16 w @ ys @ r') (int (length xs + 2 + length ys))"
  then have "oc_fold (total16 (xs @ bytes16 v @ ys)) = oc_fold (total16 (xs @ bytes16 w @ ys))"
    using ip_sum_eq_iff [of "xs @ bytes16 v @ ys" "xs @ bytes16 w @ ys" r r'] assms(2)
    by (simp add: add_ac)
  then have "(total16 xs + total16 ys + unat v) mod 65535 = (total16 xs + total16 ys + unat w) mod 65535"
    using assms(1) by (simp add: oc_fold_eq_iff total16_insert add_ac)
  with assms(3,4) show False using u16_cong_65535 by blast
qed

section \<open>Byte order\<close>

text \<open>The block as a machine of the other byte order would read it.\<close>

fun swap_pairs :: "byte list \<Rightarrow> byte list" where
  "swap_pairs (a # b # p) = b # a # swap_pairs p"
| "swap_pairs p = p"

lemma length_swap_pairs [simp]: "length (swap_pairs p) = length p"
  by (induction p rule: swap_pairs.induct) simp_all

lemma swap_mod: "(256 * (a + 256 * b)) mod 65535 = (b + 256 * a) mod 65535" for a b :: nat
proof -
  have "256 * (a + 256 * b) = (b + 256 * a) + 65535 * b" by simp
  then show ?thesis by (metis mod_mult_self2)
qed

lemma total16_swap:
  "even (length p) \<Longrightarrow> total16 (swap_pairs p) mod 65535 = (256 * total16 p) mod 65535
     \<and> (total16 (swap_pairs p) = 0 \<longleftrightarrow> total16 p = 0)"
proof (induction p rule: swap_pairs.induct)
  case (1 a b p)
  then have IH: "total16 (swap_pairs p) mod 65535 = (256 * total16 p) mod 65535"
    "total16 (swap_pairs p) = 0 \<longleftrightarrow> total16 p = 0" by auto
  have "(unat b + 256 * unat a + total16 (swap_pairs p)) mod 65535
      = (256 * (unat a + 256 * unat b) + 256 * total16 p) mod 65535"
    by (rule mod_add_cong [OF swap_mod [symmetric] IH(1)])
  with IH(2) show ?case by (auto simp: word16_nat distrib_left)
qed simp_all

lemma unat_bswap16: "unat (bswap16 w) mod 65535 = (256 * unat w) mod 65535"
  "bswap16 w = 0 \<longleftrightarrow> w = 0"
proof -
  let ?a = "ucast w :: u8" and ?b = "ucast (drop_bit 8 w) :: u8"
  have w: "w = word16 ?a ?b" by simp
  have "unat (bswap16 w) = unat ?b + 256 * unat ?a"
    by (simp add: bswap16_def word16_nat)
  moreover have "unat w = unat ?a + 256 * unat ?b" by (subst w) (rule word16_nat)
  ultimately show "unat (bswap16 w) mod 65535 = (256 * unat w) mod 65535" by (simp only: swap_mod)
  have "bswap16 0 = 0" by (simp add: bswap16_def word16_def)
  then show "bswap16 w = 0 \<longleftrightarrow> w = 0" by (metis bswap16_bswap16)
qed

lemma bswap16_not: "bswap16 (NOT w) = NOT (bswap16 w)"
  by (rule bit_word_eqI) (auto simp: bswap16_def word16_def bit_simps dest: bit_imp_le_length)

lemma bswap16_oc_fold:
  assumes "s mod 65535 = (256 * t) mod 65535" and "s = 0 \<longleftrightarrow> t = 0"
  shows "bswap16 (of_nat (oc_fold t)) = of_nat (oc_fold s)"
proof -
  let ?x = "of_nat (oc_fold t) :: u16"
  have x: "unat ?x = oc_fold t" using oc_fold_bound [of t] by (simp add: unat_of_nat take_bit_nat_eq_self)
  have "unat (bswap16 ?x) mod 65535 = s mod 65535"
    unfolding unat_bswap16 x assms(1) by (metis mod_mult_right_eq oc_fold_mod)
  moreover have "unat (bswap16 ?x) = 0 \<longleftrightarrow> s = 0"
    using unat_bswap16(2) [of ?x] x assms(2) by (metis oc_fold_0_iff unat_0 unat_eq_zero)
  ultimately have "oc_fold (unat (bswap16 ?x)) = oc_fold s" by (simp add: oc_fold_eq_iff)
  then have "unat (bswap16 ?x) = oc_fold s" using unat_u16 by (simp add: oc_fold_small)
  then show ?thesis by (metis of_nat_unat ucast_id)
qed

section \<open>Properties\<close>

text \<open>
  C20: for every block of fewer than 131072 bytes, whatever follows it in memory, the routine returns
  the complement of the ones-complement sum of its 16-bit words (an odd byte counting as a low byte): two
  folds are enough at that length, and the value is the one the other byte order would store.
\<close>

theorem ip_sum_ones_complement:
  assumes "length p < 131072"
  shows "\<exists>c. ip_sum (p @ rest) (int (length p)) = Inr c
    \<and> unat c = 65535 - oc_fold (sum_list (map unat (words16 p)))
    \<and> (even (length p) \<longrightarrow> ip_sum (swap_pairs p @ rest) (int (length p)) = Inr (bswap16 c))"
proof -
  let ?c = "NOT (of_nat (oc_fold (total16 p))) :: u16"
  have "unat ?c = 65535 - oc_fold (total16 p)"
    using oc_fold_bound [of "total16 p"] by (simp add: unat_not unat_of_nat take_bit_nat_eq_self)
  moreover have "ip_sum (swap_pairs p @ rest) (int (length p)) = Inr (bswap16 ?c)" if "even (length p)"
    using ip_sum_eq [of "swap_pairs p" rest] assms
      bswap16_oc_fold [OF total16_swap [OF that, THEN conjunct1] total16_swap [OF that, THEN conjunct2]]
    by (simp add: bswap16_not)
  ultimately show ?thesis using ip_sum_eq [OF assms, of rest] by (auto simp: total16_def)
qed

text \<open>The witness is the well-known header whose checksum is \<open>0xb861\<close> on the wire.\<close>

theorem ip_sum_ones_complement_witness:
  "ip_sum [0x45, 0, 0, 0x73, 0, 0, 0x40, 0, 0x40, 0x11, 0, 0, 0xc0, 0xa8, 0, 0x01, 0xc0, 0xa8, 0, 0xc7] 20
     = Inr (word16 0xb8 0x61)"
proof -
  let ?p = "[0x45, 0, 0, 0x73, 0, 0, 0x40, 0, 0x40, 0x11, 0, 0, 0xc0, 0xa8, 0, 0x01, 0xc0, 0xa8, 0, 0xc7] :: byte list"
  have l: "length ?p < 131072" by simp
  obtain c where c: "ip_sum (?p @ []) (int (length ?p)) = Inr c"
    "unat c = 65535 - oc_fold (sum_list (map unat (words16 ?p)))"
    using ip_sum_ones_complement [OF l, of "[]"] by blast
  have "unat c = unat (word16 0xb8 0x61)"
    unfolding c(2) by (simp add: word16_nat oc_fold_def)
  then have "c = word16 0xb8 0x61" by (simp only: word_unat_eq_iff)
  with c(1) show ?thesis by simp
qed

text \<open>
  A block in which the returned checksum replaces a zero word at an even offset sums to
  zero: the test that any receiver applying RFC 1071 makes succeeds on what this code sends.
\<close>

theorem ip_sum_verifies:
  assumes "even (length xs)" and "length xs + length ys + 2 < 131072"
    and "ip_sum (xs @ bytes16 0 @ ys) (int (length xs + 2 + length ys)) = Inr c"
  shows "ip_sum (xs @ bytes16 c @ ys) (int (length xs + 2 + length ys)) = Inr 0"
  by (rule ip_sum_self_check [OF assms])

theorem ip_sum_verifies_witness:
  "ip_sum ([0x45, 0] @ bytes16 (word16 0xba 0xfe) @ [0, 1]) 6 = Inr 0"
proof -
  have "ip_sum [0x45, 0, 0, 0, 0, 1] 6 = Inr (word16 0xba 0xfe)" by code_simp
  then have "ip_sum ([0x45, 0] @ bytes16 0 @ [0, 1]) (int (length [0x45, 0 :: byte] + 2 + length [0, 1 :: byte]))
      = Inr (word16 0xba 0xfe)" by (simp add: bytes16_def)
  from ip_sum_verifies [OF _ _ this] show ?thesis by simp
qed

end
