(* ===== verification/Ip_Packet.thy ===== *)
theory Ip_Packet
  imports Net_Types Ip_Sum
begin

text \<open>
  The sending half of \<open>src/NetworkLayer.cc\<close> that the RIP layer depends on: \<open>build_ip_packet\<close> and
  \<open>transfer_rip_to_ip\<close>.  A \<open>struct packet\<close> is the list of its bytes that have been written, the 20
  header bytes first.
\<close>

definition MAX_COST :: u8 where "MAX_COST = 16"
definition MIN_HDR_LEN :: "4 word" where "MIN_HDR_LEN = 5"
definition IP_VERSION :: "4 word" where "IP_VERSION = 4"
definition RIP_PROTO :: u8 where "RIP_PROTO = 200"

section \<open>build_ip_packet\<close>

text \<open>The header before its checksum is filled in.\<close>

definition fresh_header :: "u32 \<Rightarrow> u32 \<Rightarrow> u8 \<Rightarrow> nat \<Rightarrow> iphdr" where
  "fresh_header src dest proto datasz =
     \<lparr>ihl = MIN_HDR_LEN, version = IP_VERSION, tos = 0,
      tot_len = htons (of_nat (unat MIN_HDR_LEN * 4 + datasz)),
      ident = 0, frag_off = 0, ttl = MAX_COST, protocol = proto, check = 0,
      saddr = htonl src, daddr = htonl dest\<rparr>"

definition build_ip_packet :: "u32 \<Rightarrow> u32 \<Rightarrow> u8 \<Rightarrow> byte list \<Rightarrow> nat \<Rightarrow> fault + byte list" where
  "build_ip_packet src dest proto data datasz =
     (let h = fresh_header src dest proto datasz
      in bindE (ip_sum (iphdr_bytes h) (int sizeof_iphdr)) (\<lambda>cksum.
         bindE (get_bytes data datasz) (\<lambda>d.
         bindE (put packet_data_cap [] 0 d) (\<lambda>pdata.
           Inr (iphdr_bytes (h\<lparr>check := cksum\<rparr>) @ pdata)))))"

definition transfer_rip_to_ip :: "int \<Rightarrow> byte list \<Rightarrow> nat \<Rightarrow> node \<Rightarrow> fault + node" where
  "transfer_rip_to_ip ifid data datasz n =
     bindE (interface_at (interfaces n) ifid) (\<lambda>l.
     bindE (build_ip_packet (vip_local l) (vip_remote l) RIP_PROTO data datasz) (\<lambda>pkt.
       Inr (n\<lparr>incomingqueue := incomingqueue n
             @ [\<lparr>ifc = nat ifid, msize = unat MIN_HDR_LEN * 4 + datasz, ippacket = pkt\<rparr>]\<rparr>)))"

section \<open>Properties\<close>

lemma ip_sum_header:
  "ip_sum (iphdr_bytes h @ rest) 20 = Inr (NOT (of_nat (oc_fold (total16 (iphdr_bytes h)))))"
  using ip_sum_eq [of "iphdr_bytes h" rest] by simp

lemma ip_sum_header': "ip_sum (iphdr_bytes h) 20 = Inr (NOT (of_nat (oc_fold (total16 (iphdr_bytes h)))))"
  using ip_sum_header [of h "[]"] by simp

text \<open>The checksum the code stores.\<close>

definition header_sum :: "iphdr \<Rightarrow> u16" where
  "header_sum h = NOT (of_nat (oc_fold (total16 (iphdr_bytes (h\<lparr>check := 0\<rparr>)))))"

lemma build_ip_packet_eq:
  "build_ip_packet src dest proto data datasz =
     (if datasz \<le> length data then
        if datasz \<le> packet_data_cap then
          Inr (iphdr_bytes ((fresh_header src dest proto datasz)
                 \<lparr>check := header_sum (fresh_header src dest proto datasz)\<rparr>) @ take datasz data)
        else Inl Out_Of_Bounds
      else Inl Indeterminate)"
proof -
  have "(fresh_header src dest proto datasz)\<lparr>check := 0\<rparr> = fresh_header src dest proto datasz"
    by (simp add: fresh_header_def)
  then have "ip_sum (iphdr_bytes (fresh_header src dest proto datasz)) 20
      = Inr (header_sum (fresh_header src dest proto datasz))"
    by (simp add: ip_sum_header' header_sum_def)
  then show ?thesis
    by (simp add: build_ip_packet_def Let_def sizeof_iphdr_def get_bytes_def put_def)
qed

lemma transfer_rip_to_ip_frame:
  assumes "transfer_rip_to_ip ifid data datasz n = Inr n'"
  shows "interfaces n' = interfaces n" "rtable n' = rtable n" "outgoingqueue n' = outgoingqueue n"
    "timerQueue n' = timerQueue n" "console n' = console n"
  using assms by (auto simp: transfer_rip_to_ip_def)

lemma unat_MIN_HDR_LEN [simp]: "unat MIN_HDR_LEN * 4 = 20" "4 * unat MIN_HDR_LEN = 20"
  by (simp_all add: MIN_HDR_LEN_def)

end
