(* ===== verification/Rip_Layer.thy ===== *)
theory Rip_Layer
  imports Ip_Packet
begin

text \<open>
  \<open>src/RipLayer.cc\<close>.  The object's state is the routing table; the operations take the whole node,
  because they send through \<open>_parent->get_network_layer()\<close>.  Every value of \<open>gettimeofday\<close> is an
  argument: one \<open>timeval\<close>, or one per loop iteration where a loop reads the clock.
\<close>

definition RIP_MASK :: u32 where "RIP_MASK = 0xFFFFFFFF"
definition RIP_MAX_COST :: u32 where "RIP_MAX_COST = 0x10"

section \<open>The message format\<close>

text \<open>A \<open>struct entry\<close> in memory, and the 12-byte \<open>memcpy\<close> that reads one.\<close>

definition entry_bytes :: "entry \<Rightarrow> byte list" where
  "entry_bytes e = bytes32 (cost e) @ bytes32 (address e) @ bytes32 (emask e)"

definition read_entry :: "byte list \<Rightarrow> fault + entry" where
  "read_entry data =
     bindE (rd32 data 0) (\<lambda>c. bindE (rd32 data 4) (\<lambda>a. bindE (rd32 data 8) (\<lambda>m.
       Inr \<lparr>cost = c, address = a, emask = m\<rparr>)))"

section \<open>Sending\<close>

text \<open>The loop that fills \<open>msg.entries\<close>, an array of \<open>MAX_ENTRIES\<close>, with poisoned reverse.\<close>

fun fill_entries :: "u32 \<Rightarrow> nat \<Rightarrow> rtable \<Rightarrow> fault + entry list" where
  "fill_entries neighbor nentry [] = Inr []"
| "fill_entries neighbor nentry ((k, ets) # itr) =
     (if nentry < MAX_ENTRIES then
        let e = ent ets;
            c = (if address e \<noteq> neighbor \<and> neighbor = next_hop ets
                 then htonl RIP_MAX_COST else htonl (cost e))
        in bindE (fill_entries neighbor (Suc nentry) itr) (\<lambda>es.
             Inr (\<lparr>cost = c, address = htonl (address e), emask = htonl (emask e)\<rparr> # es))
      else Inl Out_Of_Bounds)"

definition prepare_msg_ifc :: "u16 \<Rightarrow> int \<Rightarrow> node \<Rightarrow> fault + node" where
  "prepare_msg_ifc msg_type ifid n =
     (let command = htons msg_type;
          num_entries = htons (of_nat (length (rtable n)))
      in bindE (interface_at (interfaces n) ifid) (\<lambda>l.
         bindE (fill_entries (vip_local l) 0 (rtable n)) (\<lambda>es.
           let datasz = sizeof_entry * length es + 4;
               data = bytes16 command @ bytes16 num_entries @ concat (map entry_bytes es)
           in transfer_rip_to_ip ifid data datasz n)))"

text \<open>The loop over the interfaces that are up.\<close>

fun prepare_loop :: "u16 \<Rightarrow> nat list \<Rightarrow> node \<Rightarrow> fault + node" where
  "prepare_loop msg_type [] n = Inr n"
| "prepare_loop msg_type (ifid # ids) n =
     bindE (interface_at (interfaces n) (int ifid)) (\<lambda>l.
     bindE (if isup l then prepare_msg_ifc msg_type (int ifid) n else Inr n) (\<lambda>n'.
       prepare_loop msg_type ids n'))"

definition prepare_msg :: "u16 \<Rightarrow> node \<Rightarrow> fault + node" where
  "prepare_msg msg_type n = prepare_loop msg_type [0..<length (interfaces n)] n"

section \<open>Receiving\<close>

text \<open>One iteration of the loop of \<open>update_route_table\<close>.\<close>

definition update_entry :: "timeval \<Rightarrow> u32 \<Rightarrow> link list \<Rightarrow> entry \<Rightarrow> rtable \<Rightarrow> rtable" where
  "update_entry now next ifs cur_entry rt =
     (let curaddress = ntohl (address cur_entry);
          c = ntohl (cost cur_entry)
      in if is_my_interface ifs curaddress \<or> c = RIP_MAX_COST then rt
         else case map_find rt curaddress of
           None \<Rightarrow>
             map_assign curaddress
               \<lparr>ent = \<lparr>cost = c + 1, address = ntohl (address cur_entry), emask = ntohl (emask cur_entry)\<rparr>,
                next_hop = next, tstamp = now\<rparr> rt
         | Some ets \<Rightarrow>
             (if cost (ent ets) > c + 1 then
                map_assign curaddress
                  (ets\<lparr>tstamp := now,
                       ent := (ent ets)\<lparr>cost := c + 1, address := ntohl (address cur_entry),
                                        emask := ntohl (emask cur_entry)\<rparr>,
                       next_hop := next\<rparr>) rt
              else rt))"

fun update_loop ::
  "(nat \<Rightarrow> timeval) \<Rightarrow> u32 \<Rightarrow> link list \<Rightarrow> nat \<Rightarrow> nat \<Rightarrow> byte list \<Rightarrow> rtable \<Rightarrow> fault + rtable" where
  "update_loop clock next ifs i 0 data rt = Inr rt"
| "update_loop clock next ifs i (Suc left) data rt =
     bindE (read_entry data) (\<lambda>cur_entry.
       update_loop clock next ifs (Suc i) left (drop sizeof_entry data)
         (update_entry (clock i) next ifs cur_entry rt))"

definition update_route_table ::
  "(nat \<Rightarrow> timeval) \<Rightarrow> byte list \<Rightarrow> u32 \<Rightarrow> link list \<Rightarrow> rtable \<Rightarrow> fault + rtable" where
  "update_route_table clock data next ifs rt =
     bindE (rd16 data 0) (\<lambda>nentries.
       update_loop clock next ifs 0 (unat (ntohs nentries)) (drop 2 data) rt)"

definition transfer_ip_to_rip ::
  "(nat \<Rightarrow> timeval) \<Rightarrow> byte list \<Rightarrow> u32 \<Rightarrow> node \<Rightarrow> fault + node" where
  "transfer_ip_to_rip clock data next n =
     bindE (rd16 data 0) (\<lambda>w.
       let cmdType = ntohs w; data = drop 2 data
       in if cmdType = 1 then prepare_msg 2 n
          else if cmdType = 2 then
            bindE (update_route_table clock data next (interfaces n) (rtable n)) (\<lambda>rt.
              Inr (n\<lparr>rtable := rt\<rparr>))
          else Inr (print Unrecognised_Type n))"

section \<open>Ageing, lookup, interface changes\<close>

definition microseconds :: "timeval \<Rightarrow> u64" where
  "microseconds tv = tv_sec tv * 1000000 + tv_usec tv"

text \<open>\<open>(curms - ms) > REFRESH_TIMER_VAL*1000000\<close> in \<open>unsigned long\<close>.\<close>

definition expired :: "timeval \<Rightarrow> timeval \<Rightarrow> bool" where
  "expired now tv \<longleftrightarrow> microseconds now - microseconds tv > REFRESH_TIMER_VAL * 1000000"

fun refresh_loop :: "timeval \<Rightarrow> link list \<Rightarrow> rtable \<Rightarrow> rtable \<Rightarrow> rtable" where
  "refresh_loop now ifs [] rt = rt"
| "refresh_loop now ifs ((k, ets) # itr) rt =
     (if is_my_interface ifs k then refresh_loop now ifs itr rt
      else if expired now (tstamp ets) then refresh_loop now ifs itr (map_erase k rt)
      else refresh_loop now ifs itr rt)"

definition refresh_route_table :: "timeval \<Rightarrow> node \<Rightarrow> node" where
  "refresh_route_table now n = n\<lparr>rtable := refresh_loop now (interfaces n) (rtable n) (rtable n)\<rparr>"

text \<open>\<open>get_next_address\<close>: the out parameter \<open>next_addr\<close> keeps its value when nothing matches.\<close>

fun next_address_loop :: "u32 \<Rightarrow> u32 \<Rightarrow> rtable \<Rightarrow> u32" where
  "next_address_loop dest next_addr [] = next_addr"
| "next_address_loop dest next_addr ((k, ets) # itr) =
     next_address_loop dest (if address (ent ets) = dest then next_hop ets else next_addr) itr"

definition get_next_address :: "rtable \<Rightarrow> u32 \<Rightarrow> u32 \<Rightarrow> u32" where
  "get_next_address rt dest next_addr = next_address_loop dest next_addr rt"

fun remove_loop :: "u32 \<Rightarrow> rtable \<Rightarrow> rtable \<Rightarrow> rtable" where
  "remove_loop gone [] rt = rt"
| "remove_loop gone ((k, ets) # itr) rt =
     remove_loop gone itr (if next_hop ets = gone \<or> k = gone then map_erase k rt else rt)"

definition remove_ifc_entry :: "u32 \<Rightarrow> node \<Rightarrow> fault + node" where
  "remove_ifc_entry gone n =
     prepare_msg 2 (n\<lparr>rtable := remove_loop gone (rtable n) (rtable n)\<rparr>)"

text \<open>The entry for one of the node's own interfaces.\<close>

definition own_entry :: "timeval \<Rightarrow> u32 \<Rightarrow> entry_wts" where
  "own_entry now addr =
     \<lparr>ent = \<lparr>cost = 0, address = addr, emask = RIP_MASK\<rparr>, next_hop = addr, tstamp = now\<rparr>"

definition add_ifc_entry :: "timeval \<Rightarrow> u32 \<Rightarrow> node \<Rightarrow> node" where
  "add_ifc_entry now addr n = n\<lparr>rtable := map_assign addr (own_entry now addr) (rtable n)\<rparr>"

section \<open>Construction and the timer thread\<close>

fun init_loop :: "(nat \<Rightarrow> timeval) \<Rightarrow> nat \<Rightarrow> link list \<Rightarrow> rtable \<Rightarrow> rtable" where
  "init_loop clock i [] rt = rt"
| "init_loop clock i (ll # ls) rt =
     init_loop clock (Suc i) ls (map_assign (vip_local ll) (own_entry (clock i) (vip_local ll)) rt)"

text \<open>The constructor \<open>RipLayer::RipLayer\<close>: own entries, then a request on every interface.\<close>

definition rip_init :: "(nat \<Rightarrow> timeval) \<Rightarrow> node \<Rightarrow> fault + node" where
  "rip_init clock n = prepare_msg 1 (n\<lparr>rtable := init_loop clock 0 (interfaces n) []\<rparr>)"

text \<open>One round of \<open>update_refresh_rt\<close>; \<open>None\<close> while \<open>_timerQueue.pop()\<close> blocks.\<close>

definition rip_timer_step :: "timeval \<Rightarrow> node \<Rightarrow> (fault + node) option" where
  "rip_timer_step now n =
     (case timerQueue n of
        [] \<Rightarrow> None
      | type # q \<Rightarrow>
          let n' = n\<lparr>timerQueue := q\<rparr>
          in Some (if type = 1 then prepare_msg 2 n'
                   else if type = 2 then Inr (refresh_route_table now n')
                   else Inr n'))"

end
