(* ===== verification/Sample_Net.thy ===== *)
theory Sample_Net
  imports Net_Types
begin

text \<open>
  Concrete nodes on which the properties are exercised: the first two nodes of
  \<open>src/nets/routeAggregation/tree\<close> (\<open>A.lnx\<close> and \<open>B.lnx\<close>) as the node holds them after start-up.
\<close>

definition link_of :: "u16 \<Rightarrow> u16 \<Rightarrow> u32 \<Rightarrow> u32 \<Rightarrow> link" where
  "link_of lport rport l r =
     \<lparr>s_local = 3, localip = ''localhost'', localport = lport, remoteport = rport, isup = True,
      sbuffer = None, sbufferReady = False, sbuffersz = 0, vip_local = l, vip_remote = r\<rparr>"

definition A_ifs :: "link list" where
  "A_ifs = [link_of 17000 17001 0x0A000001 0x0A00000E]"

definition B_ifs :: "link list" where
  "B_ifs = [link_of 17001 17000 0x0A00000E 0x0A000001, link_of 17001 17002 0x0A000009 0x0A00000A]"

definition at_sec :: "u64 \<Rightarrow> timeval" where
  "at_sec s = \<lparr>tv_sec = s, tv_usec = 0\<rparr>"

definition route :: "u32 \<Rightarrow> u32 \<Rightarrow> u32 \<Rightarrow> u64 \<Rightarrow> entry_wts" where
  "route k c hop s = \<lparr>ent = \<lparr>cost = c, address = k, emask = 0xFFFFFFFF\<rparr>, next_hop = hop, tstamp = at_sec s\<rparr>"

definition A_rt :: rtable where
  "A_rt = [(0x0A000001, route 0x0A000001 0 0x0A000001 100)]"

definition B_rt :: rtable where
  "B_rt = [(0x0A000001, route 0x0A000001 1 0x0A00000E 101), (0x0A000009, route 0x0A000009 0 0x0A000009 100),
           (0x0A00000A, route 0x0A00000A 1 0x0A000009 101), (0x0A00000E, route 0x0A00000E 0 0x0A00000E 100)]"

definition node_of :: "link list \<Rightarrow> rtable \<Rightarrow> node" where
  "node_of ifs rt = \<lparr>interfaces = ifs, rtable = rt, incomingqueue = [], outgoingqueue = [],
     timerQueue = [], console = []\<rparr>"

definition A_node :: node where "A_node = node_of A_ifs A_rt"
definition B_node :: node where "B_node = node_of B_ifs B_rt"

lemmas sample_defs = link_of_def A_ifs_def B_ifs_def at_sec_def route_def A_rt_def B_rt_def node_of_def
  A_node_def B_node_def

lemma my_addrs_A [simp]: "my_addrs A_ifs = {0x0A000001}"
  by (simp add: my_addrs_def sample_defs)

lemma my_addrs_B [simp]: "my_addrs B_ifs = {0x0A00000E, 0x0A000009}"
  by (auto simp: my_addrs_def sample_defs)

lemma map_invar_B: "map_invar B_rt"
  by (simp add: map_invar_def B_rt_def)

end
