(* ===== verification/Rip_Table.thy ===== *)
theory Rip_Table
  imports Rip_Layer Sample_Net
begin

text \<open>
  What the table operations of \<open>src/RipLayer.cc\<close> do: the invariant of \<open>_rtable\<close> and its preservation,
  the refinement of \<open>update_entry\<close> to one relaxation step on a map, the closed forms of the erase
  loops, and lookup.
\<close>

section \<open>The table invariant\<close>

text \<open>
  Every element sits under the address it carries, leaves through an own interface, and an own
  address has cost 0 and itself as next hop.
\<close>

definition good_entry :: "link list \<Rightarrow> u32 \<Rightarrow> entry_wts \<Rightarrow> bool" where
  "good_entry ifs k w \<longleftrightarrow> address (ent w) = k \<and> next_hop w \<in> my_addrs ifs
     \<and> (k \<in> my_addrs ifs \<longrightarrow> cost (ent w) = 0 \<and> next_hop w = k)"

definition rt_inv :: "link list \<Rightarrow> rtable \<Rightarrow> bool" where
  "rt_inv ifs rt \<longleftrightarrow> map_invar rt \<and> (\<forall>x \<in> set rt. good_entry ifs (fst x) (snd x))"

lemma rt_inv_empty [rt_intros]: "rt_inv ifs []"
  by (simp add: rt_inv_def)

lemma rt_inv_assign [rt_intros]:
  "rt_inv ifs rt \<Longrightarrow> good_entry ifs k w \<Longrightarrow> rt_inv ifs (map_assign k w rt)"
  using set_map_assign [of k w rt] by (fastforce simp: rt_inv_def map_invar_assign)

lemma rt_inv_filter [rt_intros]: "rt_inv ifs rt \<Longrightarrow> rt_inv ifs (filter P rt)"
  by (auto simp: rt_inv_def map_invar_filter)

lemma rt_inv_find: "rt_inv ifs rt \<Longrightarrow> map_find rt k = Some w \<Longrightarrow> good_entry ifs k w"
  by (auto simp: rt_inv_def dest!: map_find_SomeD)

lemma good_own_entry [rt_intros]: "addr \<in> my_addrs ifs \<Longrightarrow> good_entry ifs addr (own_entry now addr)"
  by (simp add: good_entry_def own_entry_def)

section \<open>Updates: relaxation\<close>

definition host_entry :: "entry \<Rightarrow> entry" where
  "host_entry e = \<lparr>cost = ntohl (cost e), address = ntohl (address e), emask = ntohl (emask e)\<rparr>"

definition net_entry :: "entry \<Rightarrow> entry" where
  "net_entry e = \<lparr>cost = htonl (cost e), address = htonl (address e), emask = htonl (emask e)\<rparr>"

lemma host_net_entry [simp]: "host_entry (net_entry e) = e"
  by (simp add: host_entry_def net_entry_def)

text \<open>
  The specification: a distance-vector step on a partial map.  An advertisement of an own address or
  of cost 16 is ignored; otherwise it is taken when it is new or strictly better by one hop.
\<close>

definition better :: "entry \<Rightarrow> entry_wts option \<Rightarrow> bool" where
  "better h old \<longleftrightarrow> (case old of None \<Rightarrow> True | Some w \<Rightarrow> cost h + 1 < cost (ent w))"

definition relax ::
  "timeval \<Rightarrow> u32 \<Rightarrow> u32 set \<Rightarrow> entry \<Rightarrow> (u32 \<rightharpoonup> entry_wts) \<Rightarrow> (u32 \<rightharpoonup> entry_wts)" where
  "relax now next own h T =
     (if address h \<notin> own \<and> cost h \<noteq> RIP_MAX_COST \<and> better h (T (address h))
      then T(address h \<mapsto> \<lparr>ent = h\<lparr>cost := cost h + 1\<rparr>, next_hop = next, tstamp = now\<rparr>)
      else T)"

lemma overwrite_entry:
  "w\<lparr>tstamp := t, ent := (ent w)\<lparr>cost := c, address := a, emask := m\<rparr>, next_hop := nh\<rparr>
     = \<lparr>ent = \<lparr>cost = c, address = a, emask = m\<rparr>, next_hop = nh, tstamp = t\<rparr>"
  for w :: entry_wts
  by (cases w, cases "ent w") simp

lemma update_entry_eq:
  "update_entry now next ifs e rt =
     (let h = host_entry e in
      if address h \<notin> my_addrs ifs \<and> cost h \<noteq> RIP_MAX_COST \<and> better h (map_find rt (address h))
      then map_assign (address h) \<lparr>ent = h\<lparr>cost := cost h + 1\<rparr>, next_hop = next, tstamp = now\<rparr> rt
      else rt)"
  by (auto simp: update_entry_def host_entry_def better_def Let_def overwrite_entry split: option.splits)

lemma update_entry_refines:
  "map_find (update_entry now next ifs e rt)
     = relax now next (my_addrs ifs) (host_entry e) (map_find rt)"
  by (auto simp: update_entry_eq relax_def Let_def map_find_assign fun_eq_iff)

lemma update_entry_inv [rt_intros]:
  "rt_inv ifs rt \<Longrightarrow> next \<in> my_addrs ifs \<Longrightarrow> rt_inv ifs (update_entry now next ifs e rt)"
  by (auto simp: update_entry_eq Let_def good_entry_def intro!: rt_inv_assign)

text \<open>The entries of one message, in order, each with its own clock reading.\<close>

fun apply_entries :: "(nat \<Rightarrow> timeval) \<Rightarrow> u32 \<Rightarrow> link list \<Rightarrow> nat \<Rightarrow> entry list \<Rightarrow> rtable \<Rightarrow> rtable" where
  "apply_entries clock next ifs i [] rt = rt"
| "apply_entries clock next ifs i (e # es) rt =
     apply_entries clock next ifs (Suc i) es (update_entry (clock i) next ifs e rt)"

lemma apply_entries_inv [rt_intros]:
  "rt_inv ifs rt \<Longrightarrow> next \<in> my_addrs ifs \<Longrightarrow> rt_inv ifs (apply_entries clock next ifs i es rt)"
  by (induction es arbitrary: i rt) (simp_all add: update_entry_inv)

text \<open>A route is kept or replaced by a strictly cheaper one: updates never worsen or drop a route.\<close>

lemma update_entry_mono:
  assumes "map_find rt k = Some w"
  shows "\<exists>w'. map_find (update_entry now next ifs e rt) k = Some w'
    \<and> (w' = w \<or> cost (ent w') < cost (ent w))"
  using assms by (auto simp: update_entry_refines relax_def better_def)

lemma apply_entries_mono:
  "map_find rt k = Some w \<Longrightarrow>
     \<exists>w'. map_find (apply_entries clock next ifs i es rt) k = Some w'
       \<and> (w' = w \<or> cost (ent w') < cost (ent w))"
proof (induction es arbitrary: i rt w)
  case (Cons e es)
  obtain w1 where w1: "map_find (update_entry (clock i) next ifs e rt) k = Some w1"
    "w1 = w \<or> cost (ent w1) < cost (ent w)"
    using update_entry_mono [OF Cons.prems] by blast
  from Cons.IH [OF w1(1), of "Suc i"] w1(2) show ?case by auto
qed simp

text \<open>An entry that no advertisement undercuts is left exactly as it was, its timestamp included.\<close>

lemma apply_entries_unchanged:
  assumes "map_find rt k = Some w"
    and "\<forall>e \<in> set es. address (host_entry e) = k \<longrightarrow> cost (ent w) \<le> cost (host_entry e) + 1"
  shows "map_find (apply_entries clock next ifs i es rt) k = Some w"
  using assms
proof (induction es arbitrary: i rt)
  case (Cons e es)
  then have "map_find (update_entry (clock i) next ifs e rt) k = Some w"
    by (auto simp: update_entry_refines relax_def better_def not_less)
  with Cons show ?case by simp
qed simp

text \<open>Own addresses are never learned.\<close>

lemma update_entry_own:
  "k \<in> my_addrs ifs \<Longrightarrow> map_find (update_entry now next ifs e rt) k = map_find rt k"
  by (auto simp: update_entry_refines relax_def)

lemma apply_entries_own:
  "k \<in> my_addrs ifs \<Longrightarrow> map_find (apply_entries clock next ifs i es rt) k = map_find rt k"
  by (induction es arbitrary: i rt) (simp_all add: update_entry_own)

text \<open>Where no entry of the message is about \<open>k\<close>, the lookup at \<open>k\<close> does not change.\<close>

lemma apply_entries_other:
  "k \<notin> (\<lambda>e. address (host_entry e)) ` set es \<Longrightarrow>
     map_find (apply_entries clock next ifs i es rt) k = map_find rt k"
  by (induction es arbitrary: i rt) (auto simp: update_entry_refines relax_def)

section \<open>The erase loops\<close>

lemma refresh_loop_fold:
  "refresh_loop now ifs itr rt =
     fold (\<lambda>(k, v) m. if (\<lambda>(k, w). k \<notin> my_addrs ifs \<and> expired now (tstamp w)) (k, v)
                       then map_erase k m else m) itr rt"
  by (induction now ifs itr rt rule: refresh_loop.induct) simp_all

lemma refresh_loop_eq:
  "map_invar rt \<Longrightarrow> refresh_loop now ifs rt rt =
     filter (\<lambda>(k, w). k \<in> my_addrs ifs \<or> \<not> expired now (tstamp w)) rt"
  using erase_loop_filter [of "[]" rt]
  by (simp add: refresh_loop_fold case_prod_unfold)

lemma remove_loop_fold:
  "remove_loop gone itr rt =
     fold (\<lambda>(k, v) m. if (\<lambda>(k, w). next_hop w = gone \<or> k = gone) (k, v) then map_erase k m else m) itr rt"
  by (induction gone itr rt rule: remove_loop.induct) simp_all

lemma remove_loop_eq:
  "map_invar rt \<Longrightarrow> remove_loop gone rt rt = filter (\<lambda>(k, w). next_hop w \<noteq> gone \<and> k \<noteq> gone) rt"
  using erase_loop_filter [of "[]" rt]
  by (simp add: remove_loop_fold case_prod_unfold)

lemma refresh_inv [rt_intros]:
  "rt_inv (interfaces n) (rtable n) \<Longrightarrow> rt_inv (interfaces n) (rtable (refresh_route_table now n))"
  by (simp add: refresh_route_table_def refresh_loop_eq rt_inv_def map_invar_filter)

lemma remove_inv [rt_intros]: "rt_inv ifs rt \<Longrightarrow> rt_inv ifs (remove_loop gone rt rt)"
  by (simp add: remove_loop_eq rt_inv_def map_invar_filter)

section \<open>Ageing\<close>

text \<open>Microseconds as a number, for clock values whose product does not overflow 64 bits.\<close>

definition usecs :: "timeval \<Rightarrow> nat" where
  "usecs tv = unat (tv_sec tv) * 1000000 + unat (tv_usec tv)"

definition wf_time :: "timeval \<Rightarrow> bool" where
  "wf_time tv \<longleftrightarrow> usecs tv < 2 ^ 63"

lemma unat_microseconds: "wf_time tv \<Longrightarrow> unat (microseconds tv) = usecs tv"
  by (simp add: wf_time_def usecs_def microseconds_def unat_word_ariths)

text \<open>
  The unsigned comparison: an entry is too old after 12 seconds, and also whenever it is younger
  than the clock says \<open>now\<close> is.
\<close>

lemma expired_iff:
  assumes "wf_time now" and "wf_time tv"
  shows "expired now tv \<longleftrightarrow> usecs now < usecs tv \<or> usecs tv + 12000000 < usecs now"
proof -
  note u = unat_microseconds [OF assms(1)] unat_microseconds [OF assms(2)]
  have n: "usecs now < 2 ^ 63" "usecs tv < 2 ^ 63" using assms by (auto simp: wf_time_def)
  have e: "expired now tv \<longleftrightarrow> 12000000 < unat (microseconds now - microseconds tv)"
    by (simp add: expired_def REFRESH_TIMER_VAL_def word_less_nat_alt)
  show ?thesis
  proof (cases "usecs tv \<le> usecs now")
    case True
    then have "unat (microseconds now - microseconds tv) = usecs now - usecs tv"
      using u by (simp add: unat_sub word_le_nat_alt)
    with e True show ?thesis by auto
  next
    case False
    then have "unat (microseconds now - microseconds tv) = 2 ^ 64 + usecs now - usecs tv"
      using u by (simp add: unat_sub_if' word_le_nat_alt)
    with e False n show ?thesis by auto
  qed
qed

section \<open>Lookup\<close>

lemma next_address_loop_eq:
  assumes "distinct (map fst rt)" and "\<forall>x \<in> set rt. address (ent (snd x)) = fst x"
  shows "next_address_loop dest d rt = (case map_find rt dest of None \<Rightarrow> d | Some w \<Rightarrow> next_hop w)"
  using assms
proof (induction rt arbitrary: d)
  case (Cons x rt)
  obtain k w where x: "x = (k, w)" by (cases x)
  have "k = dest \<Longrightarrow> map_find rt dest = None"
    using Cons.prems by (auto simp: x map_find_None)
  with Cons show ?case by (auto simp: x)
qed simp

lemma get_next_address_eq:
  "rt_inv ifs rt \<Longrightarrow>
     get_next_address rt dest d = (case map_find rt dest of None \<Rightarrow> d | Some w \<Rightarrow> next_hop w)"
  unfolding get_next_address_def
  by (rule next_address_loop_eq) (auto simp: rt_inv_def map_invar_def good_entry_def)

section \<open>Sample tables\<close>

lemma rt_inv_A: "rt_inv A_ifs A_rt"
  by (simp add: rt_inv_def good_entry_def map_invar_def A_rt_def route_def)

lemma rt_inv_B: "rt_inv B_ifs B_rt"
  by (simp add: rt_inv_def good_entry_def map_invar_B) (simp add: B_rt_def route_def)

section \<open>Properties\<close>

text \<open>
  One iteration of \<open>update_route_table\<close> is one distance-vector relaxation of the table seen
  as a partial map: own addresses and advertisements of cost 16 are ignored, an unknown or strictly
  improved destination is stored with cost plus one, the arrival interface as next hop and the
  current time, and no other destination changes.
\<close>

theorem update_entry_is_relax:
  "map_find (update_entry now next ifs e rt) k =
     (let h = host_entry e in
      if k = address h \<and> k \<notin> my_addrs ifs \<and> cost h \<noteq> RIP_MAX_COST
           \<and> (case map_find rt k of None \<Rightarrow> True | Some w \<Rightarrow> cost h + 1 < cost (ent w))
      then Some \<lparr>ent = h\<lparr>cost := cost h + 1\<rparr>, next_hop = next, tstamp = now\<rparr>
      else map_find rt k)"
  by (auto simp: update_entry_refines relax_def better_def Let_def split: option.splits)

text \<open>
  C13: with clock values whose microseconds fit in 63 bits, a refresh round keeps exactly the own
  addresses and the entries whose timestamp is neither in the future nor more than 12 seconds old.
\<close>

theorem refresh_route_table_exact:
  assumes "map_invar (rtable n)" and "wf_time now"
    and "\<forall>x \<in> set (rtable n). wf_time (tstamp (snd x))"
  shows "map_find (rtable (refresh_route_table now n)) k =
    (case map_find (rtable n) k of
       None \<Rightarrow> None
     | Some w \<Rightarrow>
         if k \<in> my_addrs (interfaces n)
            \<or> (usecs (tstamp w) \<le> usecs now \<and> usecs now \<le> usecs (tstamp w) + 12000000)
         then Some w else None)"
proof (cases "map_find (rtable n) k")
  case (Some w)
  with assms(3) have "wf_time (tstamp w)" by (auto dest!: map_find_SomeD)
  from expired_iff [OF assms(2) this] Some assms(1) show ?thesis
    by (auto simp: refresh_route_table_def refresh_loop_eq map_find_filter)
qed (use assms(1) in \<open>simp add: refresh_route_table_def refresh_loop_eq map_find_filter\<close>)

theorem refresh_route_table_exact_witness:
  "map_find (rtable (refresh_route_table (at_sec 113) B_node)) 0x0A000001
     = Some (route 0x0A000001 1 0x0A00000E 101)
   \<and> map_find (rtable (refresh_route_table (at_sec 114) B_node)) 0x0A000001 = None"
proof -
  have w: "wf_time (at_sec 113)" "wf_time (at_sec 114)" "map_invar (rtable B_node)"
      "\<forall>x \<in> set (rtable B_node). wf_time (tstamp (snd x))"
    using map_invar_B by (simp_all add: wf_time_def usecs_def sample_defs)
  have f: "map_find (rtable B_node) 0x0A000001 = Some (route 0x0A000001 1 0x0A00000E 101)"
    by (simp add: B_node_def node_of_def B_rt_def)
  show ?thesis
    using refresh_route_table_exact [OF w(3) w(1) w(4), where k = "0x0A000001"]
      refresh_route_table_exact [OF w(3) w(2) w(4), where k = "0x0A000001"] f
    by (simp add: usecs_def at_sec_def route_def) (simp add: sample_defs my_addrs_def)
qed

text \<open>
  Under the table invariant \<open>get_next_address\<close>, which walks the whole table and keeps the last
  match, is the map lookup: the next hop of the entry for the destination, or the caller's default.
\<close>

theorem get_next_address_is_lookup:
  assumes "rt_inv ifs rt"
  shows "get_next_address rt dest d = (case map_find rt dest of None \<Rightarrow> d | Some w \<Rightarrow> next_hop w)"
  by (rule get_next_address_eq [OF assms])

theorem get_next_address_is_lookup_witness:
  "get_next_address B_rt 0x0A00000A DEFAULT_ADDR = 0x0A000009
   \<and> get_next_address B_rt 0x0A000063 DEFAULT_ADDR = DEFAULT_ADDR"
  using get_next_address_is_lookup [OF rt_inv_B, where dest = "0x0A00000A" and d = DEFAULT_ADDR]
    get_next_address_is_lookup [OF rt_inv_B, where dest = "0x0A000063" and d = DEFAULT_ADDR]
  by (simp add: B_rt_def route_def)

text \<open>
  \<open>cost + 1\<close> is computed in 32 bits without a range check, so an advertisement of cost
  \<open>0xFFFFFFFF\<close> installs a route of cost 0 over every route of positive cost.
\<close>

theorem update_entry_cost_wraps:
  assumes "cost (host_entry e) = 0xFFFFFFFF" and "address (host_entry e) = k" and "k \<notin> my_addrs ifs"
    and "\<forall>w. map_find rt k = Some w \<longrightarrow> cost (ent w) \<noteq> 0"
  shows "\<exists>w. map_find (update_entry now next ifs e rt) k = Some w \<and> cost (ent w) = 0 \<and> next_hop w = next"
proof -
  have z: "cost (host_entry e) + 1 = 0" unfolding assms(1) by simp
  then have "better (host_entry e) (map_find rt k)"
    using assms(4) by (simp add: better_def word_neq_0_conv split: option.splits)
  with assms(1-3) z show ?thesis by (auto simp: update_entry_refines relax_def RIP_MAX_COST_def)
qed

theorem update_entry_cost_wraps_witness:
  "\<exists>w. map_find (update_entry (at_sec 102) 0x0A000009 B_ifs
      (net_entry \<lparr>cost = 0xFFFFFFFF, address = 0x0A000001, emask = 0\<rparr>) B_rt) 0x0A000001 = Some w
    \<and> cost (ent w) = 0 \<and> next_hop w = 0x0A000009"
  by (rule update_entry_cost_wraps) (simp_all add: B_rt_def route_def)

end
