(* ===== verification/Rip_Wire.thy ===== *)
theory Rip_Wire
  imports Rip_Table
begin

text \<open>
  RIP messages on the wire: fixed-width codecs and their sequences as a locale, the closed form of
  the sending loops of \<open>src/RipLayer.cc\<close> (\<open>prepare_msg\<close>, \<open>prepare_msg_ifc\<close>), and the parse of a received
  message (\<open>update_route_table\<close>) as decoding followed by relaxation.
\<close>

section \<open>Fixed-width codecs\<close>

locale codec =
  fixes enc :: "'a \<Rightarrow> byte list"
    and dec :: "byte list \<Rightarrow> fault + 'a"
    and width :: nat
  assumes length_enc: "length (enc x) = width"
    and dec_enc: "dec (enc x @ rest) = Inr x"
    and dec_short: "length bs < width \<Longrightarrow> dec bs = Inl Indeterminate"
    and dec_ok: "width \<le> length bs \<Longrightarrow> okE (dec bs)"

text \<open>A counted sequence of fixed-width items.\<close>

fun decode_seq :: "(byte list \<Rightarrow> fault + 'a) \<Rightarrow> nat \<Rightarrow> nat \<Rightarrow> byte list \<Rightarrow> fault + 'a list" where
  "decode_seq dec width 0 bs = Inr []"
| "decode_seq dec width (Suc n) bs =
     bindE (dec bs) (\<lambda>x. bindE (decode_seq dec width n (drop width bs)) (\<lambda>xs. Inr (x # xs)))"

context codec
begin

lemma length_concat_enc: "length (concat (map enc xs)) = width * length xs"
  by (induction xs) (simp_all add: length_enc)

lemma decode_seq_enc: "decode_seq dec width (length xs) (concat (map enc xs) @ rest) = Inr xs"
proof (induction xs)
  case (Cons x xs)
  have "drop width (enc x @ concat (map enc xs) @ rest) = concat (map enc xs) @ rest"
    by (simp add: length_enc)
  with Cons dec_enc show ?case by simp
qed simp

lemma decode_seq_ok: "okE (decode_seq dec width n bs) \<longleftrightarrow> n = 0 \<or> width * n \<le> length bs"
proof (induction n arbitrary: bs)
  case (Suc n)
  show ?case
  proof (cases "width \<le> length bs")
    case True
    then obtain x where x: "dec bs = Inr x" using dec_ok by (auto simp: okE_def)
    have "okE (decode_seq dec width n (drop width bs)) \<longleftrightarrow> width * Suc n \<le> length bs"
      using Suc.IH [of "drop width bs"] True by (cases "n = 0") auto
    with x show ?thesis by (auto simp: okE_bindE okE_def)
  next
    case False
    then show ?thesis using dec_short by (auto simp: okE_bindE)
  qed
qed simp

lemma decode_seq_short:
  "0 < n \<Longrightarrow> length bs < width * n \<Longrightarrow> decode_seq dec width n bs = Inl Indeterminate"
proof (induction n arbitrary: bs)
  case (Suc n)
  show ?case
  proof (cases "width \<le> length bs")
    case True
    then obtain x where x: "dec bs = Inr x" using dec_ok by (auto simp: okE_def)
    have "n \<noteq> 0" using True Suc.prems by (cases n) auto
    then have "decode_seq dec width n (drop width bs) = Inl Indeterminate"
      using Suc True by auto
    with x show ?thesis by simp
  next
    case False
    then show ?thesis using dec_short by simp
  qed
qed simp

end

interpretation be16: codec "\<lambda>w. bytes16 (htons w)" "\<lambda>bs. bindE (rd16 bs 0) (\<lambda>w. Inr (ntohs w))" 2
  by unfold_locales (simp, simp, simp_all add: rd16_def)

lemma length_entry_bytes [layout, simp]: "length (entry_bytes e) = 12"
  by (simp add: entry_bytes_def)

lemma read_entry_bytes: "read_entry (entry_bytes e @ rest) = Inr e"
proof -
  have "rd32 (entry_bytes e @ rest) 0 = Inr (cost e)"
    by (simp add: entry_bytes_def)
  moreover have "rd32 (entry_bytes e @ rest) 4 = Inr (address e)"
    using rd32_at [of 4 "bytes32 (cost e)"] by (simp add: entry_bytes_def)
  moreover have "rd32 (entry_bytes e @ rest) 8 = Inr (emask e)"
    using rd32_at [of 8 "bytes32 (cost e) @ bytes32 (address e)"] by (simp add: entry_bytes_def)
  ultimately show ?thesis by (simp add: read_entry_def)
qed

interpretation rip_entry: codec entry_bytes read_entry sizeof_entry
proof unfold_locales
  fix bs :: "byte list"
  show "length bs < sizeof_entry \<Longrightarrow> read_entry bs = Inl Indeterminate"
    by (auto simp: read_entry_def rd32_def sizeof_entry_def)
  show "sizeof_entry \<le> length bs \<Longrightarrow> okE (read_entry bs)"
    by (auto simp: read_entry_def rd32_def sizeof_entry_def)
qed (simp_all add: read_entry_bytes sizeof_entry_def)

section \<open>Receiving a message\<close>

text \<open>The parsing loop is decoding the counted sequence, then applying the entries.\<close>

lemma update_loop_eq:
  "update_loop clock next ifs i n data rt =
     bindE (decode_seq read_entry sizeof_entry n data) (\<lambda>es. Inr (apply_entries clock next ifs i es rt))"
proof (induction n arbitrary: i data rt)
  case (Suc n)
  then show ?case by (cases "read_entry data") (simp_all add: bindE_assoc)
qed simp

text \<open>The layout of a whole message, in host-order values.\<close>

definition rip_payload :: "u16 \<Rightarrow> entry list \<Rightarrow> byte list" where
  "rip_payload command es =
     bytes16 (htons command) @ bytes16 (htons (of_nat (length es)))
     @ concat (map entry_bytes (map net_entry es))"

lemma length_rip_payload [layout]: "length (rip_payload command es) = 4 + 12 * length es"
  using rip_entry.length_concat_enc [of "map net_entry es"] by (simp add: rip_payload_def sizeof_entry_def)

text \<open>The effect of a response on the table, in host-order entries.\<close>

definition learn ::
  "(nat \<Rightarrow> timeval) \<Rightarrow> u32 \<Rightarrow> link list \<Rightarrow> entry list \<Rightarrow> rtable \<Rightarrow> rtable" where
  "learn clock next ifs es rt = apply_entries clock next ifs 0 (map net_entry es) rt"

lemma update_route_table_payload:
  assumes "length es < 65536"
  shows "update_route_table clock (drop 2 (rip_payload command es @ rest)) next ifs rt
    = Inr (learn clock next ifs es rt)"
proof -
  have "drop 2 (rip_payload command es @ rest)
      = bytes16 (htons (of_nat (length es))) @ concat (map entry_bytes (map net_entry es)) @ rest"
    by (simp add: rip_payload_def)
  moreover have "unat (of_nat (length es) :: u16) = length es"
    using assms by (simp add: unat_of_nat take_bit_nat_eq_self)
  ultimately show ?thesis
    using rip_entry.decode_seq_enc [of "map net_entry es" rest]
    by (simp add: update_route_table_def update_loop_eq learn_def)
qed

lemma transfer_ip_to_rip_response:
  assumes "length es < 65536"
  shows "transfer_ip_to_rip clock (rip_payload 2 es @ rest) next n
    = Inr (n\<lparr>rtable := learn clock next (interfaces n) es (rtable n)\<rparr>)"
proof -
  have "rd16 (rip_payload 2 es @ rest) 0 = Inr (htons 2)" by (simp add: rip_payload_def)
  then show ?thesis
    using update_route_table_payload [OF assms, of clock 2 rest] by (simp add: transfer_ip_to_rip_def Let_def)
qed

section \<open>Sending a message\<close>

text \<open>What a table entry is advertised as on the interface with local address \<open>neighbor\<close>.\<close>

definition advert :: "u32 \<Rightarrow> entry_wts \<Rightarrow> entry" where
  "advert neighbor w =
     (ent w)\<lparr>cost := (if address (ent w) \<noteq> neighbor \<and> neighbor = next_hop w
                      then RIP_MAX_COST else cost (ent w))\<rparr>"

definition adverts :: "u32 \<Rightarrow> rtable \<Rightarrow> entry list" where
  "adverts neighbor rt = map (\<lambda>x. advert neighbor (snd x)) rt"

lemma length_adverts [simp]: "length (adverts neighbor rt) = length rt"
  by (simp add: adverts_def)

lemma fill_entries_eq:
  "i \<le> MAX_ENTRIES \<Longrightarrow> fill_entries neighbor i rt =
     (if i + length rt \<le> MAX_ENTRIES then Inr (map net_entry (adverts neighbor rt))
      else Inl Out_Of_Bounds)"
proof (induction rt arbitrary: i)
  case (Cons x rt)
  obtain k w where x: "x = (k, w)" by (cases x)
  from Cons show ?case
    by (cases "i < MAX_ENTRIES") (auto simp: x adverts_def advert_def net_entry_def Let_def)
qed (simp add: adverts_def)

text \<open>The packet queued for one interface.\<close>

definition rip_header :: "link \<Rightarrow> nat \<Rightarrow> iphdr" where
  "rip_header l datasz =
     (let h = fresh_header (vip_local l) (vip_remote l) RIP_PROTO datasz
      in h\<lparr>check := header_sum h\<rparr>)"

definition rip_ipmsg :: "u16 \<Rightarrow> link list \<Rightarrow> rtable \<Rightarrow> nat \<Rightarrow> ipmsg" where
  "rip_ipmsg t ifs rt i =
     (let l = ifs ! i; payload = rip_payload t (adverts (vip_local l) rt)
      in \<lparr>ifc = i, msize = 20 + length payload,
          ippacket = iphdr_bytes (rip_header l (length payload)) @ payload\<rparr>)"

lemma prepare_msg_ifc_eq:
  assumes "i < length (interfaces n)"
  shows "prepare_msg_ifc t (int i) n =
     (if length (rtable n) \<le> MAX_ENTRIES then
        Inr (n\<lparr>incomingqueue := incomingqueue n @ [rip_ipmsg t (interfaces n) (rtable n) i]\<rparr>)
      else Inl Out_Of_Bounds)"
proof -
  let ?es = "adverts (vip_local (interfaces n ! i)) (rtable n)"
  let ?p = "rip_payload t ?es"
  have p: "bytes16 (htons t) @ bytes16 (htons (of_nat (length (rtable n))))
      @ concat (map entry_bytes (map net_entry ?es)) = ?p"
    by (simp add: rip_payload_def)
  have l: "sizeof_entry * length (map net_entry ?es) + 4 = length ?p"
    by (simp add: length_rip_payload sizeof_entry_def)
  show ?thesis
  proof (cases "length (rtable n) \<le> MAX_ENTRIES")
    case True
    then have f: "fill_entries (vip_local (interfaces n ! i)) 0 (rtable n) = Inr (map net_entry ?es)"
      by (simp add: fill_entries_eq)
    have "prepare_msg_ifc t (int i) n = transfer_rip_to_ip (int i) ?p (length ?p) n"
      unfolding prepare_msg_ifc_def Let_def interface_at_nth [OF assms] f bindE_simps l p ..
    moreover have "length ?p \<le> packet_data_cap"
      using True by (simp add: length_rip_payload MAX_ENTRIES_def packet_data_cap_def)
    ultimately show ?thesis
      using True assms
      by (simp add: transfer_rip_to_ip_def build_ip_packet_eq rip_ipmsg_def rip_header_def Let_def)
  next
    case False
    then show ?thesis using assms by (simp add: prepare_msg_ifc_def fill_entries_eq)
  qed
qed

text \<open>\<open>prepare_msg\<close> queues one message per interface that is up, in interface order.\<close>

definition up_ids :: "link list \<Rightarrow> nat list" where
  "up_ids ifs = filter (\<lambda>i. isup (ifs ! i)) [0..<length ifs]"

lemma prepare_loop_eq:
  assumes "\<forall>i \<in> set ids. i < length (interfaces n)" and "length (rtable n) \<le> MAX_ENTRIES"
  shows "prepare_loop t ids n =
     Inr (n\<lparr>incomingqueue := incomingqueue n
        @ map (rip_ipmsg t (interfaces n) (rtable n)) (filter (\<lambda>i. isup (interfaces n ! i)) ids)\<rparr>)"
  using assms
proof (induction ids arbitrary: n)
  case (Cons i ids)
  then show ?case by (simp add: prepare_msg_ifc_eq)
qed simp

lemma prepare_msg_eq:
  assumes "length (rtable n) \<le> MAX_ENTRIES"
  shows "prepare_msg t n =
     Inr (n\<lparr>incomingqueue := incomingqueue n
        @ map (rip_ipmsg t (interfaces n) (rtable n)) (up_ids (interfaces n))\<rparr>)"
  using prepare_loop_eq [OF _ assms] by (simp add: prepare_msg_def up_ids_def)

text \<open>With more than \<open>MAX_ENTRIES\<close> routes the first interface that is up overruns \<open>msg.entries\<close>.\<close>

lemma prepare_loop_overflow:
  assumes "\<forall>i \<in> set ids. i < length (interfaces n)" and "MAX_ENTRIES < length (rtable n)"
    and "\<exists>i \<in> set ids. isup (interfaces n ! i)"
  shows "prepare_loop t ids n = Inl Out_Of_Bounds"
  using assms by (induction ids) (auto simp: prepare_msg_ifc_eq)

lemma prepare_msg_rtable: "prepare_msg t n = Inr n' \<Longrightarrow> rtable n' = rtable n \<and> interfaces n' = interfaces n"
proof -
  have "prepare_loop t ids n = Inr n' \<Longrightarrow> rtable n' = rtable n \<and> interfaces n' = interfaces n" for ids
  proof (induction ids arbitrary: n)
    case (Cons i ids)
    from Cons.prems obtain n1 where n1: "prepare_loop t ids n1 = Inr n'"
      and "(if isup (interfaces n ! i) then prepare_msg_ifc t (int i) n else Inr n) = Inr n1"
      by (auto simp: interface_at_def split: if_splits)
    then have "rtable n1 = rtable n \<and> interfaces n1 = interfaces n"
      by (auto simp: prepare_msg_ifc_def Let_def split: if_splits dest: transfer_rip_to_ip_frame)
    with Cons.IH [OF n1] show ?case by simp
  qed simp
  then show "prepare_msg t n = Inr n' \<Longrightarrow> ?thesis" by (simp add: prepare_msg_def)
qed

section \<open>Sequences of messages\<close>

text \<open>A received message body: the clock readings while it is processed, its bytes after the command
  word, and the address of the interface it arrived on.\<close>

type_synonym body = "(nat \<Rightarrow> timeval) \<times> byte list \<times> u32"

fun receive_bodies :: "link list \<Rightarrow> body list \<Rightarrow> rtable \<Rightarrow> fault + rtable" where
  "receive_bodies ifs [] rt = Inr rt"
| "receive_bodies ifs ((clock, data, next) # bs) rt =
     bindE (update_route_table clock data next ifs rt) (receive_bodies ifs bs)"

lemma update_route_table_InrD:
  assumes "update_route_table clock data next ifs rt = Inr rt'"
  shows "\<exists>es. decode_seq read_entry sizeof_entry (unat (ntohs (word16 (data ! 0) (data ! 1)))) (drop 2 data) = Inr es
    \<and> rt' = apply_entries clock next ifs 0 es rt"
  using assms by (auto simp: update_route_table_def update_loop_eq rd16_def split: if_splits)

lemma update_route_table_own:
  "update_route_table clock data next ifs rt = Inr rt' \<Longrightarrow> k \<in> my_addrs ifs \<Longrightarrow> map_find rt' k = map_find rt k"
  by (drule update_route_table_InrD) (auto simp: apply_entries_own)

lemma update_route_table_inv:
  "update_route_table clock data next ifs rt = Inr rt' \<Longrightarrow> rt_inv ifs rt \<Longrightarrow> next \<in> my_addrs ifs \<Longrightarrow> rt_inv ifs rt'"
  by (drule update_route_table_InrD) (auto simp: apply_entries_inv)

section \<open>Properties\<close>

text \<open>
  C29: \<open>update_route_table\<close> trusts the entry count of the message: it stays inside the bytes received
  exactly when the count word is there and the counted entries fit behind it.
\<close>

theorem update_route_table_ok_iff:
  "okE (update_route_table clock data next ifs rt) =
     (2 \<le> length data
      \<and> 2 + 12 * unat (ntohs (word16 (data ! 0) (data ! 1))) \<le> length data)"
proof (cases "2 \<le> length data")
  case True
  let ?k = "unat (ntohs (word16 (data ! 0) (data ! 1)))"
  have "okE (update_route_table clock data next ifs rt) = okE (decode_seq read_entry sizeof_entry ?k (drop 2 data))"
    using True by (simp add: update_route_table_def update_loop_eq rd16_def okE_bindE_Inr)
  also have "\<dots> \<longleftrightarrow> ?k = 0 \<or> 12 * ?k \<le> length data - 2"
    by (simp add: rip_entry.decode_seq_ok) (simp add: sizeof_entry_def)
  finally show ?thesis using True by auto
qed (simp add: update_route_table_def rd16_def)

text \<open>
  C10: a response that was laid out by the sender is taken as the fold of relaxation steps over
  its entries, in order, whatever bytes follow it.
\<close>

theorem update_route_table_refines:
  assumes "length es < 65536"
  shows "\<exists>rt'. update_route_table clock (drop 2 (rip_payload command es @ rest)) next ifs rt = Inr rt'
    \<and> map_find rt' = fold (\<lambda>(i, h). relax (clock i) next (my_addrs ifs) h) (enumerate 0 es) (map_find rt)"
proof -
  have "map_find (apply_entries clock next ifs i (map net_entry es) rt)
      = fold (\<lambda>(i, h). relax (clock i) next (my_addrs ifs) h) (enumerate i es) (map_find rt)" for i
    by (induction es arbitrary: i rt) (simp_all add: update_entry_refines)
  with update_route_table_payload [OF assms] show ?thesis by (simp add: learn_def)
qed

theorem update_route_table_refines_witness:
  "\<exists>rt'. update_route_table (\<lambda>_. at_sec 102)
       (drop 2 (rip_payload 2 [\<lparr>cost = 3, address = 0x0A000063, emask = 0\<rparr>] @ [])) 0x0A000009 B_ifs B_rt = Inr rt'
     \<and> map_find rt' 0x0A000063
        = Some \<lparr>ent = \<lparr>cost = 4, address = 0x0A000063, emask = 0\<rparr>, next_hop = 0x0A000009, tstamp = at_sec 102\<rparr>"
proof -
  have e: "enumerate 0 [x] = [(0, x)]" for x :: entry by simp
  obtain rt' where "update_route_table (\<lambda>_. at_sec 102)
       (drop 2 (rip_payload 2 [\<lparr>cost = 3, address = 0x0A000063, emask = 0\<rparr>] @ [])) 0x0A000009 B_ifs B_rt = Inr rt'"
    "map_find rt' = fold (\<lambda>(i, h). relax (at_sec 102) 0x0A000009 (my_addrs B_ifs) h)
       (enumerate 0 [\<lparr>cost = 3, address = 0x0A000063, emask = 0\<rparr>]) (map_find B_rt)"
    using update_route_table_refines [of "[\<lparr>cost = 3, address = 0x0A000063, emask = 0\<rparr>]" "\<lambda>_. at_sec 102" 2 "[]"
        "0x0A000009" B_ifs B_rt] by auto
  moreover from this(2) have "map_find rt' 0x0A000063
      = Some \<lparr>ent = \<lparr>cost = 4, address = 0x0A000063, emask = 0\<rparr>, next_hop = 0x0A000009, tstamp = at_sec 102\<rparr>"
    unfolding e by (simp add: relax_def RIP_MAX_COST_def better_def B_rt_def)
  ultimately show ?thesis by blast
qed

text \<open>
  No message makes a route worse or removes it: after any message that is processed to the
  end, every destination is still there, with its entry unchanged or of strictly lower cost, and the
  entries of the node's own addresses are unchanged.
\<close>

theorem update_route_table_monotone:
  assumes "update_route_table clock data next ifs rt = Inr rt'" and "map_find rt k = Some w"
  shows "\<exists>w'. map_find rt' k = Some w' \<and> (w' = w \<or> cost (ent w') < cost (ent w) \<and> k \<notin> my_addrs ifs)"
proof -
  obtain es where rt': "rt' = apply_entries clock next ifs 0 es rt"
    using update_route_table_InrD [OF assms(1)] by blast
  show ?thesis
    using apply_entries_mono [OF assms(2), of clock "next" ifs 0 es] apply_entries_own [of k ifs clock "next" 0 es rt]
      assms(2) rt' by (cases "k \<in> my_addrs ifs") auto
qed

theorem update_route_table_monotone_witness:
  "\<exists>rt' w'. update_route_table (\<lambda>_. at_sec 102)
       (drop 2 (rip_payload 2 [\<lparr>cost = 15, address = 0x0A000001, emask = 0\<rparr>] @ [])) 0x0A00000E B_ifs B_rt = Inr rt'
     \<and> map_find rt' 0x0A000001 = Some w' \<and> cost (ent w') \<le> 1"
proof -
  have f: "map_find B_rt 0x0A000001 = Some (route 0x0A000001 1 0x0A00000E 101)" by (simp add: B_rt_def)
  obtain rt' where u: "update_route_table (\<lambda>_. at_sec 102)
       (drop 2 (rip_payload 2 [\<lparr>cost = 15, address = 0x0A000001, emask = 0\<rparr>] @ [])) 0x0A00000E B_ifs B_rt = Inr rt'"
    using update_route_table_payload [of "[\<lparr>cost = 15, address = 0x0A000001, emask = 0\<rparr>]" "\<lambda>_. at_sec 102" 2 "[]"
        "0x0A00000E" B_ifs B_rt] by simp
  from update_route_table_monotone [OF u f] obtain w' where
    "map_find rt' 0x0A000001 = Some w'" "w' = route 0x0A000001 1 0x0A00000E 101 \<or> cost (ent w') < 1"
    by (auto simp: route_def)
  with u show ?thesis by (auto simp: route_def intro!: exI [of _ rt'] exI [of _ w'])
qed

lemma prepare_msg_cases:
  "prepare_msg t n =
     (if length (rtable n) \<le> MAX_ENTRIES \<or> up_ids (interfaces n) = []
      then Inr (n\<lparr>incomingqueue := incomingqueue n
             @ map (rip_ipmsg t (interfaces n) (rtable n)) (up_ids (interfaces n))\<rparr>)
      else Inl Out_Of_Bounds)"
proof (cases "length (rtable n) \<le> MAX_ENTRIES")
  case False
  have "prepare_loop t ids n = Inr n" if "\<forall>i \<in> set ids. i < length (interfaces n) \<and> \<not> isup (interfaces n ! i)" for ids
    using that by (induction ids) auto
  then have "up_ids (interfaces n) = [] \<Longrightarrow> prepare_msg t n = Inr n"
    by (simp add: prepare_msg_def up_ids_def filter_empty_conv)
  moreover have "up_ids (interfaces n) \<noteq> [] \<Longrightarrow> prepare_msg t n = Inl Out_Of_Bounds"
    unfolding prepare_msg_def
    by (rule prepare_loop_overflow) (use False in \<open>auto simp: up_ids_def filter_empty_conv\<close>)
  ultimately show ?thesis using False by auto
qed (simp add: prepare_msg_eq)

text \<open>
  C11: \<open>prepare_msg\<close> queues exactly one message for each interface that is up, in interface order,
  and nothing else in the node changes; with more than \<open>MAX_ENTRIES\<close> routes and an interface up it writes
  past \<open>msg.entries\<close>.
\<close>

theorem prepare_msg_outcome:
  "prepare_msg t n =
     (if length (rtable n) \<le> MAX_ENTRIES \<or> up_ids (interfaces n) = []
      then Inr (n\<lparr>incomingqueue := incomingqueue n
             @ map (rip_ipmsg t (interfaces n) (rtable n)) (up_ids (interfaces n))\<rparr>)
      else Inl Out_Of_Bounds)"
  by (rule prepare_msg_cases)

lemma map_of_adverts:
  assumes "\<forall>x \<in> set rt. address (ent (snd x)) = fst x"
  shows "map_of (map (\<lambda>e. (address e, cost e)) (adverts a rt)) k =
    map_option (\<lambda>w. if k \<noteq> a \<and> next_hop w = a then RIP_MAX_COST else cost (ent w)) (map_find rt k)"
  using assms by (induction rt) (auto simp: adverts_def advert_def)

text \<open>
  C12: what one interface is told.  The message lists every destination of the table once; a
  destination learned through that interface is advertised with cost 16, every other one (and the
  interface's own address) with its true cost.
\<close>

theorem poisoned_reverse:
  assumes "i < length (interfaces n)" and "length (rtable n) \<le> MAX_ENTRIES"
    and "rt_inv (interfaces n) (rtable n)"
  shows "\<exists>m es. prepare_msg_ifc t (int i) n = Inr (n\<lparr>incomingqueue := incomingqueue n @ [m]\<rparr>)
    \<and> ifc m = i \<and> drop 20 (ippacket m) = rip_payload t es \<and> length es = length (rtable n)
    \<and> (\<forall>k. map_of (map (\<lambda>e. (address e, cost e)) es) k =
         map_option (\<lambda>w. if k \<noteq> vip_local (interfaces n ! i) \<and> next_hop w = vip_local (interfaces n ! i)
                          then RIP_MAX_COST else cost (ent w)) (map_find (rtable n) k))"
proof -
  let ?es = "adverts (vip_local (interfaces n ! i)) (rtable n)"
  have "\<forall>x \<in> set (rtable n). address (ent (snd x)) = fst x"
    using assms(3) by (simp add: rt_inv_def good_entry_def)
  from map_of_adverts [OF this] show ?thesis
    using assms(1,2)
    by (intro exI [of _ "rip_ipmsg t (interfaces n) (rtable n) i"] exI [of _ ?es])
      (simp add: prepare_msg_ifc_eq rip_ipmsg_def Let_def)
qed

theorem poisoned_reverse_witness:
  "\<exists>m es. prepare_msg_ifc 2 (int 0) B_node = Inr (B_node\<lparr>incomingqueue := [m]\<rparr>)
    \<and> drop 20 (ippacket m) = rip_payload 2 es
    \<and> map_of (map (\<lambda>e. (address e, cost e)) es) 0x0A000001 = Some 16
    \<and> map_of (map (\<lambda>e. (address e, cost e)) es) 0x0A00000A = Some 1"
proof -
  have h: "0 < length (interfaces B_node)" "length (rtable B_node) \<le> MAX_ENTRIES"
    "rt_inv (interfaces B_node) (rtable B_node)"
    using rt_inv_B by (simp_all add: B_node_def node_of_def MAX_ENTRIES_def) (simp_all add: B_ifs_def B_rt_def)
  have v: "vip_local (interfaces B_node ! 0) = 0x0A00000E" "incomingqueue B_node = []"
    "map_find (rtable B_node) 0x0A000001 = Some (route 0x0A000001 1 0x0A00000E 101)"
    "map_find (rtable B_node) 0x0A00000A = Some (route 0x0A00000A 1 0x0A000009 101)"
    by (simp_all add: B_node_def node_of_def B_rt_def B_ifs_def link_of_def)
  from poisoned_reverse [OF h, of 2] obtain m es where
    p: "prepare_msg_ifc 2 (int 0) B_node = Inr (B_node\<lparr>incomingqueue := incomingqueue B_node @ [m]\<rparr>)"
    and d: "drop 20 (ippacket m) = rip_payload 2 es"
    and c: "\<And>k. map_of (map (\<lambda>e. (address e, cost e)) es) k =
         map_option (\<lambda>w. if k \<noteq> vip_local (interfaces B_node ! 0) \<and> next_hop w = vip_local (interfaces B_node ! 0)
                          then RIP_MAX_COST else cost (ent w)) (map_find (rtable B_node) k)" by blast
  have c': "map_of (map (\<lambda>e. (address e, cost e)) es) 0x0A000001 = Some 16"
    "map_of (map (\<lambda>e. (address e, cost e)) es) 0x0A00000A = Some 1"
    unfolding c v by (simp_all add: route_def RIP_MAX_COST_def)
  from p have "prepare_msg_ifc 2 (int 0) B_node = Inr (B_node\<lparr>incomingqueue := [m]\<rparr>)"
    unfolding v(2) by simp
  with d c' show ?thesis by blast
qed

text \<open>
  C31: a neighbour that keeps announcing a route at the same or a higher cost does not renew it.
  Whatever responses arrive, as long as none undercuts the stored cost, the entry stays as it was, its
  timestamp included, and a refresh round more than 12 seconds after that timestamp removes the route
  although it was announced all along.
\<close>

theorem keepalive_does_not_refresh:
  assumes "rt_inv (interfaces n) (rtable n)" and "map_find (rtable n) k = Some w"
    and "k \<notin> my_addrs (interfaces n)"
    and "\<forall>(clock, es, next) \<in> set msgs. next \<in> my_addrs (interfaces n) \<and> length es < 65536
           \<and> (\<forall>e \<in> set es. address e = k \<longrightarrow> cost (ent w) \<le> cost e + 1)"
    and "wf_time now" and "wf_time (tstamp w)" and "usecs (tstamp w) + 12000000 < usecs now"
  shows "\<exists>rt'. receive_bodies (interfaces n)
        (map (\<lambda>(clock, es, next). (clock, drop 2 (rip_payload 2 es), next)) msgs) (rtable n) = Inr rt'
      \<and> map_find rt' k = Some w
      \<and> map_find (rtable (refresh_route_table now (n\<lparr>rtable := rt'\<rparr>))) k = None"
proof -
  have "\<exists>rt'. receive_bodies (interfaces n)
        (map (\<lambda>(clock, es, next). (clock, drop 2 (rip_payload 2 es), next)) msgs) rt = Inr rt'
      \<and> map_find rt' k = Some w \<and> rt_inv (interfaces n) rt'"
    if "rt_inv (interfaces n) rt" "map_find rt k = Some w" for rt
    using assms(4) that
  proof (induction msgs arbitrary: rt)
    case (Cons m msgs)
    obtain clock es "next" where m: "m = (clock, es, next)" by (cases m)
    let ?rt = "learn clock next (interfaces n) es rt"
    have u: "update_route_table clock (drop 2 (rip_payload 2 es)) next (interfaces n) rt = Inr ?rt"
      using update_route_table_payload [of es clock 2 "[]"] Cons.prems(1) m by simp
    have "map_find ?rt k = Some w"
      unfolding learn_def
      by (rule apply_entries_unchanged) (use Cons.prems m in auto)
    moreover have "rt_inv (interfaces n) ?rt"
      using update_route_table_inv [OF u Cons.prems(2)] Cons.prems(1) m by simp
    ultimately show ?case using Cons.IH [of ?rt] Cons.prems(1) u m by simp
  qed simp
  from this [OF assms(1,2)] obtain rt' where rt':
    "receive_bodies (interfaces n)
        (map (\<lambda>(clock, es, next). (clock, drop 2 (rip_payload 2 es), next)) msgs) (rtable n) = Inr rt'"
    "map_find rt' k = Some w" "rt_inv (interfaces n) rt'" by blast
  have "expired now (tstamp w)" using expired_iff [OF assms(5,6)] assms(7) by simp
  with rt' assms(3) have "map_find (rtable (refresh_route_table now (n\<lparr>rtable := rt'\<rparr>))) k = None"
    by (simp add: refresh_route_table_def refresh_loop_eq map_find_filter rt_inv_def)
  with rt' show ?thesis by blast
qed

theorem keepalive_does_not_refresh_witness:
  "\<exists>rt'. receive_bodies B_ifs
      [(\<lambda>_. at_sec 106, drop 2 (rip_payload 2 [\<lparr>cost = 0, address = 0x0A000001, emask = 0\<rparr>]), 0x0A00000E),
       (\<lambda>_. at_sec 111, drop 2 (rip_payload 2 [\<lparr>cost = 0, address = 0x0A000001, emask = 0\<rparr>]), 0x0A00000E)]
      B_rt = Inr rt'
    \<and> map_find (rtable (refresh_route_table (at_sec 114) (B_node\<lparr>rtable := rt'\<rparr>))) 0x0A000001 = None"
proof -
  let ?e = "\<lparr>cost = 0, address = 0x0A000001, emask = 0\<rparr> :: entry"
  let ?msgs = "[(\<lambda>_. at_sec 106, [?e], 0x0A00000E), (\<lambda>_. at_sec 111, [?e], 0x0A00000E)]
    :: ((nat \<Rightarrow> timeval) \<times> entry list \<times> u32) list"
  have n: "interfaces B_node = B_ifs" "rtable B_node = B_rt" by (simp_all add: B_node_def node_of_def)
  have f: "map_find B_rt 0x0A000001 = Some (route 0x0A000001 1 0x0A00000E 101)" by (simp add: B_rt_def)
  have t: "wf_time (at_sec 114)" "wf_time (tstamp (route 0x0A000001 1 0x0A00000E 101))"
    "usecs (tstamp (route 0x0A000001 1 0x0A00000E 101)) + 12000000 < usecs (at_sec 114)"
    by (simp_all add: wf_time_def usecs_def at_sec_def route_def)
  have m: "\<forall>(clock, es, next) \<in> set ?msgs. next \<in> my_addrs B_ifs \<and> length es < 65536
           \<and> (\<forall>e \<in> set es. address e = 0x0A000001 \<longrightarrow> cost (ent (route 0x0A000001 1 0x0A00000E 101)) \<le> cost e + 1)"
    by (simp add: route_def)
  from keepalive_does_not_refresh [of B_node "0x0A000001" _ ?msgs "at_sec 114", unfolded n, OF rt_inv_B f _ m t]
  show ?thesis by auto
qed

end
