(* ===== verification/Network_Layer.thy ===== *)
theory Network_Layer
  imports Rip_Wire
begin

text \<open>
  The rest of \<open>src/NetworkLayer.cc\<close>: hand-over from the link layer, the receive path
  (\<open>transfer_data\<close>), forwarding, and sending on behalf of the application.
\<close>

definition TTL_OFFSET :: nat where "TTL_OFFSET = 8"
definition CSUM_OFFSET :: nat where "CSUM_OFFSET = 10"

section \<open>Queues towards the receive thread\<close>

definition transfer_link_to_ip :: "byte list \<Rightarrow> nat \<Rightarrow> u32 \<Rightarrow> node \<Rightarrow> fault + node" where
  "transfer_link_to_ip data len next n =
     bindE (get_bytes data len) (\<lambda>src.
     bindE (put sizeof_packet [] 0 src) (\<lambda>pkt.
       Inr (n\<lparr>outgoingqueue := outgoingqueue n @ [\<lparr>datalen = len, rnext = next, ippkt = pkt\<rparr>]\<rparr>)))"

section \<open>Forwarding\<close>

definition transfer_transit_data :: "u32 \<Rightarrow> byte list \<Rightarrow> nat \<Rightarrow> node \<Rightarrow> fault + node" where
  "transfer_transit_data dest data datasz n =
     (let next_addr = get_next_address (rtable n) dest DEFAULT_ADDR
      in case get_interface (interfaces n) next_addr of
           None \<Rightarrow> Inr (print Destination_Unreachable n)
         | Some i \<Rightarrow>
             bindE (get_bytes data datasz) (\<lambda>src.
             bindE (put sizeof_packet [] 0 src) (\<lambda>pkt.
               Inr (n\<lparr>incomingqueue := incomingqueue n
                      @ [\<lparr>ifc = i, msize = datasz, ippacket = pkt\<rparr>]\<rparr>))))"

text \<open>
  The \<open>else\<close> branch of \<open>transfer_data\<close>.  \<open>ntohs\<close> is applied to the 8-bit field \<open>ttl\<close>, and two bytes
  are written back at its offset.
\<close>

definition forward_packet :: "u32 \<Rightarrow> byte list \<Rightarrow> nat \<Rightarrow> node \<Rightarrow> fault + node" where
  "forward_packet dest data len n =
     bindE (rd8 data TTL_OFFSET) (\<lambda>pkt_ttl.
       let t = ntohs (ucast pkt_ttl) - 1
       in if t = 0 then Inr (print Ttl_Expired n)
          else
            let t = htons t in
            bindE (put sizeof_packet data TTL_OFFSET (bytes16 t)) (\<lambda>data.
            bindE (put sizeof_packet data CSUM_OFFSET (bytes16 0)) (\<lambda>data.
            bindE (ip_sum data (int sizeof_iphdr)) (\<lambda>csum.
            bindE (put sizeof_packet data CSUM_OFFSET (bytes16 csum)) (\<lambda>data.
              transfer_transit_data dest data len n)))))"

section \<open>The receive path\<close>

text \<open>Delivery to this node: terminate the payload with a NUL and print it.\<close>

definition deliver_packet :: "int \<Rightarrow> byte list \<Rightarrow> nat \<Rightarrow> nat \<Rightarrow> u8 \<Rightarrow> node \<Rightarrow> fault + node" where
  "deliver_packet interfaceid data len datapos proto n =
     bindE (put sizeof_packet data len [0]) (\<lambda>data.
     bindE (rd32 data 12) (\<lambda>src. bindE (rd32 data 16) (\<lambda>dst.
       if datapos \<le> len then
         Inr (print (Received_Packet interfaceid src dst proto (int len - int datapos)
                       (takeWhile (\<lambda>b. b \<noteq> 0) (drop datapos data))) n)
       else Inl Indeterminate)))"

definition transfer_data ::
  "(nat \<Rightarrow> timeval) \<Rightarrow> byte list \<Rightarrow> nat \<Rightarrow> u32 \<Rightarrow> node \<Rightarrow> fault + node" where
  "transfer_data clock data len next n =
     bindE (rd8 data 0) (\<lambda>b0. bindE (rd32 data 16) (\<lambda>da. bindE (rd8 data 9) (\<lambda>proto.
     bindE (rd16 data 10) (\<lambda>orig_sum.
       let datapos = unat (4 * (b0 AND 0xf));
           dest = ntohl da;
           interfaceid = get_interfaceid (interfaces n) next
       in bindE (put sizeof_packet data CSUM_OFFSET (bytes16 0)) (\<lambda>data.
          bindE (ip_sum data (int sizeof_iphdr)) (\<lambda>cur_sum.
            if orig_sum \<noteq> cur_sum then Inr (print (Checksum_Difference orig_sum cur_sum) n)
            else if proto = RIP_PROTO then
              (case get_interface (interfaces n) next of
                 None \<Rightarrow> Inl Null_Pointer
               | Some i \<Rightarrow>
                   if \<not> isup (interfaces n ! i) then Inr n
                   else transfer_ip_to_rip clock (drop datapos data) next n)
            else if is_destined_to_me (interfaces n) dest then
              deliver_packet interfaceid data len datapos proto n
            else forward_packet dest data len n))))))"

text \<open>One round of \<open>process_out_queue\<close>; \<open>None\<close> while \<open>pop\<close> blocks.\<close>

definition process_out_step :: "(nat \<Rightarrow> timeval) \<Rightarrow> node \<Rightarrow> (fault + node) option" where
  "process_out_step clock n =
     (case outgoingqueue n of
        [] \<Rightarrow> None
      | msg # q \<Rightarrow>
          Some (bindE (get_bytes (ippkt msg) (datalen msg)) (\<lambda>src.
                bindE (put sizeof_packet [] 0 src) (\<lambda>pkt.
                  transfer_data clock pkt (datalen msg) (rnext msg) (n\<lparr>outgoingqueue := q\<rparr>)))))"

section \<open>Sending for the application\<close>

definition transfer_application_to_ip :: "u32 \<Rightarrow> u8 \<Rightarrow> byte list \<Rightarrow> nat \<Rightarrow> node \<Rightarrow> fault + node" where
  "transfer_application_to_ip dest proto data datasz n =
     (let hdest = ntohl dest;
          next_addr = get_next_address (rtable n) hdest DEFAULT_ADDR
      in case get_interface (interfaces n) next_addr of
           None \<Rightarrow> Inr (print Destination_Unreachable n)
         | Some i \<Rightarrow>
             bindE (build_ip_packet (vip_local (interfaces n ! i)) hdest proto data datasz) (\<lambda>pkt.
               Inr (n\<lparr>incomingqueue := incomingqueue n
                      @ [\<lparr>ifc = i, msize = unat MIN_HDR_LEN * 4 + datasz, ippacket = pkt\<rparr>]\<rparr>)))"

end
