(* ===== verification/Network_Recv.thy ===== *)
theory Network_Recv
  imports Network_Layer
begin

text \<open>
  What the receive and forwarding paths of \<open>src/NetworkLayer.cc\<close> do to a packet given as a header
  record and a body: the reads and writes at fixed offsets become field accesses of \<open>iphdr\<close>, and
  \<open>transfer_data\<close> gets one equation per outcome.
\<close>

section \<open>Header fields at their offsets\<close>

lemma rd8_header:
  "rd8 (iphdr_bytes h @ d) 0 = Inr (ucast (ihl h) OR push_bit 4 (ucast (version h)))"
  "rd8 (iphdr_bytes h @ d) 8 = Inr (ttl h)"
  "rd8 (iphdr_bytes h @ d) 9 = Inr (protocol h)"
  by (simp_all add: rd8_def iphdr_bytes_def bytes16_def bytes32_def)

lemma rd16_header: "rd16 (iphdr_bytes h @ d) 10 = Inr (check h)"
  by (simp add: rd16_def iphdr_bytes_def bytes16_def bytes32_def)

lemma rd32_header:
  "rd32 (iphdr_bytes h @ d) 12 = Inr (saddr h)"
  "rd32 (iphdr_bytes h @ d) 16 = Inr (daddr h)"
  by (simp_all add: rd32_def iphdr_bytes_def bytes16_def bytes32_def)

lemma low_nibble: "(ucast i OR push_bit 4 (ucast v)) AND 0xf = (ucast i :: u8)" for i v :: "4 word"
proof -
  have m: "(0xf :: u8) = mask 4" by (simp add: mask_eq_exp_minus_1)
  show ?thesis
    unfolding m by (rule bit_word_eqI) (auto simp: bit_simps dest: bit_imp_le_length)
qed

lemma unat_datapos: "unat (4 * ucast i :: u8) = 4 * unat i" for i :: "4 word"
proof -
  have "unat i < 16" using unsigned_less [of i, where 'a = nat] by simp
  then show ?thesis by (simp add: unat_word_ariths unsigned_ucast_eq take_bit_nat_eq_self)
qed

lemma put_check:
  assumes "length d \<le> packet_data_cap"
  shows "put sizeof_packet (iphdr_bytes h @ d) 10 (bytes16 w) = Inr (iphdr_bytes (h\<lparr>check := w\<rparr>) @ d)"
  using assms
  by (simp add: put_def sizeof_packet_def) (simp add: iphdr_bytes_def bytes16_def bytes32_def)

lemma put_ttl:
  assumes "length d \<le> packet_data_cap"
  shows "put sizeof_packet (iphdr_bytes h @ d) 8 [a, b]
    = Inr (iphdr_bytes (h\<lparr>ttl := a, protocol := b\<rparr>) @ d)"
  using assms
  by (simp add: put_def sizeof_packet_def) (simp add: iphdr_bytes_def bytes16_def bytes32_def)

lemma ip_sum_cleared:
  "ip_sum (iphdr_bytes (h\<lparr>check := 0\<rparr>) @ d) (int sizeof_iphdr) = Inr (header_sum h)"
  using ip_sum_header [of "h\<lparr>check := 0\<rparr>" d] by (simp add: header_sum_def sizeof_iphdr_def)

lemma header_sum_check [simp]: "header_sum (h\<lparr>check := c\<rparr>) = header_sum h"
  by (simp add: header_sum_def)

section \<open>Forwarding\<close>

lemma word16_minus_1: "word16 0 x - 1 = word16 0xff (x - 1)"
proof (cases "x = 0")
  case True
  have e: "(0 - 1 :: u8) = 0xff" by simp
  show ?thesis unfolding True e by (simp add: word16_def)
next
  case False
  then have p: "0 < unat x" by (simp add: unat_gt_0)
  have "1 \<le> word16 0 x" using p by (simp add: word_le_nat_alt word16_nat)
  then have "unat (word16 0 x - 1) = 256 * unat x - 1" by (simp add: unat_sub word16_nat)
  moreover have "1 \<le> x" using p by (simp add: word_le_nat_alt)
  then have "unat (x - 1) = unat x - 1" by (simp add: unat_sub)
  then have "unat (word16 0xff (x - 1)) = 255 + 256 * (unat x - 1)" by (simp add: word16_nat)
  ultimately show ?thesis using p by (simp add: word_unat_eq_iff)
qed

lemma ntohs_ucast: "ntohs (ucast (x :: u8)) = word16 0 x"
proof -
  have "(ucast x :: u16) = word16 x 0" by (simp add: word16_def)
  then show ?thesis by (simp add: ntohs_def)
qed

text \<open>The test \<open>ttl == 0\<close> compares a value whose low byte is 255.\<close>

lemma forward_ttl: "ntohs (ucast (x :: u8)) - 1 = word16 0xff (x - 1)"
  by (simp add: ntohs_ucast word16_minus_1)

lemma forward_ttl_nonzero: "ntohs (ucast (x :: u8)) - 1 \<noteq> 0"
  unfolding forward_ttl by (simp add: word_unat_eq_iff word16_nat)

text \<open>The header of a forwarded packet.\<close>

definition forwarded_header :: "iphdr \<Rightarrow> iphdr" where
  "forwarded_header h =
     (let h' = h\<lparr>ttl := ttl h - 1, protocol := 0xff\<rparr> in h'\<lparr>check := header_sum h'\<rparr>)"

lemma forward_packet_eq:
  assumes "length d \<le> packet_data_cap"
  shows "forward_packet dest (iphdr_bytes h @ d) len n =
    transfer_transit_data dest (iphdr_bytes (forwarded_header h) @ d) len n"
proof -
  have "htons (word16 0xff (ttl h - 1)) = word16 (ttl h - 1) 0xff" by (simp add: htons_def)
  then show ?thesis
    using assms forward_ttl_nonzero [of "ttl h"]
    by (simp add: forward_packet_def TTL_OFFSET_def CSUM_OFFSET_def rd8_header forward_ttl Let_def
        put_ttl put_check ip_sum_cleared forwarded_header_def)
qed

lemma transfer_transit_data_eq:
  assumes "len = length data" and "len \<le> sizeof_packet"
  shows "transfer_transit_data dest data len n =
    (case get_interface (interfaces n) (get_next_address (rtable n) dest DEFAULT_ADDR) of
       None \<Rightarrow> Inr (print Destination_Unreachable n)
     | Some i \<Rightarrow> Inr (n\<lparr>incomingqueue := incomingqueue n
                         @ [\<lparr>ifc = i, msize = len, ippacket = data\<rparr>]\<rparr>))"
  using assms
  by (simp add: transfer_transit_data_def get_bytes_def put_def Let_def split: option.splits)

section \<open>The receive path\<close>

text \<open>\<open>transfer_data\<close> on a packet whose body fits, by outcome.\<close>

lemma transfer_data_eq:
  assumes "length d \<le> packet_data_cap"
  shows "transfer_data clock (iphdr_bytes h @ d) len next n =
    (let ifs = interfaces n; h0 = h\<lparr>check := 0\<rparr>; pos = 4 * unat (ihl h)
     in if check h \<noteq> header_sum h then Inr (print (Checksum_Difference (check h) (header_sum h)) n)
        else if protocol h = RIP_PROTO then
          (case get_interface ifs next of
             None \<Rightarrow> Inl Null_Pointer
           | Some i \<Rightarrow> if isup (ifs ! i)
               then transfer_ip_to_rip clock (drop pos (iphdr_bytes h0 @ d)) next n
               else Inr n)
        else if ntohl (daddr h) \<in> my_addrs ifs then
          deliver_packet (get_interfaceid ifs next) (iphdr_bytes h0 @ d) len pos (protocol h) n
        else forward_packet (ntohl (daddr h)) (iphdr_bytes h0 @ d) len n)"
  using assms
  by (simp add: transfer_data_def rd8_header rd16_header rd32_header CSUM_OFFSET_def put_check
      ip_sum_cleared low_nibble unat_datapos Let_def split: option.splits)

lemma deliver_packet_eq:
  assumes "length d < packet_data_cap" and "pos \<le> 20 + length d"
  shows "deliver_packet iid (iphdr_bytes h @ d) (20 + length d) pos proto n =
    Inr (print (Received_Packet iid (saddr h) (daddr h) proto (int (20 + length d) - int pos)
      (takeWhile (\<lambda>b. b \<noteq> 0) (drop pos (iphdr_bytes h @ d)))) n)"
proof -
  have "put sizeof_packet (iphdr_bytes h @ d) (20 + length d) [0] = Inr (iphdr_bytes h @ d @ [0])"
    using assms(1) by (simp add: put_def sizeof_packet_def packet_data_cap_def)
  moreover have "takeWhile P (drop pos (xs @ [0])) = takeWhile P (drop pos xs)"
    if "pos \<le> length xs" "\<not> P 0" for P and xs :: "byte list"
    using that
    by (auto simp: takeWhile_append intro!: takeWhile_eq_all_conv [THEN iffD2, symmetric])
  from this [of "iphdr_bytes h @ d" "\<lambda>b. b \<noteq> 0"]
  have "takeWhile (\<lambda>b. b \<noteq> 0) (drop pos (iphdr_bytes h @ d @ [0]))
      = takeWhile (\<lambda>b. b \<noteq> 0) (drop pos (iphdr_bytes h @ d))"
    using assms(2) by simp
  ultimately show ?thesis
    using assms(2) rd32_header [of h "d @ [0]"] by (simp add: deliver_packet_def)
qed

text \<open>The queues carry a message unchanged from \<open>transfer_link_to_ip\<close> to \<open>transfer_data\<close>.\<close>

lemma link_to_ip_ok:
  assumes "len \<le> length data" and "len \<le> sizeof_packet"
  shows "transfer_link_to_ip data len next n =
    Inr (n\<lparr>outgoingqueue := outgoingqueue n
           @ [\<lparr>datalen = len, rnext = next, ippkt = take len data\<rparr>]\<rparr>)"
  using assms by (simp add: transfer_link_to_ip_def get_bytes_def put_def)

lemma process_out_step_ok:
  assumes "outgoingqueue n = \<lparr>datalen = length p, rnext = next, ippkt = p\<rparr> # q"
    and "length p \<le> sizeof_packet"
  shows "process_out_step clock n =
    Some (transfer_data clock p (length p) next (n\<lparr>outgoingqueue := q\<rparr>))"
  using assms by (simp add: process_out_step_def get_bytes_def put_def)

end
