(* ===== verification/Link_Layer.thy ===== *)
theory Link_Layer
  imports Network_Recv
begin

text \<open>
  \<open>src/LinkLayer.hh\<close> and \<open>src/LinkLayer.cc\<close>: the UDP socket of an interface, the one-frame send buffer,
  and the receive loop.  The results of the socket calls are arguments: the candidates that
  \<open>getaddrinfo\<close> lists with what the calls on each return, the results of \<open>sendto\<close>, the datagrams
  \<open>recvfrom\<close> returns.  A call that would block for ever on these inputs returns \<open>None\<close>.
\<close>

definition MAXBUFF :: nat where "MAXBUFF = 1024"

section \<open>create_socket, up, down\<close>

text \<open>What happens with one address: \<open>socket\<close>, \<open>setsockopt\<close> or \<open>bind\<close> fails, or all succeed.\<close>

datatype attempt = Socket_Fails | Setsockopt_Fails int | Bind_Fails int | Binds int

text \<open>The loop over the addresses; the second component lists the descriptors left open.\<close>

fun create_loop :: "attempt list \<Rightarrow> int list \<Rightarrow> fault + int \<times> int list" where
  "create_loop [] fds = Inl (Exit 1)"
| "create_loop (Socket_Fails # p) fds = create_loop p fds"
| "create_loop (Setsockopt_Fails fd # p) fds = create_loop p (fds @ [fd])"
| "create_loop (Bind_Fails fd # p) fds = create_loop p fds"
| "create_loop (Binds fd # p) fds = Inr (fd, fds @ [fd])"

text \<open>When \<open>getaddrinfo\<close> fails (\<open>None\<close>) the code goes on with an uninitialised list head.\<close>

definition create_socket :: "attempt list option \<Rightarrow> fault + int \<times> int list" where
  "create_socket ai = (case ai of None \<Rightarrow> Inl Indeterminate | Some p \<Rightarrow> create_loop p [])"

definition link_up :: "attempt list option \<Rightarrow> link \<Rightarrow> fault + console_line list \<times> link" where
  "link_up ai l =
     (let msgs = (if s_local l \<noteq> -1 then [Iface_Already_Up] else [])
      in bindE (create_socket ai) (\<lambda>(fd, fds). Inr (msgs, l\<lparr>s_local := fd, isup := True\<rparr>)))"

definition link_down :: "link \<Rightarrow> console_line list \<times> link" where
  "link_down l =
     ((if s_local l = -1 then [Iface_Already_Down] else []) @ [Iface_Closing (s_local l)],
      l\<lparr>s_local := -1, isup := False\<rparr>)"

section \<open>The send buffer\<close>

text \<open>\<open>send_frame\<close>: \<open>None\<close> while \<open>pthread_cond_wait\<close> would wait for the buffer to be sent.\<close>

definition send_frame :: "byte list \<Rightarrow> nat \<Rightarrow> link \<Rightarrow> (fault + link) option" where
  "send_frame data sz l =
     (if s_local l = -1 then Some (Inr l)
      else if sbufferReady l then None
      else Some (bindE (get_bytes data sz) (\<lambda>frame.
        Inr (l\<lparr>sbuffer := Some frame, sbuffersz := sz, sbufferReady := True\<rparr>))))"

text \<open>
  The loop of \<open>send_data\<close> over the results of \<open>sendto\<close>: the bytes still to send, the offset of
  \<open>_sbuffer\<close> from the address \<open>malloc\<close> returned, and the chunks that went out.  It ends when nothing
  remains or on the first \<open>-1\<close>.
\<close>

fun send_loop :: "int list \<Rightarrow> byte list \<Rightarrow> int \<Rightarrow> int \<Rightarrow> byte list list \<Rightarrow> (int \<times> byte list list) option" where
  "send_loop results frame remBytes off sent =
     (if remBytes > 0 then
        (case results of
           [] \<Rightarrow> None
         | numBytes # rs \<Rightarrow>
             if numBytes = -1 then Some (off, sent)
             else send_loop rs frame (remBytes - numBytes) (off + numBytes)
                    (sent @ [take (nat numBytes) (drop (nat off) frame)]))
      else Some (off, sent))"

declare send_loop.simps [simp del]

definition send_data :: "int list \<Rightarrow> link \<Rightarrow> (fault + byte list list \<times> link) option" where
  "send_data results l =
     (case sbuffer l of
        None \<Rightarrow> Some (Inl Null_Pointer)
      | Some frame \<Rightarrow>
          map_option (\<lambda>(off, sent).
              if off - int (sbuffersz l) = 0
              then Inr (sent, l\<lparr>sbuffer := None, sbufferReady := False\<rparr>)
              else Inl Bad_Free)
            (send_loop results frame (int (sbuffersz l)) 0 []))"

section \<open>Receiving\<close>

datatype recv_result = Datagram "byte list" u16 | Recv_Error

text \<open>One \<open>recvfrom\<close> into the start of \<open>buf\<close>: the return value, the buffer, the sender's port.\<close>

fun recvfrom :: "recv_result \<Rightarrow> byte list \<Rightarrow> u16 option \<Rightarrow> int \<times> byte list \<times> u16 option" where
  "recvfrom (Datagram d p) buf port =
     (let m = take MAXBUFF d in (int (length m), m @ drop (length m) buf, Some p))"
| "recvfrom Recv_Error buf port = (-1, buf, port)"

fun recv_loop ::
  "recv_result list \<Rightarrow> byte list \<Rightarrow> int \<Rightarrow> u16 \<Rightarrow> u16 option
     \<Rightarrow> fault + (byte list \<times> int \<times> u16 option \<times> recv_result list) option" where
  "recv_loop [] buf totalbytes frame_length port = Inr None"
| "recv_loop (r # rs) buf totalbytes frame_length port =
     (let (numbytes, buf, port) = recvfrom r buf port
      in bindE (if totalbytes = 0 then bindE (rd16 buf 2) (\<lambda>w. Inr (ntohs w)) else Inr frame_length)
           (\<lambda>frame_length.
              let totalbytes = totalbytes + numbytes
              in if totalbytes \<ge> uint frame_length
                 then Inr (Some (buf, totalbytes, port, rs))
                 else recv_loop rs buf totalbytes frame_length port))"

text \<open>\<open>recv_data\<close>, from the datagrams in arrival order to the node and the datagrams left.\<close>

definition recv_data :: "recv_result list \<Rightarrow> node \<Rightarrow> fault + (node \<times> recv_result list) option" where
  "recv_data rs n =
     bindE (recv_loop rs [] 0 0 None) (\<lambda>res.
       case res of
         None \<Rightarrow> Inr None
       | Some (buf, totalbytes, port, rs') \<Rightarrow>
           (case port of
              None \<Rightarrow> Inl Indeterminate
            | Some p \<Rightarrow>
                bindE (interface_at (interfaces n) (get_interfaceid_with_port (interfaces n) p)) (\<lambda>l.
                  if totalbytes < 0 then Inl Out_Of_Bounds
                  else bindE (transfer_link_to_ip buf (nat totalbytes) (vip_local l) n) (\<lambda>n'.
                    Inr (Some (n', rs'))))))"

section \<open>The sending thread of the network layer\<close>

text \<open>One round of \<open>process_in_queue\<close>; \<open>None\<close> while \<open>pop\<close> or \<open>send_frame\<close> blocks.\<close>

definition process_in_step :: "node \<Rightarrow> (fault + node) option" where
  "process_in_step n =
     (case incomingqueue n of
        [] \<Rightarrow> None
      | msg # q \<Rightarrow>
          (if ifc msg < length (interfaces n) then
             map_option (\<lambda>r. bindE r (\<lambda>l.
                 Inr (n\<lparr>incomingqueue := q, interfaces := (interfaces n)[ifc msg := l]\<rparr>)))
               (send_frame (ippacket msg) (msize msg) (interfaces n ! ifc msg))
           else Some (Inl Null_Pointer)))"

section \<open>Properties of the send buffer\<close>

text \<open>A frame accepted by \<open>send_frame\<close> is what \<open>send_data\<close> hands to one full-size \<open>sendto\<close>.\<close>

lemma send_data_whole:
  assumes "sbuffer l = Some frame" and "length frame = sbuffersz l" and "0 < sbuffersz l"
  shows "send_data (int (sbuffersz l) # rs) l =
    Some (Inr ([frame], l\<lparr>sbuffer := None, sbufferReady := False\<rparr>))"
  using assms
  by (simp add: send_data_def send_loop.simps [of "int (sbuffersz l) # rs"] send_loop.simps [of rs])

text \<open>Any split of the frame into positive chunks sends exactly the frame, in order.\<close>

lemma send_loop_chunks:
  assumes "\<forall>r \<in> set rs. 0 < r" and "sum_list rs = remBytes" and "0 \<le> off"
    and "nat off + nat remBytes = length frame"
  shows "\<exists>chunks. send_loop rs frame remBytes off sent = Some (off + remBytes, sent @ chunks)
    \<and> concat chunks = drop (nat off) frame"
  using assms
proof (induction rs arbitrary: remBytes off sent)
  case Nil
  then show ?case by (simp add: send_loop.simps [of "[]"])
next
  case (Cons r rs)
  let ?c = "take (nat r) (drop (nat off) frame)"
  have s: "0 \<le> sum_list rs" using Cons.prems(1) by (intro sum_list_nonneg) auto
  with Cons.prems have r: "0 < r" "0 < remBytes" "sum_list rs = remBytes - r" "0 \<le> off + r" by auto
  have "nat (off + r) + nat (remBytes - r) = length frame"
    using Cons.prems(3,4) r s by (simp add: nat_add_distrib nat_diff_distrib)
  with Cons.IH [of "remBytes - r" "off + r" "sent @ [?c]"] Cons.prems(1) r obtain chunks where
    c: "send_loop rs frame (remBytes - r) (off + r) (sent @ [?c])
        = Some (off + remBytes, sent @ ?c # chunks)"
      "concat chunks = drop (nat (off + r)) frame"
    by auto
  have "?c @ drop (nat (off + r)) frame = drop (nat off) frame"
    using r Cons.prems(3)
    by (metis add.commute append_take_drop_id drop_drop less_imp_le nat_add_distrib)
  with c r show ?case
    by (intro exI [of _ "?c # chunks"]) (simp add: send_loop.simps [of "r # rs"])
qed

lemma send_data_chunks:
  assumes "sbuffer l = Some frame" and "length frame = sbuffersz l"
    and "\<forall>r \<in> set rs. 0 < r" and "sum_list rs = int (sbuffersz l)"
  shows "\<exists>chunks. send_data rs l = Some (Inr (chunks, l\<lparr>sbuffer := None, sbufferReady := False\<rparr>))
    \<and> concat chunks = frame"
  using send_loop_chunks [OF assms(3,4), of 0 frame "[]"] assms(1,2)
  by (auto simp: send_data_def)

text \<open>A \<open>sendto\<close> that fails before the whole frame is out makes the code free a wrong address.\<close>

lemma send_loop_error:
  assumes "\<forall>r \<in> set rs. 0 \<le> r" and "sum_list rs < remBytes"
  shows "\<exists>sent'. send_loop (rs @ -1 # rs') frame remBytes off sent = Some (off + sum_list rs, sent')"
  using assms
proof (induction rs arbitrary: remBytes off sent)
  case Nil
  then show ?case by (simp add: send_loop.simps [of "-1 # rs'"])
next
  case (Cons r rs)
  then have "0 \<le> r" "0 \<le> sum_list rs" by (auto intro: sum_list_nonneg)
  with Cons.prems have r: "0 < remBytes" "r \<noteq> -1" "sum_list rs < remBytes - r" by auto
  with Cons.IH [of "remBytes - r" "off + r"] Cons.prems(1) show ?case
    by (simp add: send_loop.simps [of "r # rs @ -1 # rs'"] add.assoc)
qed

lemma send_data_error:
  assumes "sbuffer l = Some frame" and "\<forall>r \<in> set rs. 0 \<le> r" and "sum_list rs < int (sbuffersz l)"
  shows "send_data (rs @ -1 # rs') l = Some (Inl Bad_Free)"
  using send_loop_error [OF assms(2,3), of rs' frame 0 "[]"] assms(1,3)
  by (auto simp: send_data_def intro!: exI [of _ "sum_list rs"])

section \<open>Properties of the receive loop\<close>

lemma recv_loop_whole:
  assumes "length d \<le> MAXBUFF" and "rd16 d 2 = Inr (htons fl)" and "unat fl \<le> length d"
  shows "recv_loop (Datagram d p # rs) [] 0 0 None = Inr (Some (d, int (length d), Some p, rs))"
proof -
  have "uint fl \<le> int (length d)" using assms(3) unfolding uint_nat by (simp only: of_nat_le_iff)
  with assms(1,2) show ?thesis by simp
qed

lemma recv_data_whole:
  assumes "length d \<le> MAXBUFF" and "rd16 d 2 = Inr (htons fl)" and "unat fl \<le> length d"
    and "get_interfaceid_with_port (interfaces n) p = int i" and "i < length (interfaces n)"
  shows "recv_data (Datagram d p # rs) n =
    Inr (Some (n\<lparr>outgoingqueue := outgoingqueue n
      @ [\<lparr>datalen = length d, rnext = vip_local (interfaces n ! i), ippkt = d\<rparr>]\<rparr>, rs))"
  unfolding recv_data_def recv_loop_whole [OF assms(1-3)]
  using assms by (simp add: link_to_ip_ok MAXBUFF_def sizeof_packet_def)

text \<open>A frame longer than the receive buffer: the next datagram is appended to its count only.\<close>

lemma recv_data_oversized:
  assumes "MAXBUFF < length d" and "rd16 d 2 = Inr (htons fl)"
    and "MAXBUFF < unat fl" and "unat fl \<le> MAXBUFF + length d2" and "length d2 \<le> MAXBUFF"
    and "get_interfaceid_with_port (interfaces n) p2 = int i" and "i < length (interfaces n)"
  shows "recv_data (Datagram d p # Datagram d2 p2 # rs) n = Inl Indeterminate"
proof -
  have u: "\<not> uint fl \<le> int MAXBUFF" "uint fl \<le> int MAXBUFF + int (length d2)" "0 < length d2"
    using assms(3,4) unfolding uint_nat by linarith+
  have l: "length (take MAXBUFF d) = MAXBUFF" using assms(1) by simp
  have r: "rd16 (take MAXBUFF d) 2 = rd16 d 2"
    using assms(1) by (simp add: rd16_def MAXBUFF_def)
  let ?buf = "d2 @ drop (length d2) (take MAXBUFF d)"
  have "recv_loop (Datagram d p # Datagram d2 p2 # rs) [] 0 0 None
      = Inr (Some (?buf, int MAXBUFF + int (length d2), Some p2, rs))"
    using u l r assms(2,5) by (simp add: Let_def MAXBUFF_def)
  moreover have "length ?buf = MAXBUFF" using l assms(5) by simp
  ultimately show ?thesis
    using assms(6,7) u(3)
    by (simp add: recv_data_def transfer_link_to_ip_def get_bytes_def nat_add_distrib)
qed

lemma recv_data_unknown_port:
  assumes "recv_loop rs [] 0 0 None = Inr (Some (buf, tot, Some p, rs'))"
    and "p \<notin> remoteport ` set (interfaces n)"
  shows "recv_data rs n = Inl Out_Of_Bounds"
proof -
  have "get_interfaceid_with_port (interfaces n) p = -1"
    using assms(2) by (auto simp: get_interfaceid_with_port_def first_index_None split: option.splits
        dest!: first_index_SomeD)
  then show ?thesis using assms(1) by (simp add: recv_data_def interface_at_def)
qed

section \<open>Properties\<close>

text \<open>
  The send buffer transmits exactly the accepted frame.  When the socket is open and the buffer
  free, \<open>send_frame\<close> takes the frame and refuses the next one until it has been sent; however \<open>sendto\<close>
  splits it into positive chunks, the chunks concatenate to the frame, and afterwards the buffer is free
  again; but if a \<open>sendto\<close> fails before everything is out, the code frees an address it did not allocate.
\<close>

theorem send_buffer_transmits:
  assumes "s_local l \<noteq> -1" and "\<not> sbufferReady l" and "0 < length frame"
  shows "\<exists>l'. send_frame frame (length frame) l = Some (Inr l')
    \<and> (\<forall>frame2. send_frame frame2 (length frame2) l' = None)
    \<and> (\<forall>rs. (\<forall>r \<in> set rs. 0 < r) \<and> sum_list rs = int (length frame) \<longrightarrow>
         (\<exists>chunks l''. send_data rs l' = Some (Inr (chunks, l'')) \<and> concat chunks = frame
            \<and> \<not> sbufferReady l'' \<and> sbuffer l'' = None))
    \<and> (\<forall>rs rs'. (\<forall>r \<in> set rs. 0 \<le> r) \<and> sum_list rs < int (length frame) \<longrightarrow>
         send_data (rs @ -1 # rs') l' = Some (Inl Bad_Free))"
proof -
  let ?l = "l\<lparr>sbuffer := Some frame, sbuffersz := length frame, sbufferReady := True\<rparr>"
  have "send_frame frame (length frame) l = Some (Inr ?l)"
    using assms by (simp add: send_frame_def get_bytes_def)
  moreover have "\<forall>frame2. send_frame frame2 (length frame2) ?l = None"
    using assms(1) by (simp add: send_frame_def)
  moreover have "\<exists>chunks l''. send_data rs ?l = Some (Inr (chunks, l'')) \<and> concat chunks = frame
      \<and> \<not> sbufferReady l'' \<and> sbuffer l'' = None"
    if "\<forall>r \<in> set rs. 0 < r" "sum_list rs = int (length frame)" for rs
    using send_data_chunks [of ?l frame rs] that by auto
  moreover have "send_data (rs @ -1 # rs') ?l = Some (Inl Bad_Free)"
    if "\<forall>r \<in> set rs. 0 \<le> r" "sum_list rs < int (length frame)" for rs rs'
    using send_data_error [of ?l frame rs rs'] that by simp
  ultimately show ?thesis by (intro exI [of _ ?l]) blast
qed

definition sample_link :: link where
  "sample_link = \<lparr>s_local = 3, localip = ''localhost'', localport = 17000, remoteport = 17001, isup = True,
      sbuffer = None, sbufferReady = False, sbuffersz = 0, vip_local = 0x0A000001, vip_remote = 0x0A00000E\<rparr>"

theorem send_buffer_transmits_witness:
  "\<exists>l'. send_frame [1, 2, 3] (length [1, 2, 3 :: byte]) sample_link = Some (Inr l')
    \<and> send_data [2, -1] l' = Some (Inl Bad_Free)"
proof -
  have h: "s_local sample_link \<noteq> -1" "\<not> sbufferReady sample_link" "0 < length [1, 2, 3 :: byte]"
    by (simp_all add: sample_link_def)
  obtain l' where l: "send_frame [1, 2, 3] (length [1, 2, 3 :: byte]) sample_link = Some (Inr l')"
    and e: "\<And>rs rs'. (\<forall>r \<in> set rs. 0 \<le> r) \<and> sum_list rs < int (length [1, 2, 3 :: byte])
      \<Longrightarrow> send_data (rs @ -1 # rs') l' = Some (Inl Bad_Free)"
    using send_buffer_transmits [OF h] by blast
  have "send_data ([2] @ -1 # []) l' = Some (Inl Bad_Free)" by (rule e) simp
  with l show ?thesis by auto
qed

text \<open>
  A received frame is attributed by its UDP source port only.  From the port of a configured
  neighbour a whole datagram is queued with its bytes unchanged, under the local address of the first
  interface with that remote port; from any other port the code indexes \<open>_interfaces\<close> with -1.
\<close>

theorem recv_data_by_port:
  assumes "4 \<le> length d" and "length d \<le> MAXBUFF"
    and "unat (ntohs (word16 (d ! 2) (d ! 3))) \<le> length d"
  shows "recv_data (Datagram d p # rs) n =
    (case first_index (\<lambda>l. remoteport l = p) (interfaces n) of
       None \<Rightarrow> Inl Out_Of_Bounds
     | Some i \<Rightarrow> Inr (Some (n\<lparr>outgoingqueue := outgoingqueue n
         @ [\<lparr>datalen = length d, rnext = vip_local (interfaces n ! i), ippkt = d\<rparr>]\<rparr>, rs)))"
proof -
  let ?fl = "ntohs (word16 (d ! 2) (d ! 3))"
  have r: "rd16 d 2 = Inr (htons ?fl)" using assms(1) by (simp add: rd16_def eval_nat_numeral)
  show ?thesis
  proof (cases "first_index (\<lambda>l. remoteport l = p) (interfaces n)")
    case None
    then have "p \<notin> remoteport ` set (interfaces n)" by (auto simp: first_index_None)
    from recv_data_unknown_port [OF recv_loop_whole [OF assms(2) r assms(3)] this] None
    show ?thesis by simp
  next
    case (Some i)
    with recv_data_whole [OF assms(2) r assms(3), of n p i rs] first_index_SomeD [OF Some]
    show ?thesis by (simp add: get_interfaceid_with_port_def)
  qed
qed

definition sample_lone_node :: node where
  "sample_lone_node = \<lparr>interfaces = [sample_link], rtable = [], incomingqueue = [], outgoingqueue = [],
     timerQueue = [], console = []\<rparr>"

theorem recv_data_by_port_witness:
  "recv_data [Datagram [0x45, 0, 0, 4] 9999] sample_lone_node = Inl Out_Of_Bounds
   \<and> recv_data [Datagram [0x45, 0, 0, 4] 17001] sample_lone_node
     = Inr (Some (sample_lone_node\<lparr>outgoingqueue :=
         [\<lparr>datalen = 4, rnext = 0x0A000001, ippkt = [0x45, 0, 0, 4]\<rparr>]\<rparr>, []))"
proof -
  have h: "4 \<le> length [0x45, 0, 0, 4 :: byte]" "length [0x45, 0, 0, 4 :: byte] \<le> MAXBUFF"
    "unat (ntohs (word16 ([0x45, 0, 0, 4] ! 2) ([0x45, 0, 0, 4] ! 3))) \<le> length [0x45, 0, 0, 4 :: byte]"
    by (simp_all add: MAXBUFF_def ntohs_def) (simp add: word16_nat)
  from recv_data_by_port [OF h, of 9999 "[]" sample_lone_node] recv_data_by_port [OF h, of 17001 "[]" sample_lone_node]
  show ?thesis by (simp add: sample_lone_node_def sample_link_def)
qed

fun leaked :: "attempt list \<Rightarrow> int list" where
  "leaked (Setsockopt_Fails fd # p) = fd # leaked p"
| "leaked (Binds fd # p) = []"
| "leaked (_ # p) = leaked p"
| "leaked [] = []"

text \<open>
  \<open>create_socket\<close> takes the first address on which \<open>socket\<close>, \<open>setsockopt\<close> and \<open>bind\<close> all succeed and
  exits when there is none; apart from the socket it returns, the descriptors it leaves open are those
  on which \<open>setsockopt\<close> failed.
\<close>

theorem create_socket_first_usable:
  "create_socket (Some p) =
     (case find (\<lambda>a. case a of Binds fd \<Rightarrow> True | _ \<Rightarrow> False) p of
        Some (Binds fd) \<Rightarrow> Inr (fd, leaked p @ [fd])
      | _ \<Rightarrow> Inl (Exit 1))"
proof -
  have "create_loop p fds = (case find (\<lambda>a. case a of Binds fd \<Rightarrow> True | _ \<Rightarrow> False) p of
        Some (Binds fd) \<Rightarrow> Inr (fd, fds @ leaked p @ [fd]) | _ \<Rightarrow> Inl (Exit 1))" for fds
    by (induction p fds rule: create_loop.induct) (auto split: option.splits attempt.splits)
  from this [of "[]"] show ?thesis unfolding create_socket_def option.case by (simp only: append_Nil)
qed

end
