(* ===== verification/Node_System.thy ===== *)
theory Node_System
  imports Link_Layer
begin

text \<open>
  The node as a whole: the user commands of \<open>src/NodeImpl.cc\<close> once their arguments are parsed, the
  rounds of the threads (\<open>LinkLayer::send_and_receive\<close>, \<open>process_in_queue\<close>, \<open>process_out_queue\<close>,
  \<open>update_refresh_rt\<close>), the timer signal, and the runs that interleave them.  Each event is atomic here;
  the finer interleavings of the queue and of the send buffer are in \<open>Msg_Queue\<close> and \<open>Slot_Protocol\<close>,
  and \<open>Sending_Path\<close> relates them to the events.
\<close>

section \<open>Commands\<close>

definition set_link :: "nat \<Rightarrow> link \<Rightarrow> node \<Rightarrow> node" where
  "set_link i l n = n\<lparr>interfaces := (interfaces n)[i := l]\<rparr>"

definition prints :: "console_line list \<Rightarrow> node \<Rightarrow> node" where
  "prints msgs n = n\<lparr>console := console n @ msgs\<rparr>"

definition down_cmd :: "nat \<Rightarrow> node \<Rightarrow> fault + node" where
  "down_cmd interface n =
     bindE (interface_at (interfaces n) (int interface)) (\<lambda>l.
       let (msgs, l') = link_down l
       in remove_ifc_entry (vip_local l) (set_link interface l' (prints msgs n)))"

definition up_cmd :: "attempt list option \<Rightarrow> timeval \<Rightarrow> nat \<Rightarrow> node \<Rightarrow> fault + node" where
  "up_cmd ai now interface n =
     bindE (interface_at (interfaces n) (int interface)) (\<lambda>l.
     bindE (link_up ai l) (\<lambda>(msgs, l').
       Inr (add_ifc_entry now (vip_local l) (set_link interface l' (prints msgs n)))))"

section \<open>Thread rounds\<close>

text \<open>
  One round of \<open>send_and_receive\<close> of interface \<open>i\<close>: \<open>rd\<close> holds the datagrams when the socket is
  readable, \<open>wr\<close> the results of \<open>sendto\<close> when it is writable.
\<close>

definition recv_part :: "recv_result list option \<Rightarrow> node \<Rightarrow> (fault + node) option" where
  "recv_part rd n =
     (case rd of
        None \<Rightarrow> Some (Inr n)
      | Some rs \<Rightarrow>
          (case recv_data rs n of
             Inl f \<Rightarrow> Some (Inl f)
           | Inr None \<Rightarrow> None
           | Inr (Some (n', rs')) \<Rightarrow> Some (Inr n')))"

definition send_part :: "nat \<Rightarrow> int list option \<Rightarrow> node \<Rightarrow> (fault + node) option" where
  "send_part i wr n =
     (case wr of
        None \<Rightarrow> Some (Inr n)
      | Some results \<Rightarrow>
          if sbufferReady (interfaces n ! i)
          then map_option (\<lambda>r. bindE r (\<lambda>(sent, l). Inr (set_link i l n)))
                 (send_data results (interfaces n ! i))
          else Some (Inr n))"

definition send_and_receive ::
  "nat \<Rightarrow> recv_result list option \<Rightarrow> int list option \<Rightarrow> node \<Rightarrow> (fault + node) option" where
  "send_and_receive i rd wr n =
     (if i < length (interfaces n) \<and> s_local (interfaces n ! i) \<noteq> -1 then
        (case recv_part rd n of
           None \<Rightarrow> None
         | Some (Inl f) \<Rightarrow> Some (Inl f)
         | Some (Inr n') \<Rightarrow> send_part i wr n')
      else None)"

section \<open>Runs\<close>

datatype event =
    Link_Round nat "recv_result list option" "int list option"
  | In_Round
  | Out_Round "nat \<Rightarrow> timeval"
  | Rip_Round timeval
  | Timer_Signal int
  | Down_Cmd nat
  | Up_Cmd "attempt list option" timeval nat
  | Send_Cmd u32 u8 "byte list"

fun node_step :: "event \<Rightarrow> node \<Rightarrow> (fault + node) option" where
  "node_step (Link_Round i rd wr) n = send_and_receive i rd wr n"
| "node_step In_Round n = process_in_step n"
| "node_step (Out_Round clock) n = process_out_step clock n"
| "node_step (Rip_Round now) n = rip_timer_step now n"
| "node_step (Timer_Signal t) n = Some (Inr (n\<lparr>timerQueue := timerQueue n @ [t]\<rparr>))"
| "node_step (Down_Cmd i) n = Some (down_cmd i n)"
| "node_step (Up_Cmd ai now i) n = Some (up_cmd ai now i n)"
| "node_step (Send_Cmd dest proto data) n =
     Some (transfer_application_to_ip dest proto data (length data) n)"

text \<open>A node with its interfaces as \<open>add_interfaces\<close> leaves them: up, nothing buffered.\<close>

definition fresh_link :: "link \<Rightarrow> bool" where
  "fresh_link l \<longleftrightarrow> isup l \<and> sbuffer l = None \<and> \<not> sbufferReady l"

definition fresh_node :: "link list \<Rightarrow> node" where
  "fresh_node ifs = \<lparr>interfaces = ifs, rtable = [], incomingqueue = [], outgoingqueue = [],
     timerQueue = [], console = []\<rparr>"

text \<open>Reachable nodes: start as the constructor does, then any events that return.\<close>

inductive reachable :: "link list \<Rightarrow> node \<Rightarrow> bool" for ifs where
  start: "\<forall>l \<in> set ifs. fresh_link l \<Longrightarrow> rip_init clock (fresh_node ifs) = Inr n \<Longrightarrow> reachable ifs n"
| step: "reachable ifs n \<Longrightarrow> node_step ev n = Some (Inr n') \<Longrightarrow> reachable ifs n'"

section \<open>The node invariant\<close>

definition link_ok :: "link \<Rightarrow> bool" where
  "link_ok l \<longleftrightarrow> (case sbuffer l of None \<Rightarrow> \<not> sbufferReady l
     | Some f \<Rightarrow> sbufferReady l \<and> length f = sbuffersz l)"

definition ipmsg_ok :: "link list \<Rightarrow> ipmsg \<Rightarrow> bool" where
  "ipmsg_ok ifs m \<longleftrightarrow> ifc m < length ifs \<and> length (ippacket m) = msize m \<and> msize m \<le> sizeof_packet"

definition rcvmsg_ok :: "link list \<Rightarrow> rcvmsg \<Rightarrow> bool" where
  "rcvmsg_ok ifs m \<longleftrightarrow> rnext m \<in> my_addrs ifs \<and> length (ippkt m) = datalen m \<and> datalen m \<le> sizeof_packet"

definition node_inv :: "node \<Rightarrow> bool" where
  "node_inv n \<longleftrightarrow> rt_inv (interfaces n) (rtable n) \<and> list_all link_ok (interfaces n)
     \<and> list_all (ipmsg_ok (interfaces n)) (incomingqueue n)
     \<and> list_all (rcvmsg_ok (interfaces n)) (outgoingqueue n)"

text \<open>What no operation changes: the addresses and ports of the interfaces.\<close>

definition statics :: "node \<Rightarrow> (u32 \<times> u32 \<times> u16) list" where
  "statics n = map (\<lambda>l. (vip_local l, vip_remote l, remoteport l)) (interfaces n)"

definition same_ifs :: "node \<Rightarrow> node \<Rightarrow> bool" where
  "same_ifs n n' \<longleftrightarrow> node_inv n' \<and> interfaces n' = interfaces n"

lemma node_inv_print [simp]: "node_inv (print x n) = node_inv n"
  by (simp add: node_inv_def)

lemma same_ifs_simps [simp]: "node_inv n \<Longrightarrow> same_ifs n n" "same_ifs n (print x n') = same_ifs n n'"
  by (simp_all add: same_ifs_def)

subsection \<open>Sending\<close>

lemma interface_at_wp [wp]:
  "(\<And>l. l \<in> set ifs \<Longrightarrow> 0 \<le> i \<Longrightarrow> nat i < length ifs \<Longrightarrow> l = ifs ! nat i \<Longrightarrow> Q l) \<Longrightarrow> wpE (interface_at ifs i) Q"
  by (auto simp: interface_at_def)

lemma transfer_rip_to_ip_wp [wp]:
  assumes "node_inv n"
  shows "wpE (transfer_rip_to_ip ifid data datasz n) (same_ifs n)"
  unfolding transfer_rip_to_ip_def wpE_bindE
  by (rule interface_at_wp)
    (use assms in \<open>auto simp: build_ip_packet_eq same_ifs_def node_inv_def ipmsg_ok_def
       packet_data_cap_def sizeof_packet_def\<close>)

lemma fill_entries_wp: "(\<And>es. Q es) \<Longrightarrow> wpE (fill_entries nb i rt) Q"
  by (induction nb i rt arbitrary: Q rule: fill_entries.induct) (auto simp: Let_def)

lemma prepare_msg_ifc_wp [wp]: "node_inv n \<Longrightarrow> wpE (prepare_msg_ifc t ifid n) (same_ifs n)"
  unfolding prepare_msg_ifc_def Let_def wpE_bindE
  by (intro interface_at_wp fill_entries_wp transfer_rip_to_ip_wp)

lemma prepare_msg_wp [wp]: "node_inv n \<Longrightarrow> wpE (prepare_msg t n) (same_ifs n)"
proof -
  have "node_inv n \<Longrightarrow> wpE (prepare_loop t ids n) (same_ifs n)" for ids
  proof (induction ids arbitrary: n)
    case (Cons i ids)
    have "wpE (if isup l then prepare_msg_ifc t (int i) n else Inr n)
        (\<lambda>n'. wpE (prepare_loop t ids n') (same_ifs n))" for l
    proof (rule wpE_mono [of _ "same_ifs n"])
      show "wpE (if isup l then prepare_msg_ifc t (int i) n else Inr n) (same_ifs n)"
        using Cons.prems prepare_msg_ifc_wp by simp
      fix n' assume "same_ifs n n'"
      with Cons.IH [of n'] show "wpE (prepare_loop t ids n') (same_ifs n)"
        by (auto simp: same_ifs_def elim: wpE_mono)
    qed
    then show ?case unfolding prepare_loop.simps wpE_bindE by (intro interface_at_wp)
  qed simp
  then show "node_inv n \<Longrightarrow> ?thesis" by (simp add: prepare_msg_def)
qed

subsection \<open>Receiving\<close>

lemma read_entry_wp: "(\<And>e. Q e) \<Longrightarrow> wpE (read_entry data) Q"
  unfolding read_entry_def wpE_bindE by (intro wp) simp

lemma decode_seq_wp: "(\<And>es. Q es) \<Longrightarrow> wpE (decode_seq read_entry w k data) Q"
  by (induction k arbitrary: data Q) (simp_all add: read_entry_wp)

lemma update_route_table_wp:
  "rt_inv ifs rt \<Longrightarrow> next \<in> my_addrs ifs \<Longrightarrow> wpE (update_route_table clock data next ifs rt) (rt_inv ifs)"
  unfolding update_route_table_def update_loop_eq wpE_bindE
  by (intro wp decode_seq_wp) (simp add: apply_entries_inv)

lemma transfer_ip_to_rip_wp [wp]:
  assumes "node_inv n" and "next \<in> my_addrs (interfaces n)"
  shows "wpE (transfer_ip_to_rip clock data next n) (same_ifs n)"
proof -
  have "wpE (update_route_table clock (drop 2 data) next (interfaces n) (rtable n))
      (\<lambda>rt. same_ifs n (n\<lparr>rtable := rt\<rparr>))"
    by (rule wpE_mono [OF update_route_table_wp])
      (use assms in \<open>auto simp: same_ifs_def node_inv_def\<close>)
  with assms show ?thesis
    unfolding transfer_ip_to_rip_def Let_def wpE_bindE
    by (intro wp) (simp add: prepare_msg_wp)
qed

lemma ip_sum_loop_wp: "(\<And>s. Q s) \<Longrightarrow> wpE (ip_sum_loop p len acc) Q"
  by (induction p len acc rule: ip_sum_loop.induct)
    (subst ip_sum_loop.simps, auto split: list.splits)

lemma ip_sum_wp [wp]: "(\<And>s. Q s) \<Longrightarrow> wpE (ip_sum p len) Q"
  by (simp add: ip_sum_def ip_sum_loop_wp Let_def)

lemma transfer_transit_data_wp [wp]:
  assumes "node_inv n" and "length data = len"
  shows "wpE (transfer_transit_data dest data len n) (same_ifs n)"
  using assms
  by (auto simp: transfer_transit_data_def Let_def get_bytes_def put_def same_ifs_def node_inv_def
      ipmsg_ok_def dest: get_interface_SomeD split: option.splits)

lemma forward_packet_wp:
  assumes "node_inv n" and "length data = len" and "12 \<le> len"
  shows "wpE (forward_packet dest data len n) (same_ifs n)"
proof -
  have "wpE (put sizeof_packet data TTL_OFFSET (bytes16 t)) (\<lambda>data.
      wpE (put sizeof_packet data CSUM_OFFSET (bytes16 0)) (\<lambda>data.
      wpE (ip_sum data (int sizeof_iphdr)) (\<lambda>csum.
      wpE (put sizeof_packet data CSUM_OFFSET (bytes16 csum)) (\<lambda>data.
        wpE (transfer_transit_data dest data len n) (same_ifs n)))))" for t
    by (intro wp) (use assms in \<open>auto simp: TTL_OFFSET_def CSUM_OFFSET_def\<close>)
  then show ?thesis
    unfolding forward_packet_def Let_def wpE_bindE using assms(1) by (intro wp) simp
qed

lemma deliver_packet_wp: "node_inv n \<Longrightarrow> wpE (deliver_packet iid data len pos proto n) (same_ifs n)"
  unfolding deliver_packet_def wpE_bindE by (intro wp) simp

lemma transfer_data_wp:
  assumes "node_inv n" and "next \<in> my_addrs (interfaces n)" and "length data = len"
  shows "wpE (transfer_data clock data len next n) (same_ifs n)"
proof -
  obtain i where i: "get_interface (interfaces n) next = Some i" using get_interface_my [OF assms(2)] ..
  show ?thesis
    unfolding transfer_data_def Let_def wpE_bindE i option.case
    by (intro wp) (use assms in \<open>auto simp: CSUM_OFFSET_def
      intro: transfer_ip_to_rip_wp deliver_packet_wp forward_packet_wp\<close>)
qed

lemma process_out_step_wp:
  assumes "node_inv n" and "process_out_step clock n = Some r"
  shows "wpE r (same_ifs n)"
proof -
  from assms(2) obtain msg q where q: "outgoingqueue n = msg # q"
    and r: "r = bindE (get_bytes (ippkt msg) (datalen msg)) (\<lambda>src.
                bindE (put sizeof_packet [] 0 src) (\<lambda>pkt.
                  transfer_data clock pkt (datalen msg) (rnext msg) (n\<lparr>outgoingqueue := q\<rparr>)))"
    by (auto simp: process_out_step_def split: list.splits)
  let ?n = "n\<lparr>outgoingqueue := q\<rparr>"
  have n: "node_inv ?n" "rcvmsg_ok (interfaces n) msg" using assms(1) q by (auto simp: node_inv_def)
  then have "wpE (transfer_data clock (ippkt msg) (datalen msg) (rnext msg) ?n) (same_ifs ?n)"
    by (intro transfer_data_wp) (auto simp: rcvmsg_ok_def)
  moreover have "same_ifs ?n = same_ifs n" by (simp add: same_ifs_def fun_eq_iff)
  ultimately show ?thesis
    using n(2) by (simp add: r get_bytes_def put_def rcvmsg_ok_def)
qed

lemma transfer_application_to_ip_wp:
  assumes "node_inv n"
  shows "wpE (transfer_application_to_ip dest proto data datasz n) (same_ifs n)"
  using assms
  by (auto simp: transfer_application_to_ip_def Let_def build_ip_packet_eq same_ifs_def node_inv_def
      ipmsg_ok_def packet_data_cap_def sizeof_packet_def dest: get_interface_SomeD split: option.splits)

lemma recv_loop_wp: "(\<And>x. Q x) \<Longrightarrow> wpE (recv_loop rs buf tot fl port) Q"
proof (induction rs buf tot fl port arbitrary: Q rule: recv_loop.induct)
  case (2 r rs buf tot fl port)
  obtain nb buf' port' where r: "recvfrom r buf port = (nb, buf', port')" by (metis prod_cases3)
  have "wpE (if tot = 0 then bindE (rd16 buf' 2) (\<lambda>w. Inr (ntohs w)) else Inr fl) (\<lambda>_. True)"
    by (auto intro: wp)
  then show ?case
    unfolding recv_loop.simps r prod.case wpE_bindE Let_def
    by (rule wpE_conj) (auto intro!: "2.IH" [OF r [symmetric]] simp: "2.prems" simp del: bindE_simps)
qed simp

lemma recv_data_wp:
  assumes "node_inv n"
  shows "wpE (recv_data rs n) (\<lambda>res. case res of None \<Rightarrow> True | Some (n', rs') \<Rightarrow> same_ifs n n')"
  unfolding recv_data_def wpE_bindE
proof (rule recv_loop_wp)
  fix x
  show "wpE (case x of None \<Rightarrow> Inr None
     | Some (buf, tot, port, rs') \<Rightarrow>
         (case port of None \<Rightarrow> Inl Indeterminate
          | Some p \<Rightarrow> bindE (interface_at (interfaces n) (get_interfaceid_with_port (interfaces n) p)) (\<lambda>l.
              if tot < 0 then Inl Out_Of_Bounds
              else bindE (transfer_link_to_ip buf (nat tot) (vip_local l) n) (\<lambda>n'. Inr (Some (n', rs'))))))
    (\<lambda>res. case res of None \<Rightarrow> True | Some (n', rs') \<Rightarrow> same_ifs n n')"
    using assms
    by (auto simp: transfer_link_to_ip_def get_bytes_def put_def same_ifs_def node_inv_def rcvmsg_ok_def
        split: option.splits intro!: interface_at_wp)
qed

subsection \<open>Changing a link\<close>

definition link_static :: "link \<Rightarrow> u32 \<times> u32 \<times> u16" where
  "link_static l = (vip_local l, vip_remote l, remoteport l)"

definition keeps :: "node \<Rightarrow> node \<Rightarrow> bool" where
  "keeps n n' \<longleftrightarrow> node_inv n' \<and> statics n' = statics n"

lemma statics_eq: "statics n = map link_static (interfaces n)"
  by (simp add: statics_def link_static_def)

lemma same_ifs_keeps: "same_ifs n n' \<Longrightarrow> keeps n n'"
  by (simp add: same_ifs_def keeps_def statics_def)

lemma keeps_trans: "keeps n n' \<Longrightarrow> keeps n' n'' \<Longrightarrow> keeps n n''"
  by (simp add: keeps_def)

lemma my_addrs_static: "map link_static ifs = map link_static ifs' \<Longrightarrow> my_addrs ifs = my_addrs ifs'"
proof -
  have "my_addrs ifs = fst ` set (map link_static ifs)" for ifs
    by (simp add: my_addrs_def link_static_def image_image)
  then show "map link_static ifs = map link_static ifs' \<Longrightarrow> ?thesis" by metis
qed

lemma rt_inv_cong: "my_addrs ifs = my_addrs ifs' \<Longrightarrow> rt_inv ifs rt = rt_inv ifs' rt"
  by (simp add: rt_inv_def good_entry_def)

lemma node_inv_set_link:
  assumes "node_inv n" and "i < length (interfaces n)" and "link_ok l"
    and "link_static l = link_static (interfaces n ! i)"
  shows "keeps n (set_link i l n)"
proof -
  have m: "map link_static ((interfaces n)[i := l]) = map link_static (interfaces n)"
    using assms(2,4) by (simp add: map_update list_update_same_conv)
  note a = my_addrs_static [OF m]
  have "list_all link_ok ((interfaces n)[i := l])"
    using assms(1-3) by (auto simp: node_inv_def list_all_length nth_list_update)
  moreover have "ipmsg_ok ((interfaces n)[i := l]) = ipmsg_ok (interfaces n)"
    "rcvmsg_ok ((interfaces n)[i := l]) = rcvmsg_ok (interfaces n)"
    by (simp_all add: fun_eq_iff ipmsg_ok_def rcvmsg_ok_def a)
  ultimately show ?thesis
    using assms(1) rt_inv_cong [OF a]
    by (simp add: keeps_def node_inv_def set_link_def statics_eq m)
qed

lemma link_ok_nth: "node_inv n \<Longrightarrow> i < length (interfaces n) \<Longrightarrow> link_ok (interfaces n ! i)"
  by (simp add: node_inv_def list_all_length)

lemma process_in_step_wp:
  assumes "node_inv n" and "process_in_step n = Some r"
  shows "wpE r (keeps n)"
proof -
  from assms(2) obtain msg q where q: "incomingqueue n = msg # q"
    by (auto simp: process_in_step_def split: list.splits)
  let ?l = "interfaces n ! ifc msg" and ?n = "n\<lparr>incomingqueue := q\<rparr>"
  have m: "ipmsg_ok (interfaces n) msg" and n: "node_inv ?n"
    using assms(1) q by (auto simp: node_inv_def)
  from m have i: "ifc msg < length (interfaces n)" by (simp add: ipmsg_ok_def)
  from assms(2) q i obtain s where s: "send_frame (ippacket msg) (msize msg) ?l = Some s"
    and r: "r = bindE s (\<lambda>l. Inr (n\<lparr>incomingqueue := q, interfaces := (interfaces n)[ifc msg := l]\<rparr>))"
    by (auto simp: process_in_step_def)
  have "wpE s (\<lambda>l. link_ok l \<and> link_static l = link_static ?l)"
    using s m link_ok_nth [OF assms(1) i]
    by (auto simp: send_frame_def get_bytes_def link_ok_def link_static_def ipmsg_ok_def
        split: if_splits)
  then show ?thesis
    unfolding r wpE_bindE
  proof (rule wpE_mono)
    fix l assume "link_ok l \<and> link_static l = link_static ?l"
    with node_inv_set_link [OF n, of "ifc msg" l] i have "keeps ?n (set_link (ifc msg) l ?n)" by simp
    then show "wpE (Inr (n\<lparr>incomingqueue := q, interfaces := (interfaces n)[ifc msg := l]\<rparr>)) (keeps n)"
      by (simp add: keeps_def set_link_def statics_def)
  qed
qed

lemma down_cmd_wp: "node_inv n \<Longrightarrow> wpE (down_cmd i n) (keeps n)"
  unfolding down_cmd_def wpE_bindE
proof (rule interface_at_wp)
  fix l assume n: "node_inv n" and i: "nat (int i) < length (interfaces n)" "l = interfaces n ! nat (int i)"
  obtain msgs l' where d: "link_down l = (msgs, l')" by (metis surj_pair)
  then have l': "link_ok l'" "link_static l' = link_static l"
    using link_ok_nth [OF n i(1)] i(2) by (auto simp: link_down_def link_ok_def link_static_def split: option.splits)
  let ?m = "prints msgs n"
  have "node_inv ?m" using n by (simp add: node_inv_def prints_def)
  from node_inv_set_link [OF this, of i l'] l' i
  have k: "keeps n (set_link i l' ?m)" by (simp add: keeps_def statics_def prints_def)
  let ?k = "set_link i l' ?m"
  let ?k' = "?k\<lparr>rtable := remove_loop (vip_local l) (rtable ?k) (rtable ?k)\<rparr>"
  have "node_inv ?k'" using k remove_inv by (simp add: keeps_def node_inv_def)
  then have "wpE (prepare_msg 2 ?k') (same_ifs ?k')" by (rule prepare_msg_wp)
  then have "wpE (prepare_msg 2 ?k') (keeps n)"
    by (rule wpE_mono) (use k in \<open>auto simp: same_ifs_def keeps_def statics_def\<close>)
  then show "wpE (let (msgs, l') = link_down l
      in remove_ifc_entry (vip_local l) (set_link i l' (prints msgs n))) (keeps n)"
    by (simp add: d remove_ifc_entry_def)
qed

lemma create_socket_wp: "(\<And>x. Q x) \<Longrightarrow> wpE (create_socket ai) Q"
proof -
  assume Q: "\<And>x. Q x"
  have "wpE (create_loop p fds) Q" for p fds
    by (induction p fds rule: create_loop.induct) (auto simp: Q)
  then show ?thesis by (simp add: create_socket_def split: option.split)
qed

lemma link_up_wp:
  "link_ok l \<Longrightarrow> wpE (link_up ai l) (\<lambda>(msgs, l'). link_ok l' \<and> link_static l' = link_static l)"
  by (auto simp: link_up_def Let_def link_ok_def link_static_def split: option.splits
      intro!: create_socket_wp)

lemma up_cmd_wp: "node_inv n \<Longrightarrow> wpE (up_cmd ai now i n) (keeps n)"
  unfolding up_cmd_def wpE_bindE
proof (rule interface_at_wp)
  fix l assume n: "node_inv n" and i: "nat (int i) < length (interfaces n)" "l = interfaces n ! nat (int i)"
  have "link_ok l" using link_ok_nth [OF n i(1)] i(2) by simp
  from link_up_wp [OF this] show "wpE (link_up ai l)
      (\<lambda>x. wpE (case x of (msgs, l') \<Rightarrow>
        Inr (add_ifc_entry now (vip_local l) (set_link i l' (prints msgs n)))) (keeps n))"
  proof (rule wpE_mono, clarsimp)
    fix msgs l' assume l': "link_ok l'" "link_static l' = link_static l"
    have "node_inv (prints msgs n)" using n by (simp add: node_inv_def prints_def)
    from node_inv_set_link [OF this, of i l'] l' i
    have k: "keeps n (set_link i l' (prints msgs n))" by (simp add: keeps_def statics_def prints_def)
    let ?k = "set_link i l' (prints msgs n)"
    have "vip_local l \<in> my_addrs (interfaces n)" using i by auto
    moreover have "my_addrs (interfaces ?k) = my_addrs (interfaces n)"
      using k by (intro my_addrs_static) (simp add: keeps_def statics_eq)
    ultimately have "good_entry (interfaces ?k) (vip_local l) (own_entry now (vip_local l))"
      by (intro good_own_entry) simp
    with k show "keeps n (add_ifc_entry now (vip_local l) ?k)"
      by (simp add: keeps_def node_inv_def add_ifc_entry_def statics_def rt_inv_assign)
  qed
qed

subsection \<open>Every event, every run\<close>

text \<open>
  The outcome of an event in a node that satisfies the invariant: the invariant holds again and the
  interfaces keep their addresses, no call went through a null pointer, and a wrong address is freed
  only by a round of a link of the node that has a frame in its buffer and whose \<open>sendto\<close> results are not positive
  chunks that make up this frame.
\<close>

definition sends_whole :: "int list \<Rightarrow> nat \<Rightarrow> bool" where
  "sends_whole results sz \<longleftrightarrow> (\<forall>r \<in> set results. 0 < r) \<and> sum_list results = int sz"

definition good_outcome :: "event \<Rightarrow> node \<Rightarrow> fault + node \<Rightarrow> bool" where
  "good_outcome ev n r \<longleftrightarrow>
     (case r of
        Inr n' \<Rightarrow> keeps n n'
      | Inl f \<Rightarrow> f \<noteq> Null_Pointer
          \<and> (f = Bad_Free \<longrightarrow> (\<exists>i rd results. ev = Link_Round i rd (Some results)
               \<and> i < length (interfaces n) \<and> sbufferReady (interfaces n ! i)
               \<and> \<not> sends_whole results (sbuffersz (interfaces n ! i)))))"

lemma good_outcome_wp: "wpE r (keeps n) \<Longrightarrow> good_outcome ev n r"
  by (cases r) (auto simp: good_outcome_def)

lemma wpE_keeps: "wpE r (same_ifs n) \<Longrightarrow> wpE r (keeps n)"
  by (erule wpE_mono) (rule same_ifs_keeps)

lemma send_part_good:
  assumes "node_inv n" and "i < length (interfaces n)" and "send_part i wr n = Some r"
  shows "case r of Inr n' \<Rightarrow> keeps n n'
    | Inl f \<Rightarrow> f \<noteq> Null_Pointer
        \<and> (\<exists>results. wr = Some results \<and> sbufferReady (interfaces n ! i)
             \<and> \<not> sends_whole results (sbuffersz (interfaces n ! i)))"
proof (cases wr)
  case None
  with assms show ?thesis by (auto simp: send_part_def keeps_def)
next
  case (Some results)
  let ?l = "interfaces n ! i"
  have ok: "link_ok ?l" by (rule link_ok_nth [OF assms(1,2)])
  show ?thesis
  proof (cases "sbufferReady ?l")
    case False
    with assms Some show ?thesis by (auto simp: send_part_def keeps_def)
  next
    case True
    with ok obtain frame where f: "sbuffer ?l = Some frame" "length frame = sbuffersz ?l"
      by (auto simp: link_ok_def split: option.splits)
    from True Some assms(3) obtain d where d: "send_data results ?l = Some d"
      and r: "r = bindE d (\<lambda>(sent, l). Inr (set_link i l n))"
      by (auto simp: send_part_def)
    show ?thesis
    proof (cases d)
      case (Inl e)
      with d f have "e = Bad_Free" by (auto simp: send_data_def split: if_splits)
      moreover have "\<not> sends_whole results (sbuffersz ?l)"
        using send_data_chunks [OF f, of results] d Inl by (auto simp: sends_whole_def)
      ultimately show ?thesis using Some Inl r True by simp
    next
      case (Inr x)
      obtain sent l where x: "x = (sent, l)" by (cases x)
      with d f Inr have "l = ?l\<lparr>sbuffer := None, sbufferReady := False\<rparr>"
        by (auto simp: send_data_def split: if_splits)
      then have "keeps n (set_link i l n)"
        by (intro node_inv_set_link assms) (simp_all add: link_ok_def link_static_def)
      with r Inr x show ?thesis by simp
    qed
  qed
qed

lemma link_round_good:
  assumes n: "node_inv n" and s: "send_and_receive i rd wr n = Some r"
  shows "good_outcome (Link_Round i rd wr) n r"
proof -
  have i: "i < length (interfaces n)" using s by (auto simp: send_and_receive_def split: if_splits)
  obtain p where p: "recv_part rd n = Some p"
    using s i by (auto simp: send_and_receive_def split: if_splits option.splits)
  have w: "wpE p (same_ifs n)"
  proof (cases rd)
    case (Some rs)
    with p recv_data_wp [OF n, of rs] show ?thesis
      by (auto simp: recv_part_def wpE_def split: option.splits sum.splits)
  qed (use p n in \<open>auto simp: recv_part_def\<close>)
  show ?thesis
  proof (cases p)
    case (Inl f)
    with s p w show ?thesis
      by (auto simp: send_and_receive_def good_outcome_def split: if_splits)
  next
    case (Inr n1)
    with w have n1: "node_inv n1" "interfaces n1 = interfaces n" by (auto simp: same_ifs_def)
    then have st: "statics n1 = statics n" by (simp add: statics_def)
    have "send_part i wr n1 = Some r"
      using s p Inr by (auto simp: send_and_receive_def split: if_splits)
    from send_part_good [OF n1(1) _ this] i n1(2) st show ?thesis
      by (cases r) (auto simp: good_outcome_def keeps_def)
  qed
qed

lemma rip_timer_step_wp:
  assumes "node_inv n" and "rip_timer_step now n = Some r"
  shows "wpE r (same_ifs n)"
proof -
  from assms(2) obtain t q where q: "timerQueue n = t # q"
    by (auto simp: rip_timer_step_def split: list.splits)
  let ?n = "n\<lparr>timerQueue := q\<rparr>"
  have n: "node_inv ?n" using assms(1) by (simp add: node_inv_def)
  have e: "same_ifs ?n = same_ifs n" by (simp add: same_ifs_def fun_eq_iff)
  have "same_ifs n (refresh_route_table now ?n)"
    using n refresh_inv [of ?n now] by (auto simp: same_ifs_def node_inv_def refresh_route_table_def)
  with prepare_msg_wp [OF n, of 2] n assms(2) show ?thesis
    unfolding e by (auto simp: rip_timer_step_def q Let_def same_ifs_def)
qed

lemma node_step_good:
  assumes "node_inv n" and "node_step ev n = Some r"
  shows "good_outcome ev n r"
proof (cases ev)
  case (Link_Round i rd wr)
  with assms show ?thesis by (simp add: link_round_good)
next
  case (Timer_Signal t)
  with assms show ?thesis by (auto simp: good_outcome_def keeps_def node_inv_def statics_def)
qed (use assms in \<open>auto intro!: good_outcome_wp
    intro: process_in_step_wp wpE_keeps process_out_step_wp rip_timer_step_wp down_cmd_wp up_cmd_wp
      transfer_application_to_ip_wp\<close>)

lemma init_loop_inv:
  "rt_inv ifs rt \<Longrightarrow> set ls \<subseteq> set ifs \<Longrightarrow> rt_inv ifs (init_loop clock i ls rt)"
proof (induction ls arbitrary: i rt)
  case (Cons l ls)
  then have "vip_local l \<in> my_addrs ifs" by (auto simp: my_addrs_def)
  with Cons show ?case by (simp add: rt_inv_assign good_own_entry)
qed simp

lemma rip_init_inv:
  assumes "\<forall>l \<in> set ifs. fresh_link l" and "rip_init clock (fresh_node ifs) = Inr n"
  shows "node_inv n \<and> interfaces n = ifs"
proof -
  let ?n = "(fresh_node ifs)\<lparr>rtable := init_loop clock 0 ifs []\<rparr>"
  have "node_inv ?n"
    using assms(1) init_loop_inv [OF rt_inv_empty, of ifs ifs clock 0]
    by (simp add: node_inv_def fresh_node_def list_all_iff link_ok_def fresh_link_def)
  from prepare_msg_wp [OF this, of 1] assms(2) show ?thesis
    by (auto simp: rip_init_def fresh_node_def same_ifs_def wpE_def)
qed

lemma reachable_keeps:
  "reachable ifs n \<Longrightarrow> node_inv n \<and> statics n = map link_static ifs"
proof (induction rule: reachable.induct)
  case (start clock n)
  then show ?case using rip_init_inv by (simp add: statics_eq)
next
  case (step n ev n')
  then show ?case using node_step_good [of n ev "Inr n'"] by (auto simp: good_outcome_def keeps_def)
qed

section \<open>A sample run\<close>

lemma fresh_A: "\<forall>l \<in> set A_ifs. fresh_link l"
  by (simp add: fresh_link_def sample_defs)

lemma map_find_A: "map_find A_rt 0x0A000001 = Some (route 0x0A000001 0 0x0A000001 100)"
  by (simp add: A_rt_def)

text \<open>Node A after its constructor.\<close>

definition A_start :: node where
  "A_start = A_node\<lparr>incomingqueue := [rip_ipmsg 1 A_ifs A_rt 0]\<rparr>"

lemma rip_init_A: "rip_init (\<lambda>_. at_sec 100) (fresh_node A_ifs) = Inr A_start"
proof -
  have i: "init_loop (\<lambda>_. at_sec 100) 0 A_ifs [] = A_rt"
    by (simp add: sample_defs own_entry_def RIP_MASK_def)
  have u: "up_ids A_ifs = [0]" by (simp add: up_ids_def sample_defs)
  have "length A_rt \<le> MAX_ENTRIES" by (simp add: A_rt_def MAX_ENTRIES_def)
  then show ?thesis
    by (simp add: rip_init_def fresh_node_def i prepare_msg_eq u A_start_def A_node_def node_of_def)
qed

lemma reachable_A: "reachable A_ifs A_start"
  using fresh_A rip_init_A by (rule reachable.start)

lemma A_start_sel [simp]:
  "interfaces A_start = A_ifs" "rtable A_start = A_rt" "outgoingqueue A_start = []"
  by (simp_all add: A_start_def A_node_def node_of_def)

section \<open>Properties\<close>

text \<open>
  In every node that any interleaving of receptions, timer rounds and commands can reach, the
  next hop stored for a destination is the address of one of the node's interfaces, so the lookup that
  forwarding performs for a known destination always yields an interface.
\<close>

theorem reachable_routes_resolve:
  assumes "reachable ifs n" and "map_find (rtable n) dest = Some w"
  shows "\<exists>i. get_interface (interfaces n) (get_next_address (rtable n) dest DEFAULT_ADDR) = Some i
    \<and> i < length (interfaces n) \<and> vip_local (interfaces n ! i) = next_hop w"
proof -
  have inv: "rt_inv (interfaces n) (rtable n)"
    using reachable_keeps [OF assms(1)] by (simp add: node_inv_def)
  have "next_hop w \<in> my_addrs (interfaces n)"
    using rt_inv_find [OF inv assms(2)] by (simp add: good_entry_def)
  then obtain i where "get_interface (interfaces n) (next_hop w) = Some i" using get_interface_my by blast
  with get_interface_SomeD [OF this] show ?thesis
    using get_next_address_eq [OF inv, of dest DEFAULT_ADDR] assms(2) by auto
qed

theorem reachable_routes_resolve_witness:
  "\<exists>i. get_interface A_ifs (get_next_address A_rt 0x0A000001 DEFAULT_ADDR) = Some i \<and> i < length A_ifs"
  using reachable_routes_resolve [OF reachable_A] map_find_A by auto

text \<open>
  C6: in every reachable node, whatever event comes next and whatever bytes it carries: the event
  does not call a method of a null interface; it frees a wrong address only in a round of a link with a frame in
  its send buffer, when the results of \<open>sendto\<close> are not positive counts that add up to the size of this frame; when
  it returns, the node is reachable again, satisfies the invariant, and its interfaces have the addresses and ports
  they started with.
\<close>

theorem reachable_event_safe:
  assumes "reachable ifs n" and "node_step ev n = Some r"
  shows "good_outcome ev n r
    \<and> (\<forall>n'. r = Inr n' \<longrightarrow> reachable ifs n' \<and> statics n' = map link_static ifs)"
proof (intro conjI allI impI)
  show "good_outcome ev n r"
    using node_step_good reachable_keeps assms by blast
  fix n' assume "r = Inr n'"
  with assms show r: "reachable ifs n'" by (blast intro: reachable.step)
  with reachable_keeps show "statics n' = map link_static ifs" by blast
qed

theorem reachable_event_safe_witness:
  "good_outcome (Down_Cmd 0) A_start (down_cmd 0 A_start)"
  using reachable_event_safe [OF reachable_A, of "Down_Cmd 0"] by simp

text \<open>
  C28: \<open>down\<close> on an existing interface withdraws exactly the interface's own address and the routes
  through it, and closes the socket; no response processed afterwards brings the own address back.
\<close>

theorem down_cmd_withdraws:
  assumes "node_inv n" and "down_cmd i n = Inr n'"
  shows "i < length (interfaces n) \<and> \<not> isup (interfaces n' ! i) \<and> s_local (interfaces n' ! i) = -1
    \<and> (let a = vip_local (interfaces n ! i) in
        (\<forall>k. map_find (rtable n') k =
           (case map_find (rtable n) k of None \<Rightarrow> None
            | Some w \<Rightarrow> if next_hop w = a \<or> k = a then None else Some w))
        \<and> (\<forall>clock data next rt. update_route_table clock data next (interfaces n') (rtable n') = Inr rt
              \<longrightarrow> map_find rt a = None))"
proof -
  let ?a = "vip_local (interfaces n ! i)"
  let ?l = "(interfaces n ! i)\<lparr>s_local := -1, isup := False\<rparr>"
  obtain msgs where i: "i < length (interfaces n)"
    and p: "prepare_msg 2 (n\<lparr>console := console n @ msgs, interfaces := (interfaces n)[i := ?l],
              rtable := remove_loop ?a (rtable n) (rtable n)\<rparr>) = Inr n'"
    using assms(2)
    by (auto simp: down_cmd_def interface_at_def link_down_def remove_ifc_entry_def set_link_def
        prints_def Let_def split: if_splits)
  from prepare_msg_rtable [OF p] have n': "rtable n' = remove_loop ?a (rtable n) (rtable n)"
    "interfaces n' = (interfaces n)[i := ?l]" by simp_all
  have inv: "map_invar (rtable n)" using assms(1) by (simp add: node_inv_def rt_inv_def)
  have f: "\<forall>k. map_find (rtable n') k = (case map_find (rtable n) k of None \<Rightarrow> None
            | Some w \<Rightarrow> if next_hop w = ?a \<or> k = ?a then None else Some w)"
    by (auto simp: n' remove_loop_eq [OF inv] map_find_filter [OF inv] split: option.splits)
  have "vip_local (interfaces n' ! i) \<in> my_addrs (interfaces n')" using i n'(2) by (intro vip_local_nth) simp
  then have "?a \<in> my_addrs (interfaces n')" using i n'(2) by simp
  moreover have "map_find (rtable n') ?a = None" using f by (simp split: option.splits)
  ultimately have "\<forall>clock data next rt. update_route_table clock data next (interfaces n') (rtable n') = Inr rt
      \<longrightarrow> map_find rt ?a = None"
    using update_route_table_own by metis
  with f i n'(2) show ?thesis by (simp add: Let_def)
qed

theorem down_cmd_withdraws_witness:
  "\<exists>n'. down_cmd 0 B_node = Inr n' \<and> map_find (rtable n') 0x0A000001 = None
     \<and> map_find (rtable n') 0x0A00000A = Some (route 0x0A00000A 1 0x0A000009 101)"
proof -
  have b: "node_inv B_node"
    using rt_inv_B by (simp add: node_inv_def B_node_def node_of_def) (simp add: link_ok_def sample_defs)
  have l: "length (interfaces B_node) = 2" "rtable B_node = B_rt" "length B_rt = 4"
    "vip_local (interfaces B_node ! 0) = 0x0A00000E"
    by (simp_all add: B_node_def node_of_def B_ifs_def B_rt_def link_of_def)
  have "length (remove_loop a B_rt B_rt) \<le> MAX_ENTRIES" for a
    unfolding remove_loop_eq [OF map_invar_B] using length_filter_le
    by (rule order_trans) (simp add: l(3) MAX_ENTRIES_def)
  then obtain n' where d: "down_cmd 0 B_node = Inr n'"
    using l by (auto simp: down_cmd_def interface_at_def link_down_def remove_ifc_entry_def set_link_def
        prints_def prepare_msg_eq)
  from down_cmd_withdraws [OF b d] have
    "map_find (rtable n') k = (case map_find B_rt k of None \<Rightarrow> None
       | Some w \<Rightarrow> if next_hop w = 0x0A00000E \<or> k = 0x0A00000E then None else Some w)" for k
    by (simp add: l)
  with d show ?thesis by (auto simp: B_rt_def route_def)
qed

end
