(* ===== verification/Delivery.thy ===== *)
theory Delivery
  imports Node_System
begin

text \<open>
  One hop: a packet queued by a sender goes through \<open>send_frame\<close> and \<open>send_data\<close>, arrives as one
  datagram, and is taken through \<open>recv_data\<close> and \<open>process_out_queue\<close> of the receiver.
\<close>

section \<open>The sender's half\<close>

definition idle_link :: "link \<Rightarrow> bool" where
  "idle_link l \<longleftrightarrow> s_local l \<noteq> -1 \<and> \<not> sbufferReady l"

lemma send_frame_then_data:
  assumes "idle_link l" and "length frame = sz" and "0 < sz"
  shows "\<exists>l'. send_frame frame sz l = Some (Inr l') \<and> link_static l' = link_static l
    \<and> send_data [int sz] l' = Some (Inr ([frame], l'\<lparr>sbuffer := None, sbufferReady := False\<rparr>))"
proof -
  let ?l = "l\<lparr>sbuffer := Some frame, sbuffersz := sz, sbufferReady := True\<rparr>"
  have "send_frame frame sz l = Some (Inr ?l)"
    using assms by (simp add: send_frame_def idle_link_def get_bytes_def)
  moreover have "send_data [int sz] ?l = Some (Inr ([frame], ?l\<lparr>sbuffer := None, sbufferReady := False\<rparr>))"
    using send_data_whole [of ?l frame "[]"] assms by simp
  ultimately show ?thesis by (auto simp: link_static_def)
qed

section \<open>The receiver's half\<close>

lemma rd16_tot_len: "rd16 (iphdr_bytes h @ d) 2 = Inr (tot_len h)"
  by (simp add: rd16_def iphdr_bytes_def bytes16_def bytes32_def)

lemma fresh_header_sel [simp]:
  "ihl (fresh_header s t p z) = MIN_HDR_LEN" "protocol (fresh_header s t p z) = p"
  "tot_len (fresh_header s t p z) = htons (of_nat (20 + z))" "daddr (fresh_header s t p z) = htonl t"
  "saddr (fresh_header s t p z) = htonl s" "ttl (fresh_header s t p z) = MAX_COST"
  by (simp_all add: fresh_header_def)

text \<open>A header whose checksum was filled in by the code.\<close>

definition summed :: "iphdr \<Rightarrow> bool" where
  "summed h \<longleftrightarrow> check h = header_sum h"

lemma summed_update [simp]: "summed (h\<lparr>check := header_sum h\<rparr>)"
  by (simp add: summed_def)

text \<open>A datagram that holds a whole frame reaches \<open>transfer_data\<close> unchanged.\<close>

definition port_of :: "node \<Rightarrow> u16 \<Rightarrow> nat \<Rightarrow> bool" where
  "port_of n p j \<longleftrightarrow> j < length (interfaces n) \<and> get_interfaceid_with_port (interfaces n) p = int j"

lemma receive_frame:
  assumes "outgoingqueue n = []" and "port_of n p j"
    and "20 + length d \<le> MAXBUFF" and "tot_len h = htons (of_nat (20 + length d))"
  shows "recv_data (Datagram (iphdr_bytes h @ d) p # rs) n =
      Inr (Some (n\<lparr>outgoingqueue := [\<lparr>datalen = 20 + length d, rnext = vip_local (interfaces n ! j),
                                      ippkt = iphdr_bytes h @ d\<rparr>]\<rparr>, rs))"
    and "process_out_step clock
      (n\<lparr>outgoingqueue := [\<lparr>datalen = 20 + length d, rnext = vip_local (interfaces n ! j),
                            ippkt = iphdr_bytes h @ d\<rparr>]\<rparr>)
      = Some (transfer_data clock (iphdr_bytes h @ d) (20 + length d) (vip_local (interfaces n ! j)) n)"
proof -
  have "unat (of_nat (20 + length d) :: u16) = 20 + length d"
    using assms(3) by (simp add: unat_of_nat take_bit_nat_eq_self MAXBUFF_def del: of_nat_add)
  then show "recv_data (Datagram (iphdr_bytes h @ d) p # rs) n =
      Inr (Some (n\<lparr>outgoingqueue := [\<lparr>datalen = 20 + length d, rnext = vip_local (interfaces n ! j),
                                      ippkt = iphdr_bytes h @ d\<rparr>]\<rparr>, rs))"
    using recv_data_whole [of "iphdr_bytes h @ d" "of_nat (20 + length d)" n p j rs]
      assms rd16_tot_len [of h d]
    by (simp add: port_of_def del: of_nat_add)
  have "n\<lparr>outgoingqueue := []\<rparr> = n" using assms(1) by simp
  then show "process_out_step clock
      (n\<lparr>outgoingqueue := [\<lparr>datalen = 20 + length d, rnext = vip_local (interfaces n ! j),
                            ippkt = iphdr_bytes h @ d\<rparr>]\<rparr>)
      = Some (transfer_data clock (iphdr_bytes h @ d) (20 + length d) (vip_local (interfaces n ! j)) n)"
    using process_out_step_ok [where p = "iphdr_bytes h @ d" and q = "[]"] assms(3)
    by (simp add: MAXBUFF_def sizeof_packet_def)
qed

lemma get_interface_isup:
  assumes "distinct (map vip_local ifs)" and "j < length ifs"
  shows "get_interface ifs (vip_local (ifs ! j)) = Some j"
  using assms by (rule get_interface_nth)

text \<open>Acceptance of a RIP packet built by \<open>build_ip_packet\<close>.\<close>

lemma transfer_data_rip:
  assumes "summed h" and "protocol h = RIP_PROTO" and "ihl h = MIN_HDR_LEN" and "length d \<le> packet_data_cap"
    and "get_interface (interfaces n) next = Some j" and "isup (interfaces n ! j)"
  shows "transfer_data clock (iphdr_bytes h @ d) len next n = transfer_ip_to_rip clock d next n"
  using assms by (simp add: transfer_data_eq Let_def summed_def MIN_HDR_LEN_def)

text \<open>Acceptance of any other packet addressed to the node.\<close>

lemma transfer_data_local:
  assumes "summed h" and "protocol h \<noteq> RIP_PROTO" and "ihl h = MIN_HDR_LEN" and "length d < packet_data_cap"
    and "ntohl (daddr h) \<in> my_addrs (interfaces n)"
  shows "transfer_data clock (iphdr_bytes h @ d) (20 + length d) next n =
    Inr (print (Received_Packet (get_interfaceid (interfaces n) next) (saddr h) (daddr h) (protocol h)
      (int (length d)) (takeWhile (\<lambda>b. b \<noteq> 0) d)) n)"
  using assms
  by (simp add: transfer_data_eq Let_def summed_def deliver_packet_eq MIN_HDR_LEN_def)

text \<open>A packet addressed elsewhere is forwarded, whatever its time to live.\<close>

lemma transfer_data_transit:
  assumes "summed h" and "protocol h \<noteq> RIP_PROTO" and "length d \<le> packet_data_cap"
    and "ntohl (daddr h) \<notin> my_addrs (interfaces n)"
  shows "transfer_data clock (iphdr_bytes h @ d) (20 + length d) next n =
    transfer_transit_data (ntohl (daddr h)) (iphdr_bytes (forwarded_header h) @ d) (20 + length d) n"
proof -
  have "forwarded_header (h\<lparr>check := 0\<rparr>) = forwarded_header h"
    by (simp add: forwarded_header_def header_sum_def Let_def)
  then show ?thesis
    using assms by (simp add: transfer_data_eq Let_def summed_def forward_packet_eq)
qed

section \<open>Corrupted headers\<close>

lemma total16_header: "total16 (iphdr_bytes h) = total16 (iphdr_bytes (h\<lparr>check := 0\<rparr>)) + unat (check h)"
proof -
  let ?xs = "[ucast (ihl h) OR push_bit 4 (ucast (version h)), tos h] @ bytes16 (tot_len h)
     @ bytes16 (ident h) @ bytes16 (frag_off h) @ [ttl h, protocol h] :: byte list"
  let ?ys = "bytes32 (saddr h) @ bytes32 (daddr h)"
  have b: "iphdr_bytes (h\<lparr>check := c\<rparr>) = ?xs @ bytes16 c @ ?ys" for c
    by (simp add: iphdr_bytes_def)
  have "even (length ?xs)" by simp
  from total16_insert [OF this, of _ ?ys] b [of 0] b [of "check h"] show ?thesis by simp
qed

lemma header_sum_inj:
  "header_sum h = header_sum h' \<longleftrightarrow>
     oc_fold (total16 (iphdr_bytes (h\<lparr>check := 0\<rparr>))) = oc_fold (total16 (iphdr_bytes (h'\<lparr>check := 0\<rparr>)))"
  using ip_sum_eq_iff [of "iphdr_bytes (h\<lparr>check := 0\<rparr>)" "iphdr_bytes (h'\<lparr>check := 0\<rparr>)" "[]" "[]"]
    ip_sum_header' [of "h\<lparr>check := 0\<rparr>"] ip_sum_header' [of "h'\<lparr>check := 0\<rparr>"]
  by (simp add: header_sum_def)

lemma check_same_word:
  assumes "iphdr_bytes h = xs @ bytes16 v @ ys" and "iphdr_bytes h' = xs @ bytes16 w @ ys"
    and "even (length xs)" and "length xs \<noteq> 10"
  shows "check h' = check h"
proof -
  have "(xs @ bytes16 v @ ys) ! i = (xs @ bytes16 w @ ys) ! i"
    if "i < length xs \<or> length xs + 2 \<le> i" for i
    using that by (auto simp: nth_append)
  moreover have "10 < length xs \<or> length xs + 2 \<le> 10" using assms(3,4) by presburger
  ultimately have "rd16 (xs @ bytes16 v @ ys) 10 = rd16 (xs @ bytes16 w @ ys) 10"
    using assms(3,4) by (auto simp: rd16_def)
  with rd16_header [of h "[]"] rd16_header [of h' "[]"] assms(1,2) show ?thesis by simp
qed

lemma header_sum_word:
  assumes "iphdr_bytes h = xs @ bytes16 v @ ys" and "iphdr_bytes h' = xs @ bytes16 w @ ys"
    and "even (length xs)" and "check h' = check h" and "v \<noteq> w" and "{v, w} \<noteq> {0, 0xffff}"
  shows "header_sum h' \<noteq> header_sum h"
proof
  let ?t = "\<lambda>h. total16 (iphdr_bytes (h\<lparr>check := 0\<rparr>))"
  assume "header_sum h' = header_sum h"
  then have m: "?t h mod 65535 = ?t h' mod 65535"
    by (simp add: header_sum_inj oc_fold_eq_iff)
  define X where "X = total16 xs + total16 ys"
  have "?t h + unat (check h) = X + unat v" "?t h' + unat (check h) = X + unat w"
    using total16_header [of h] total16_header [of h'] assms(1-4)
    by (simp_all add: total16_insert X_def)
  with m have "(X + unat v) mod 65535 = (X + unat w) mod 65535" by (metis mod_add_left_eq)
  from u16_cong_65535 [OF this] assms(5,6) show False by blast
qed

text \<open>The change that the sum does not see, in a header whose first byte is not zero.\<close>

lemma total16_pos: "bs \<noteq> [] \<Longrightarrow> hd bs \<noteq> 0 \<Longrightarrow> 0 < total16 bs"
  by (cases bs rule: words16.cases) (auto simp: word16_nat unat_eq_0 neq0_conv [symmetric] simp del: neq0_conv)

lemma header_sum_zero_word:
  assumes "iphdr_bytes h = xs @ bytes16 v @ ys" and "iphdr_bytes h' = xs @ bytes16 w @ ys"
    and "even (length xs)" and "check h' = check h" and "{v, w} = {0, 0xffff}" and "xs \<noteq> []" and "hd xs \<noteq> 0"
  shows "header_sum h' = header_sum h"
proof -
  let ?t = "\<lambda>h. total16 (iphdr_bytes (h\<lparr>check := 0\<rparr>))"
  have f: "iphdr_bytes (g\<lparr>check := 0\<rparr>) \<noteq> []" "hd (iphdr_bytes (g\<lparr>check := 0\<rparr>)) = hd (iphdr_bytes g)" for g
    by (simp_all add: iphdr_bytes_def)
  have "hd (iphdr_bytes h) \<noteq> 0" "hd (iphdr_bytes h') \<noteq> 0" using assms(1,2,6,7) by simp_all
  then have p: "0 < ?t h" "0 < ?t h'" using f by (simp_all add: total16_pos)
  define X where "X = total16 xs + total16 ys"
  have t: "?t h + unat (check h) = X + unat v" "?t h' + unat (check h) = X + unat w"
    using total16_header [of h] total16_header [of h'] assms(1-4) by (simp_all add: total16_insert X_def)
  have "unat v = unat w + 65535 \<or> unat w = unat v + 65535" using assms(5) by (auto simp: doubleton_eq_iff)
  then have "?t h = ?t h' + 65535 \<or> ?t h' = ?t h + 65535" using t by linarith
  then have "?t h mod 65535 = ?t h' mod 65535" by (elim disjE) simp_all
  with p show ?thesis by (simp add: header_sum_inj oc_fold_eq_iff)
qed

lemma header_sum_ident:
  assumes "ident h = 0" and "ihl h = MIN_HDR_LEN"
  shows "header_sum (h\<lparr>ident := 0xffff\<rparr>) = header_sum h"
proof -
  let ?xs = "[ucast (ihl h) OR push_bit 4 (ucast (version h)), tos h] @ bytes16 (tot_len h) :: byte list"
  let ?ys = "bytes16 (frag_off h) @ [ttl h, protocol h] @ bytes16 (check h) @ bytes32 (saddr h) @ bytes32 (daddr h)"
  have b: "iphdr_bytes (h\<lparr>ident := w\<rparr>) = ?xs @ bytes16 w @ ?ys" for w by (simp add: iphdr_bytes_def)
  have "bit (ucast (ihl h) OR push_bit 4 (ucast (version h)) :: u8) 0"
    using assms(2) by (simp add: bit_simps MIN_HDR_LEN_def)
  then have "hd ?xs \<noteq> 0" by auto
  moreover have "h\<lparr>ident := 0\<rparr> = h" using assms(1) by (cases h) simp
  ultimately show ?thesis using header_sum_zero_word [OF b [where w = 0] b [where w = "0xffff"]] by simp
qed

text \<open>Any 20 bytes are a header.\<close>

lemma iphdr_bytes_surj:
  assumes "length bs = 20"
  obtains h where "iphdr_bytes h = bs"
proof -
  from assms obtain b where bs: "bs = map (\<lambda>i. bs ! i) [0..<20]" by (metis map_nth)
  define h where "h = \<lparr>ihl = ucast (bs ! 0), version = ucast (drop_bit 4 (bs ! 0)), tos = bs ! 1,
    tot_len = word16 (bs ! 2) (bs ! 3), ident = word16 (bs ! 4) (bs ! 5),
    frag_off = word16 (bs ! 6) (bs ! 7), ttl = bs ! 8, protocol = bs ! 9,
    check = word16 (bs ! 10) (bs ! 11), saddr = word32 (bs ! 12) (bs ! 13) (bs ! 14) (bs ! 15),
    daddr = word32 (bs ! 16) (bs ! 17) (bs ! 18) (bs ! 19)\<rparr>"
  have n: "ucast (ucast x :: 4 word) OR push_bit 4 (ucast (ucast (drop_bit 4 x) :: 4 word)) = x" for x :: u8
  proof (rule bit_word_eqI)
    fix n assume "n < LENGTH(8)"
    then consider "n < 4" | "4 \<le> n" "n < 8" by force
    then show "bit (ucast (ucast x :: 4 word) OR push_bit 4 (ucast (ucast (drop_bit 4 x) :: 4 word)) :: u8) n
        = bit x n" by cases (simp_all add: bit_simps, auto)
  qed
  have "iphdr_bytes h = map (\<lambda>i. bs ! i) [0..<20]"
    by (simp add: iphdr_bytes_def h_def n upt_rec) (simp add: eval_nat_numeral)
  with bs have "iphdr_bytes h = bs" by simp
  then show thesis by (rule that)
qed

text \<open>A change of the checksum word.\<close>

lemma check_word:
  assumes "iphdr_bytes h = xs @ bytes16 v @ ys" and "length xs = 10"
  shows "check h = v"
proof -
  have "rd16 (xs @ bytes16 v @ ys) 10 = Inr v" using assms(2) rd16_at [of 10 xs v ys] by simp
  with rd16_header [of h "[]"] assms(1) show ?thesis by simp
qed

lemma check_word_sum:
  assumes "iphdr_bytes h = xs @ bytes16 v @ ys" and "iphdr_bytes h' = xs @ bytes16 w @ ys" and "length xs = 10"
  shows "header_sum h' = header_sum h"
proof -
  let ?t = "\<lambda>h. total16 (iphdr_bytes (h\<lparr>check := 0\<rparr>))"
  have "?t h + unat v = total16 xs + unat v + total16 ys" "?t h' + unat w = total16 xs + unat w + total16 ys"
    using total16_header [of h] total16_header [of h'] check_word [OF assms(1,3)] check_word [OF assms(2,3)] assms
    by (simp_all add: total16_insert)
  then have "?t h = ?t h'" by linarith
  then show ?thesis by (simp add: header_sum_inj)
qed

section \<open>Properties\<close>

text \<open>
  One RIP exchange between two nodes.  The response that one node builds for an interface,
  sent through the send buffer of that interface and received by a peer on an interface that is up,
  relaxes the peer's table with exactly what the sender advertises there (its whole table, poisoned for
  the routes learned through that interface); nothing else in the peer changes.
\<close>

theorem rip_exchange:
  assumes "i < length (interfaces nA)" and "length (rtable nA) \<le> MAX_ENTRIES"
    and "idle_link (interfaces nA ! i)"
    and "outgoingqueue nB = []" and "port_of nB p j" and "isup (interfaces nB ! j)"
    and "distinct (map vip_local (interfaces nB))"
  shows "\<exists>m l nB'.
      prepare_msg_ifc 2 (int i) nA = Inr (nA\<lparr>incomingqueue := incomingqueue nA @ [m]\<rparr>)
    \<and> send_frame (ippacket m) (msize m) (interfaces nA ! ifc m) = Some (Inr l)
    \<and> send_data [int (msize m)] l = Some (Inr ([ippacket m], l\<lparr>sbuffer := None, sbufferReady := False\<rparr>))
    \<and> recv_data [Datagram (ippacket m) p] nB = Inr (Some (nB', []))
    \<and> process_out_step clock nB' = Some (Inr (nB\<lparr>rtable :=
        learn clock (vip_local (interfaces nB ! j)) (interfaces nB)
          (adverts (vip_local (interfaces nA ! i)) (rtable nA)) (rtable nB)\<rparr>))"
proof -
  let ?es = "adverts (vip_local (interfaces nA ! i)) (rtable nA)"
  let ?d = "rip_payload 2 ?es"
  let ?h = "rip_header (interfaces nA ! i) (length ?d)"
  let ?m = "rip_ipmsg 2 (interfaces nA) (rtable nA) i"
  have m: "ifc ?m = i" "msize ?m = 20 + length ?d" "ippacket ?m = iphdr_bytes ?h @ ?d"
    by (simp_all add: rip_ipmsg_def Let_def)
  have d: "length ?d \<le> 772" using assms(2) by (simp add: length_rip_payload MAX_ENTRIES_def)
  have h: "summed ?h" "protocol ?h = RIP_PROTO" "ihl ?h = MIN_HDR_LEN" "tot_len ?h = htons (of_nat (20 + length ?d))"
    by (simp_all add: rip_header_def Let_def summed_def)
  obtain l where l: "send_frame (ippacket ?m) (msize ?m) (interfaces nA ! ifc ?m) = Some (Inr l)"
    "send_data [int (msize ?m)] l = Some (Inr ([ippacket ?m], l\<lparr>sbuffer := None, sbufferReady := False\<rparr>))"
    using send_frame_then_data [OF assms(3), of "ippacket ?m" "msize ?m"] m by auto
  have j: "j < length (interfaces nB)" using assms(5) by (simp add: port_of_def)
  have "transfer_data clock (iphdr_bytes ?h @ ?d) (20 + length ?d) (vip_local (interfaces nB ! j)) nB
      = transfer_ip_to_rip clock (?d @ []) (vip_local (interfaces nB ! j)) nB"
    using transfer_data_rip [OF h(1-3) _ get_interface_nth [OF assms(7) j] assms(6)] d
    by (simp add: packet_data_cap_def)
  also have "\<dots> = Inr (nB\<lparr>rtable := learn clock (vip_local (interfaces nB ! j)) (interfaces nB) ?es (rtable nB)\<rparr>)"
    by (rule transfer_ip_to_rip_response) (use assms(2) in \<open>simp add: MAX_ENTRIES_def\<close>)
  finally show ?thesis
    using receive_frame [OF assms(4,5) _ h(4)] prepare_msg_ifc_eq [OF assms(1), of 2] assms(2) l d m
    by (intro exI [of _ ?m] exI [of _ l]) (simp add: MAXBUFF_def)
qed

theorem rip_exchange_witness:
  "\<exists>m nB'. prepare_msg_ifc 2 (int 0) B_node = Inr (B_node\<lparr>incomingqueue := [m]\<rparr>)
    \<and> recv_data [Datagram (ippacket m) 17001] A_node = Inr (Some (nB', []))
    \<and> process_out_step (\<lambda>_. at_sec 105) nB' = Some (Inr (A_node\<lparr>rtable :=
        learn (\<lambda>_. at_sec 105) 0x0A000001 A_ifs (adverts 0x0A00000E B_rt) A_rt\<rparr>))"
proof -
  have s: "interfaces A_node = A_ifs" "interfaces B_node = B_ifs" "rtable A_node = A_rt" "rtable B_node = B_rt"
    "incomingqueue B_node = []" "vip_local (B_ifs ! 0) = 0x0A00000E" "vip_local (A_ifs ! 0) = 0x0A000001"
    by (simp_all add: A_node_def B_node_def node_of_def) (simp_all add: A_ifs_def B_ifs_def link_of_def)
  have h: "0 < length (interfaces B_node)" "length (rtable B_node) \<le> MAX_ENTRIES" "idle_link (interfaces B_node ! 0)"
    "outgoingqueue A_node = []" "port_of A_node 17001 0" "isup (interfaces A_node ! 0)"
    "distinct (map vip_local (interfaces A_node))"
    by (simp_all add: idle_link_def port_of_def get_interfaceid_with_port_def MAX_ENTRIES_def sample_defs)
  from rip_exchange [OF h, of "\<lambda>_. at_sec 105"] show ?thesis
    unfolding s by auto
qed

text \<open>
  C19: a packet with one aligned 16-bit word of its header changed in transit, the checksum word included, is
  dropped with the checksum message and nothing else happens, unless another word than the checksum changed between 0x0000
  and 0xFFFF.  These two values count the same: such a change always passes the test (when the first byte, not the
  changed one, is not zero), and a packet whose identification field, 0 in every header the program builds, became 0xFFFF is delivered
  like the intact one.
\<close>

theorem corrupted_header_dropped:
  assumes "iphdr_bytes h = xs @ bytes16 v @ ys" and "check h = header_sum h" and "even (length xs)" and "v \<noteq> w"
    and "length d < packet_data_cap"
  shows "({v, w} \<noteq> {0, 0xffff} \<or> length xs = 10 \<longrightarrow>
      (\<exists>c c'. c \<noteq> c' \<and> transfer_data clock (xs @ bytes16 w @ ys @ d) len next n = Inr (print (Checksum_Difference c c') n)))
    \<and> ({v, w} = {0, 0xffff} \<and> length xs \<noteq> 10 \<and> xs \<noteq> [] \<and> hd xs \<noteq> 0 \<longrightarrow>
      (\<exists>h'. iphdr_bytes h' = xs @ bytes16 w @ ys \<and> check h' = header_sum h'))
    \<and> (ident h = 0 \<and> ihl h = MIN_HDR_LEN \<and> protocol h \<noteq> RIP_PROTO \<and> ntohl (daddr h) \<in> my_addrs (interfaces n) \<longrightarrow>
      transfer_data clock (iphdr_bytes (h\<lparr>ident := 0xffff\<rparr>) @ d) (20 + length d) next n
        = transfer_data clock (iphdr_bytes h @ d) (20 + length d) next n)"
proof (intro conjI impI)
  have "length (xs @ bytes16 w @ ys) = 20"
    using arg_cong [OF assms(1), of length] by simp
  then obtain h' where h': "iphdr_bytes h' = xs @ bytes16 w @ ys" by (rule iphdr_bytes_surj)
  have e: "xs @ bytes16 w @ ys @ d = iphdr_bytes h' @ d" by (simp add: h')
  have t: "transfer_data clock (iphdr_bytes h' @ d) len next n = Inr (print (Checksum_Difference (check h') (header_sum h')) n)"
    if "check h' \<noteq> header_sum h'"
    using transfer_data_eq [of d clock h' len "next" n] that assms(5) by (simp add: Let_def)
  assume x: "{v, w} \<noteq> {0, 0xffff} \<or> length xs = 10"
  have "check h' \<noteq> header_sum h'"
  proof (cases "length xs = 10")
    case True
    from check_word [OF assms(1) True] check_word [OF h' True] check_word_sum [OF assms(1) h' True] assms(2,4)
    show ?thesis by simp
  next
    case False
    have c: "check h' = check h" by (rule check_same_word [OF assms(1) h' assms(3) False])
    with header_sum_word [OF assms(1) h' assms(3) c assms(4)] x False assms(2) show ?thesis by auto
  qed
  with t show "\<exists>c c'. c \<noteq> c' \<and> transfer_data clock (xs @ bytes16 w @ ys @ d) len next n
      = Inr (print (Checksum_Difference c c') n)" unfolding e by blast
next
  assume x: "{v, w} = {0, 0xffff} \<and> length xs \<noteq> 10 \<and> xs \<noteq> [] \<and> hd xs \<noteq> 0"
  have "length (xs @ bytes16 w @ ys) = 20"
    using arg_cong [OF assms(1), of length] by simp
  then obtain h' where h': "iphdr_bytes h' = xs @ bytes16 w @ ys" by (rule iphdr_bytes_surj)
  have c: "check h' = check h" by (rule check_same_word [OF assms(1) h' assms(3)]) (use x in simp)
  have "header_sum h' = header_sum h" by (rule header_sum_zero_word [OF assms(1) h' assms(3) c]) (use x in simp_all)
  with c h' assms(2) show "\<exists>h'. iphdr_bytes h' = xs @ bytes16 w @ ys \<and> check h' = header_sum h'" by auto
next
  assume x: "ident h = 0 \<and> ihl h = MIN_HDR_LEN \<and> protocol h \<noteq> RIP_PROTO \<and> ntohl (daddr h) \<in> my_addrs (interfaces n)"
  then have s: "summed h" "summed (h\<lparr>ident := 0xffff\<rparr>)"
    using assms(2) header_sum_ident [of h] by (simp_all add: summed_def)
  show "transfer_data clock (iphdr_bytes (h\<lparr>ident := 0xffff\<rparr>) @ d) (20 + length d) next n
      = transfer_data clock (iphdr_bytes h @ d) (20 + length d) next n"
    using transfer_data_local [OF s(1)] transfer_data_local [OF s(2)] x assms(5) by simp
qed

definition sample_header :: iphdr where
  "sample_header = (let h = fresh_header 0x0A000001 0x0A00000A 17 2 in h\<lparr>check := header_sum h\<rparr>)"

lemma sample_header_sel:
  "check sample_header = header_sum sample_header" "protocol sample_header = 17" "ttl sample_header = 16"
  "daddr sample_header = htonl 0x0A00000A"
  by (simp_all add: sample_header_def Let_def MAX_COST_def)

theorem corrupted_header_dropped_witness:
  "\<exists>c c'. c \<noteq> c' \<and>
     transfer_data (\<lambda>_. at_sec 105)
       ([0x45, 0] @ bytes16 0x2345 @ drop 4 (iphdr_bytes sample_header) @ [72, 105]) 22 0x0A000001 A_node
     = Inr (print (Checksum_Difference c c') A_node)"
proof -
  have b: "iphdr_bytes sample_header = [0x45, 0] @ bytes16 0x1600 @ drop 4 (iphdr_bytes sample_header)"
    by (simp add: iphdr_bytes_def sample_header_def fresh_header_def Let_def MIN_HDR_LEN_def IP_VERSION_def
        bytes16_def htons_def bswap16_def word16_def)
  have h: "check sample_header = header_sum sample_header" "even (length [0x45, 0 :: byte])" "(0x1600 :: u16) \<noteq> 0x2345"
    "length [72, 105 :: byte] < packet_data_cap"
    by (simp_all add: sample_header_sel packet_data_cap_def)
  have "{0x1600, 0x2345} \<noteq> {0, 0xffff :: u16}" by (simp add: doubleton_eq_iff)
  with corrupted_header_dropped [OF b h, of "\<lambda>_. at_sec 105" 22 "0x0A000001" A_node] show ?thesis by blast
qed

text \<open>
  C15: a valid packet (protocol not 200, its data within \<open>struct packet\<close>) for a known destination elsewhere is always queued towards it, with the
  addresses and the payload unchanged, the time to live one less modulo 256 and a checksum that the next
  hop accepts.  No value of the time to live makes the node drop it, and the protocol byte of every
  forwarded packet is 255 instead of the protocol it was sent with.
\<close>

theorem forwarding_rewrites_header:
  assumes "check h = header_sum h" and "protocol h \<noteq> RIP_PROTO" and "length d \<le> packet_data_cap"
    and "ntohl (daddr h) \<notin> my_addrs (interfaces n)"
    and "get_interface (interfaces n) (get_next_address (rtable n) (ntohl (daddr h)) DEFAULT_ADDR) = Some i"
  shows "\<exists>h'. transfer_data clock (iphdr_bytes h @ d) (20 + length d) next n =
      Inr (n\<lparr>incomingqueue := incomingqueue n
             @ [\<lparr>ifc = i, msize = 20 + length d, ippacket = iphdr_bytes h' @ d\<rparr>]\<rparr>)
    \<and> ttl h' = ttl h - 1 \<and> protocol h' = 255 \<and> check h' = header_sum h'
    \<and> saddr h' = saddr h \<and> daddr h' = daddr h \<and> ihl h' = ihl h \<and> tot_len h' = tot_len h"
proof -
  have "transfer_data clock (iphdr_bytes h @ d) (20 + length d) next n =
      transfer_transit_data (ntohl (daddr h)) (iphdr_bytes (forwarded_header h) @ d) (20 + length d) n"
    using transfer_data_transit [OF _ assms(2-4)] assms(1) by (simp add: summed_def)
  also have "\<dots> = Inr (n\<lparr>incomingqueue := incomingqueue n
      @ [\<lparr>ifc = i, msize = 20 + length d, ippacket = iphdr_bytes (forwarded_header h) @ d\<rparr>]\<rparr>)"
    using transfer_transit_data_eq [of "20 + length d" "iphdr_bytes (forwarded_header h) @ d"] assms(3,5)
    by (simp add: packet_data_cap_def sizeof_packet_def)
  finally show ?thesis
    by (intro exI [of _ "forwarded_header h"]) (simp add: forwarded_header_def Let_def)
qed

text \<open>The witness: a packet that arrives with time to live 1 is forwarded with 0.\<close>

theorem forwarding_rewrites_header_witness:
  "\<exists>h'. transfer_data (\<lambda>_. at_sec 105)
        (iphdr_bytes (sample_header\<lparr>ttl := 1, check := header_sum (sample_header\<lparr>ttl := 1\<rparr>)\<rparr>) @ [72, 105]) 22
        0x0A00000E B_node
      = Inr (B_node\<lparr>incomingqueue := [\<lparr>ifc = 1, msize = 22, ippacket = iphdr_bytes h' @ [72, 105]\<rparr>]\<rparr>)
    \<and> ttl h' = 0 \<and> protocol h' = 255"
proof -
  let ?h = "sample_header\<lparr>ttl := 1, check := header_sum (sample_header\<lparr>ttl := 1\<rparr>)\<rparr>"
  have s: "interfaces B_node = B_ifs" "rtable B_node = B_rt" "incomingqueue B_node = []"
    by (simp_all add: B_node_def node_of_def)
  have "get_next_address B_rt 0x0A00000A DEFAULT_ADDR = 0x0A000009"
    by (simp add: get_next_address_eq [OF rt_inv_B]) (simp add: B_rt_def route_def)
  then have g: "get_interface (interfaces B_node)
      (get_next_address (rtable B_node) (ntohl (daddr ?h)) DEFAULT_ADDR) = Some 1"
    by (simp add: s sample_header_sel) (simp add: get_interface_def B_ifs_def link_of_def)
  have "check ?h = header_sum ?h" "protocol ?h \<noteq> RIP_PROTO" "length [72, 105 :: byte] \<le> packet_data_cap"
    "ntohl (daddr ?h) \<notin> my_addrs (interfaces B_node)"
    by (simp_all add: s sample_header_sel RIP_PROTO_def packet_data_cap_def)
  from forwarding_rewrites_header [OF this g, of "\<lambda>_. at_sec 105" "0x0A00000E"] show ?thesis
    by (auto simp: s)
qed

text \<open>
  What \<open>send\<close> transmits is what the neighbour prints.  A payload of at most 1004 bytes without a
  NUL, sent to an address of the peer at the other end of the chosen interface, is received whole in one
  datagram and reported with its source, destination, protocol and length; the reported arrival link is
  -1 whenever the receiving interface's own address is not also somebody's remote address, because it is
  looked up among the remote addresses.
\<close>

theorem payload_delivered:
  assumes "get_interface (interfaces nA) (get_next_address (rtable nA) (ntohl dest) DEFAULT_ADDR) = Some i"
    and "idle_link (interfaces nA ! i)"
    and "length data \<le> 1004" and "0 \<notin> set data" and "proto \<noteq> RIP_PROTO"
    and "outgoingqueue nB = []" and "port_of nB p j" and "ntohl dest \<in> my_addrs (interfaces nB)"
  shows "\<exists>m l nB' iid.
      transfer_application_to_ip dest proto data (length data) nA
        = Inr (nA\<lparr>incomingqueue := incomingqueue nA @ [m]\<rparr>)
    \<and> send_frame (ippacket m) (msize m) (interfaces nA ! ifc m) = Some (Inr l)
    \<and> send_data [int (msize m)] l = Some (Inr ([ippacket m], l\<lparr>sbuffer := None, sbufferReady := False\<rparr>))
    \<and> recv_data [Datagram (ippacket m) p] nB = Inr (Some (nB', []))
    \<and> process_out_step clock nB' = Some (Inr (print
        (Received_Packet iid (htonl (vip_local (interfaces nA ! i))) dest proto (int (length data)) data) nB))
    \<and> ((\<forall>x \<in> set (interfaces nB). vip_remote x \<noteq> vip_local (interfaces nB ! j)) \<longrightarrow> iid = -1)"
proof -
  let ?src = "vip_local (interfaces nA ! i)"
  let ?h0 = "fresh_header ?src (ntohl dest) proto (length data)"
  let ?h = "?h0\<lparr>check := header_sum ?h0\<rparr>"
  let ?m = "\<lparr>ifc = i, msize = 20 + length data, ippacket = iphdr_bytes ?h @ data\<rparr>"
  let ?iid = "get_interfaceid (interfaces nB) (vip_local (interfaces nB ! j))"
  let ?nB = "nB\<lparr>outgoingqueue := [\<lparr>datalen = 20 + length data, rnext = vip_local (interfaces nB ! j),
    ippkt = iphdr_bytes ?h @ data\<rparr>]\<rparr>"
  have t: "transfer_application_to_ip dest proto data (length data) nA
      = Inr (nA\<lparr>incomingqueue := incomingqueue nA @ [?m]\<rparr>)"
    using assms(1,3) by (simp add: transfer_application_to_ip_def build_ip_packet_eq packet_data_cap_def Let_def)
  obtain l where l: "send_frame (ippacket ?m) (msize ?m) (interfaces nA ! ifc ?m) = Some (Inr l)"
    "send_data [int (msize ?m)] l = Some (Inr ([ippacket ?m], l\<lparr>sbuffer := None, sbufferReady := False\<rparr>))"
    using send_frame_then_data [OF assms(2), of "ippacket ?m" "msize ?m"] by auto
  have "takeWhile (\<lambda>b. b \<noteq> 0) data = data" using assms(4) by (auto simp: takeWhile_eq_all_conv)
  then have "transfer_data clock (iphdr_bytes ?h @ data) (20 + length data) (vip_local (interfaces nB ! j)) nB =
      Inr (print (Received_Packet ?iid (htonl ?src) dest proto (int (length data)) data) nB)"
    using transfer_data_local [of ?h data nB clock "vip_local (interfaces nB ! j)"] assms(3,5,8)
    by (simp add: packet_data_cap_def)
  moreover have "(\<forall>x \<in> set (interfaces nB). vip_remote x \<noteq> vip_local (interfaces nB ! j)) \<longrightarrow> ?iid = -1"
    by (auto simp: get_interfaceid_def split: option.split dest!: first_index_SomeD)
  ultimately show ?thesis
    using receive_frame [OF assms(6,7), of data ?h] t l assms(3)
    by (intro exI [of _ ?m] exI [of _ l] exI [of _ ?nB] exI [of _ ?iid]) (simp add: MAXBUFF_def)
qed

theorem payload_delivered_witness:
  "\<exists>m nB'. transfer_application_to_ip (htonl 0x0A000001) 17 [72, 105] 2 B_node = Inr (B_node\<lparr>incomingqueue := [m]\<rparr>)
    \<and> recv_data [Datagram (ippacket m) 17001] A_node = Inr (Some (nB', []))
    \<and> process_out_step (\<lambda>_. at_sec 105) nB' = Some (Inr (print
        (Received_Packet (-1) (htonl 0x0A00000E) (htonl 0x0A000001) 17 2 [72, 105]) A_node))"
proof -
  have s: "interfaces A_node = A_ifs" "interfaces B_node = B_ifs" "rtable B_node = B_rt"
    "incomingqueue B_node = []" "vip_local (B_ifs ! 0) = 0x0A00000E" "vip_local (A_ifs ! 0) = 0x0A000001"
    "\<forall>x \<in> set A_ifs. vip_remote x \<noteq> 0x0A000001"
    by (simp_all add: A_node_def B_node_def node_of_def) (simp_all add: A_ifs_def B_ifs_def link_of_def)
  have "get_next_address B_rt 0x0A000001 DEFAULT_ADDR = 0x0A00000E"
    by (simp add: get_next_address_eq [OF rt_inv_B]) (simp add: B_rt_def route_def)
  then have g: "get_interface (interfaces B_node)
      (get_next_address (rtable B_node) (ntohl (htonl 0x0A000001)) DEFAULT_ADDR) = Some 0"
    by (simp add: s) (simp add: get_interface_def B_ifs_def link_of_def)
  have h: "idle_link (interfaces B_node ! 0)" "length [72, 105 :: byte] \<le> 1004" "0 \<notin> set [72, 105 :: byte]"
    "17 \<noteq> RIP_PROTO" "outgoingqueue A_node = []" "port_of A_node 17001 0"
    "ntohl (htonl 0x0A000001) \<in> my_addrs (interfaces A_node)"
    by (simp_all add: idle_link_def port_of_def get_interfaceid_with_port_def RIP_PROTO_def sample_defs my_addrs_def)
  from payload_delivered [OF g h, of "\<lambda>_. at_sec 105"] s show ?thesis
    by (auto simp: numeral_2_eq_2)
qed

text \<open>
  The limits of a payload.  Above 1024 bytes \<open>build_ip_packet\<close> writes past the packet.  From 1005
  to 1024 bytes the sender queues and transmits the packet, but the receiver's \<open>recvfrom\<close> into 1024 bytes
  cuts it off, the receiver waits for more, and the next datagram from a known neighbour makes it copy
  more bytes than its buffer holds.
\<close>

theorem payload_limits:
  assumes "get_interface (interfaces nA) (get_next_address (rtable nA) (ntohl dest) DEFAULT_ADDR) = Some i"
    and "1004 < length data"
  shows "if length data \<le> 1024
    then \<exists>m. transfer_application_to_ip dest proto data (length data) nA
          = Inr (nA\<lparr>incomingqueue := incomingqueue nA @ [m]\<rparr>)
      \<and> recv_data [Datagram (ippacket m) p] nB = Inr None
      \<and> (\<forall>d2 p2 j. 20 \<le> length d2 \<and> length d2 \<le> MAXBUFF \<and> port_of nB p2 j \<longrightarrow>
            recv_data [Datagram (ippacket m) p, Datagram d2 p2] nB = Inl Indeterminate)
    else transfer_application_to_ip dest proto data (length data) nA = Inl Out_Of_Bounds"
proof (cases "length data \<le> 1024")
  case True
  let ?h0 = "fresh_header (vip_local (interfaces nA ! i)) (ntohl dest) proto (length data)"
  let ?h = "?h0\<lparr>check := header_sum ?h0\<rparr>"
  let ?m = "\<lparr>ifc = i, msize = 20 + length data, ippacket = iphdr_bytes ?h @ data\<rparr>"
  let ?fl = "of_nat (20 + length data) :: u16"
  have t: "transfer_application_to_ip dest proto data (length data) nA
      = Inr (nA\<lparr>incomingqueue := incomingqueue nA @ [?m]\<rparr>)"
    using assms(1) True by (simp add: transfer_application_to_ip_def build_ip_packet_eq packet_data_cap_def Let_def)
  have r: "rd16 (ippacket ?m) 2 = Inr (htons ?fl)" using rd16_tot_len [of ?h data] by simp
  have f: "unat ?fl = 20 + length data"
    using True by (simp add: unat_of_nat take_bit_nat_eq_self del: of_nat_add)
  then have "\<not> uint ?fl \<le> int MAXBUFF"
    unfolding uint_nat using assms(2) by (simp add: MAXBUFF_def)
  moreover have "rd16 (take MAXBUFF (ippacket ?m)) 2 = Inr (htons ?fl)"
    using rd16_tot_len [of ?h "take 1004 data"] by (simp add: MAXBUFF_def)
  ultimately have w: "recv_data [Datagram (ippacket ?m) p] nB = Inr None"
    using assms(2) by (simp add: recv_data_def Let_def MAXBUFF_def min_def)
  have "recv_data [Datagram (ippacket ?m) p, Datagram d2 p2] nB = Inl Indeterminate"
    if "20 \<le> length d2" "length d2 \<le> MAXBUFF" "port_of nB p2 j" for d2 p2 j
    by (rule recv_data_oversized [OF _ r]) (use that assms(2) True f in \<open>auto simp: MAXBUFF_def port_of_def\<close>)
  with t w True show ?thesis by (auto intro!: exI [of _ ?m])
next
  case False
  with assms(1) show ?thesis by (simp add: transfer_application_to_ip_def build_ip_packet_eq packet_data_cap_def Let_def)
qed

theorem payload_limits_witness:
  "transfer_application_to_ip (htonl 0x0A000001) 17 (replicate 1025 72) 1025 B_node = Inl Out_Of_Bounds"
proof -
  have "get_next_address B_rt 0x0A000001 DEFAULT_ADDR = 0x0A00000E"
    by (simp add: get_next_address_eq [OF rt_inv_B]) (simp add: B_rt_def route_def)
  then have "get_interface (interfaces B_node)
      (get_next_address (rtable B_node) (ntohl (htonl 0x0A000001)) DEFAULT_ADDR) = Some 0"
    by (simp add: B_node_def node_of_def) (simp add: get_interface_def B_ifs_def link_of_def)
  from payload_limits [OF this, of "replicate 1025 72"] show ?thesis by simp
qed

end
