(* ===== verification/Rip_Network.thy ===== *)
theory Rip_Network
  imports Delivery
begin

text \<open>
  Several nodes on one host, as \<open>src/nets\<close> configures them: node \<open>i\<close> of a topology binds its sockets to
  one port (\<open>local_phys_port\<close> of its \<open>.lnx\<close> file) and has a list of links.  The network steps let any node
  take any step of \<open>node_step\<close>; a frame that leaves a send buffer becomes a datagram that the network may
  deliver late, repeatedly, out of order or never.  The invariant says what the routing tables mean.
\<close>

type_synonym topology = "(u16 \<times> link list) list"

record dgram =
  d_src :: u16
  d_dst :: u16
  d_bytes :: "byte list"

record net =
  net_nodes :: "node list"
  net_sent :: "dgram list"

section \<open>Steps of the network\<close>

text \<open>
  \<open>Send_Cmd\<close> with the RIP protocol number would let a user inject routing messages; the network here has
  users who do not.  A link round is split into its receiving half, fed from the datagrams ever sent to
  the node's port, and its sending half, in which \<open>sendto\<close> takes the whole frame.
\<close>

definition internal :: "event \<Rightarrow> bool" where
  "internal ev \<longleftrightarrow> (case ev of Link_Round i rd wr \<Rightarrow> rd = None \<and> wr = None
     | Send_Cmd dest proto data \<Rightarrow> proto \<noteq> RIP_PROTO | _ \<Rightarrow> True)"

text \<open>
  The \<open>send\<close> commands the users give: \<open>(i, dest, proto, data)\<close> at node \<open>i\<close>.  A run is restricted to a set
  of them, so that what comes out can be compared with what went in; \<open>net_reachable\<close> leaves them open.
\<close>

type_synonym sends = "(nat \<times> u32 \<times> u8 \<times> byte list) set"

definition issued :: "sends \<Rightarrow> nat \<Rightarrow> event \<Rightarrow> bool" where
  "issued S i ev \<longleftrightarrow> (case ev of Send_Cmd dest proto data \<Rightarrow> (i, dest, proto, data) \<in> S | _ \<Rightarrow> True)"

inductive net_step :: "sends \<Rightarrow> topology \<Rightarrow> net \<Rightarrow> net \<Rightarrow> bool" for S topo where
  net_event:
    "i < length topo \<Longrightarrow> internal ev \<Longrightarrow> issued S i ev
      \<Longrightarrow> node_step ev (net_nodes N ! i) = Some (Inr n')
      \<Longrightarrow> net_step S topo N (N\<lparr>net_nodes := (net_nodes N)[i := n']\<rparr>)"
| net_transmit:
    "i < length topo \<Longrightarrow> k < length (interfaces (net_nodes N ! i))
      \<Longrightarrow> l = interfaces (net_nodes N ! i) ! k \<Longrightarrow> s_local l \<noteq> -1 \<Longrightarrow> sbufferReady l
      \<Longrightarrow> send_data [int (sbuffersz l)] l = Some (Inr (chunks, l'))
      \<Longrightarrow> node_step (Link_Round k None (Some [int (sbuffersz l)])) (net_nodes N ! i) = Some (Inr n')
      \<Longrightarrow> net_step S topo N (N\<lparr>net_nodes := (net_nodes N)[i := n'],
            net_sent := net_sent N @ map (\<lambda>c. \<lparr>d_src = fst (topo ! i), d_dst = remoteport l, d_bytes = c\<rparr>) chunks\<rparr>)"
| net_deliver:
    "i < length topo \<Longrightarrow> set ds \<subseteq> set (net_sent N)
      \<Longrightarrow> \<forall>d \<in> set ds. d_dst d = fst (topo ! i)
      \<Longrightarrow> node_step (Link_Round k (Some (map (\<lambda>d. Datagram (d_bytes d) (d_src d)) ds)) None)
            (net_nodes N ! i) = Some (Inr n')
      \<Longrightarrow> net_step S topo N (N\<lparr>net_nodes := (net_nodes N)[i := n']\<rparr>)"

inductive net_run :: "sends \<Rightarrow> topology \<Rightarrow> net \<Rightarrow> bool" for S topo where
  net_start:
    "\<forall>p \<in> set topo. \<forall>l \<in> set (snd p). fresh_link l \<Longrightarrow> length ns = length topo
      \<Longrightarrow> \<forall>i < length topo. rip_init (clocks i) (fresh_node (snd (topo ! i))) = Inr (ns ! i)
      \<Longrightarrow> net_run S topo \<lparr>net_nodes = ns, net_sent = []\<rparr>"
| net_more: "net_run S topo N \<Longrightarrow> net_step S topo N N' \<Longrightarrow> net_run S topo N'"

abbreviation net_reachable :: "topology \<Rightarrow> net \<Rightarrow> bool" where
  "net_reachable \<equiv> net_run UNIV"

lemma issued_UNIV [simp]: "issued UNIV i ev"
  by (simp add: issued_def split: event.split)

section \<open>What a route means\<close>

text \<open>Interface address \<open>x\<close> of node \<open>i\<close> faces node \<open>j\<close>.\<close>

definition faces :: "topology \<Rightarrow> nat \<Rightarrow> u32 \<Rightarrow> nat \<Rightarrow> bool" where
  "faces topo i x j \<longleftrightarrow> j < length topo
     \<and> (\<exists>l \<in> set (snd (topo ! i)). vip_local l = x \<and> remoteport l = fst (topo ! j))"

text \<open>A path of \<open>c\<close> links from node \<open>i\<close> to the node that owns address \<open>a\<close>.\<close>

inductive path :: "topology \<Rightarrow> nat \<Rightarrow> u32 \<Rightarrow> nat \<Rightarrow> bool" for topo where
  path_own: "i < length topo \<Longrightarrow> a \<in> my_addrs (snd (topo ! i)) \<Longrightarrow> path topo i a 0"
| path_hop: "i < length topo \<Longrightarrow> faces topo i x j \<Longrightarrow> path topo j a c \<Longrightarrow> path topo i a (Suc c)"

inductive_cases path_0E: "path topo i a 0"
inductive_cases path_SucE: "path topo i a (Suc c)"

definition route_ok :: "topology \<Rightarrow> nat \<Rightarrow> u32 \<Rightarrow> entry_wts \<Rightarrow> bool" where
  "route_ok topo i k w \<longleftrightarrow> unat (cost (ent w)) \<le> 16
     \<and> (case unat (cost (ent w)) of
          0 \<Rightarrow> k \<in> my_addrs (snd (topo ! i))
        | Suc c \<Rightarrow> \<exists>j. faces topo i (next_hop w) j \<and> path topo j k c)"

definition routes_ok :: "topology \<Rightarrow> nat \<Rightarrow> rtable \<Rightarrow> bool" where
  "routes_ok topo i rt \<longleftrightarrow> (\<forall>x \<in> set rt. route_ok topo i (fst x) (snd x))"

lemma route_ok_path:
  assumes "route_ok topo i k w" and "i < length topo"
  shows "path topo i k (unat (cost (ent w)))"
proof (cases "unat (cost (ent w))")
  case 0
  with assms show ?thesis by (auto simp: route_ok_def intro: path_own)
next
  case (Suc c)
  with assms obtain j where "faces topo i (next_hop w) j" "path topo j k c" by (auto simp: route_ok_def)
  with path_hop [OF assms(2)] Suc show ?thesis by simp
qed

lemma routes_ok_assign: "routes_ok topo i rt \<Longrightarrow> route_ok topo i k w \<Longrightarrow> routes_ok topo i (map_assign k w rt)"
  using set_map_assign [of k w rt] by (fastforce simp: routes_ok_def)

lemma routes_ok_filter: "routes_ok topo i rt \<Longrightarrow> routes_ok topo i (filter P rt)"
  by (simp add: routes_ok_def)

lemma route_ok_own:
  "k \<in> my_addrs (snd (topo ! i)) \<Longrightarrow> route_ok topo i k (own_entry now k)"
  by (simp add: route_ok_def own_entry_def)

section \<open>What an advertisement means\<close>

definition advert_ok :: "topology \<Rightarrow> nat \<Rightarrow> entry \<Rightarrow> bool" where
  "advert_ok topo i e \<longleftrightarrow> cost e = RIP_MAX_COST
     \<or> unat (cost e) < 16 \<and> path topo i (address e) (unat (cost e))"

lemma adverts_ok:
  assumes "routes_ok topo i rt" and "rt_inv ifs rt" and "i < length topo" and "e \<in> set (adverts nb rt)"
  shows "advert_ok topo i e"
proof -
  from assms(4) obtain x where x: "x \<in> set rt" and e: "e = advert nb (snd x)" by (auto simp: adverts_def)
  let ?w = "snd x"
  have r: "route_ok topo i (fst x) ?w" using assms(1) x by (simp add: routes_ok_def)
  have a: "address (ent ?w) = fst x" using assms(2) x by (simp add: rt_inv_def good_entry_def)
  have "unat (cost (ent ?w)) = 16 \<Longrightarrow> cost (ent ?w) = RIP_MAX_COST"
    by (simp add: RIP_MAX_COST_def word_unat_eq_iff)
  moreover have "unat (cost (ent ?w)) \<le> 16" using r by (simp add: route_ok_def)
  ultimately show ?thesis
    using route_ok_path [OF r assms(3)] a by (auto simp: e advert_def advert_ok_def)
qed

text \<open>Learning from a neighbour keeps the meaning of the routes, and their bound.\<close>

lemma update_entry_ok:
  assumes "routes_ok topo i rt" and "advert_ok topo j (host_entry e)" and "faces topo i nh j"
  shows "routes_ok topo i (update_entry now nh ifs e rt)"
proof -
  let ?h = "host_entry e"
  have "route_ok topo i (address ?h) \<lparr>ent = ?h\<lparr>cost := cost ?h + 1\<rparr>, next_hop = nh, tstamp = now\<rparr>"
    if "cost ?h \<noteq> RIP_MAX_COST"
  proof -
    from that assms(2) have c: "unat (cost ?h) < 16" "path topo j (address ?h) (unat (cost ?h))"
      by (auto simp: advert_ok_def)
    then have "unat (cost ?h + 1) = Suc (unat (cost ?h))" by (simp add: unat_word_ariths)
    with c assms(3) show ?thesis by (auto simp: route_ok_def)
  qed
  with assms(1) show ?thesis by (auto simp: update_entry_eq Let_def intro: routes_ok_assign)
qed

lemma learn_ok:
  assumes "routes_ok topo i rt" and "\<forall>e \<in> set es. advert_ok topo j e" and "faces topo i nh j"
  shows "routes_ok topo i (learn clock nh ifs es rt)"
proof -
  have "routes_ok topo i (apply_entries clock nh ifs k (map net_entry es) rt)" for k
    using assms(1,2)
    by (induction es arbitrary: k rt) (simp_all add: update_entry_ok [OF _ _ assms(3)])
  then show ?thesis by (simp add: learn_def)
qed

section \<open>What the bytes of a frame mean\<close>

definition rip_frame :: "topology \<Rightarrow> nat \<Rightarrow> byte list \<Rightarrow> bool" where
  "rip_frame topo i b \<longleftrightarrow> (\<exists>h t es rest. b = iphdr_bytes h @ rip_payload t es @ rest
     \<and> ihl h = MIN_HDR_LEN \<and> protocol h = RIP_PROTO \<and> length es \<le> MAX_ENTRIES
     \<and> (\<forall>e \<in> set es. advert_ok topo i e))"

definition frame_ok :: "topology \<Rightarrow> nat \<Rightarrow> byte list \<Rightarrow> bool" where
  "frame_ok topo i b \<longleftrightarrow> 20 \<le> length b \<and> (b ! 9 = RIP_PROTO \<longrightarrow> rip_frame topo i b)"

lemma protocol_nth: "(iphdr_bytes h @ d) ! 9 = protocol h"
  by (simp add: iphdr_bytes_def bytes16_def bytes32_def)

lemma frame_ok_other: "protocol h \<noteq> RIP_PROTO \<Longrightarrow> frame_ok topo i (iphdr_bytes h @ d)"
  by (simp add: frame_ok_def protocol_nth)

lemma frame_ok_truncated:
  assumes "frame_ok topo i b"
  shows "frame_ok topo i (take MAXBUFF b @ junk)"
proof -
  have "rip_frame topo i (take MAXBUFF b @ junk)" if "rip_frame topo i b"
  proof -
    from that obtain h t es rest where b: "b = iphdr_bytes h @ rip_payload t es @ rest"
      and h: "ihl h = MIN_HDR_LEN" "protocol h = RIP_PROTO" "length es \<le> MAX_ENTRIES"
        "\<forall>e \<in> set es. advert_ok topo i e"
      unfolding rip_frame_def by blast
    have "length (iphdr_bytes h @ rip_payload t es) \<le> MAXBUFF"
      using h(3) by (simp add: length_rip_payload MAX_ENTRIES_def MAXBUFF_def)
    then have "take MAXBUFF b @ junk = iphdr_bytes h @ rip_payload t es
        @ (take (MAXBUFF - length (iphdr_bytes h @ rip_payload t es)) rest @ junk)"
      unfolding b append_assoc [symmetric] by (simp add: take_append)
    with h show ?thesis unfolding rip_frame_def by blast
  qed
  moreover have "(take MAXBUFF b @ junk) ! 9 = b ! 9"
    using assms by (simp add: frame_ok_def nth_append MAXBUFF_def)
  ultimately show ?thesis using assms by (auto simp: frame_ok_def MAXBUFF_def)
qed

lemma rip_ipmsg_ok:
  assumes "routes_ok topo i rt" and "rt_inv ifs' rt" and "i < length topo" and "length rt \<le> MAX_ENTRIES"
  shows "frame_ok topo i (ippacket (rip_ipmsg t ifs rt k))"
proof -
  let ?es = "adverts (vip_local (ifs ! k)) rt"
  let ?p = "rip_payload t ?es"
  have b: "ippacket (rip_ipmsg t ifs rt k) = iphdr_bytes (rip_header (ifs ! k) (length ?p)) @ ?p @ []"
    by (simp add: rip_ipmsg_def Let_def)
  have "rip_frame topo i (ippacket (rip_ipmsg t ifs rt k))"
    unfolding rip_frame_def b
    by (intro exI conjI) (use assms adverts_ok [OF assms(1-3)] in \<open>auto simp: rip_header_def Let_def\<close>)
  then show ?thesis by (simp add: frame_ok_def b)
qed

section \<open>The cargo of a node\<close>

text \<open>Everything in a node that came from, or will go to, another node.\<close>

definition arrived_ok :: "topology \<Rightarrow> nat \<Rightarrow> rcvmsg \<Rightarrow> bool" where
  "arrived_ok topo i m \<longleftrightarrow> (\<exists>j. faces topo i (rnext m) j \<and> frame_ok topo j (ippkt m))"

definition buffered_ok :: "topology \<Rightarrow> nat \<Rightarrow> link \<Rightarrow> bool" where
  "buffered_ok topo i l \<longleftrightarrow> (case sbuffer l of None \<Rightarrow> True | Some f \<Rightarrow> frame_ok topo i f)"

definition cargo_ok :: "topology \<Rightarrow> nat \<Rightarrow> node \<Rightarrow> bool" where
  "cargo_ok topo i n \<longleftrightarrow> routes_ok topo i (rtable n)
     \<and> (\<forall>m \<in> set (incomingqueue n). frame_ok topo i (ippacket m))
     \<and> (\<forall>l \<in> set (interfaces n). buffered_ok topo i l)
     \<and> (\<forall>m \<in> set (outgoingqueue n). arrived_ok topo i m)"

text \<open>A member of the network: the invariant of a node, its configured links, and its cargo.\<close>

definition member_ok :: "topology \<Rightarrow> nat \<Rightarrow> node \<Rightarrow> bool" where
  "member_ok topo i n \<longleftrightarrow> i < length topo \<and> node_inv n
     \<and> statics n = map link_static (snd (topo ! i)) \<and> cargo_ok topo i n"

lemma cargo_ok_print [simp]: "cargo_ok topo i (print x n) = cargo_ok topo i n"
  by (simp add: cargo_ok_def)

lemma member_ok_index: "member_ok topo i n \<Longrightarrow> i < length topo"
  by (simp add: member_ok_def)

lemma member_addrs: "member_ok topo i n \<Longrightarrow> my_addrs (interfaces n) = my_addrs (snd (topo ! i))"
  by (rule my_addrs_static) (simp add: member_ok_def statics_eq)

lemma member_routes: "member_ok topo i n \<Longrightarrow> routes_ok topo i (rtable n) \<and> rt_inv (interfaces n) (rtable n)"
  by (simp add: member_ok_def cargo_ok_def node_inv_def)

lemma prepare_msg_cargo:
  assumes "i < length topo" and "rt_inv ifs (rtable n)" and "cargo_ok topo i n" and "prepare_msg t n = Inr n'"
  shows "cargo_ok topo i n'"
proof -
  from assms(4) have n': "n' = n\<lparr>incomingqueue := incomingqueue n
      @ map (rip_ipmsg t (interfaces n) (rtable n)) (up_ids (interfaces n))\<rparr>"
    and l: "length (rtable n) \<le> MAX_ENTRIES \<or> up_ids (interfaces n) = []"
    by (auto simp: prepare_msg_cases split: if_splits)
  have "frame_ok topo i (ippacket (rip_ipmsg t (interfaces n) (rtable n) k))" if "k \<in> set (up_ids (interfaces n))" for k
    using rip_ipmsg_ok [OF _ assms(2,1)] assms(3) l that by (auto simp: cargo_ok_def)
  with assms(3) show ?thesis by (auto simp: n' cargo_ok_def)
qed

lemma transit_cargo:
  assumes "cargo_ok topo i n" and "frame_ok topo i data" and "transfer_transit_data dest data (length data) n = Inr n'"
  shows "cargo_ok topo i n'"
  using assms
  by (auto simp: transfer_transit_data_def Let_def get_bytes_def put_def cargo_ok_def split: option.splits if_splits)

lemma application_cargo:
  assumes "cargo_ok topo i n" and "proto \<noteq> RIP_PROTO"
    and "transfer_application_to_ip dest proto data datasz n = Inr n'"
  shows "cargo_ok topo i n'"
  using assms
  by (auto simp: transfer_application_to_ip_def Let_def build_ip_packet_eq cargo_ok_def
      intro!: frame_ok_other split: option.splits if_splits)

section \<open>Receiving keeps the cargo\<close>

lemma rip_payload_cargo:
  assumes "i < length topo" and "rt_inv (interfaces n) (rtable n)" and "cargo_ok topo i n"
    and "faces topo i nh j" and "\<forall>e \<in> set es. advert_ok topo j e" and "length es \<le> MAX_ENTRIES"
    and "transfer_ip_to_rip clock (rip_payload t es @ rest) nh n = Inr n'"
  shows "cargo_ok topo i n'"
proof -
  have r: "rd16 (rip_payload t es @ rest) 0 = Inr (htons t)" by (simp add: rip_payload_def)
  have "length es < 65536" using assms(6) by (simp add: MAX_ENTRIES_def)
  note u = update_route_table_payload [OF this, of clock t rest nh "interfaces n" "rtable n"]
  have l: "routes_ok topo i (learn clock nh (interfaces n) es (rtable n))"
    using assms(3-5) by (intro learn_ok) (simp_all add: cargo_ok_def)
  consider "t = 1" "prepare_msg 2 n = Inr n'"
    | "n' = n\<lparr>rtable := learn clock nh (interfaces n) es (rtable n)\<rparr>" | "n' = print Unrecognised_Type n"
    using assms(7) u by (auto simp: transfer_ip_to_rip_def r Let_def split: if_splits)
  then show ?thesis
  proof cases
    case 1
    then show ?thesis using prepare_msg_cargo assms(1-3) by blast
  next
    case 2
    then show ?thesis using assms(3) l by (simp add: cargo_ok_def)
  qed (use assms(3) in simp)
qed

lemma deliver_packet_cargo:
  "deliver_packet iid data len pos proto n = Inr n' \<Longrightarrow> cargo_ok topo i n \<Longrightarrow> cargo_ok topo i n'"
  by (auto simp: deliver_packet_def split: if_splits)

lemma transfer_data_cargo:
  assumes "i < length topo" and "rt_inv (interfaces n) (rtable n)" and "cargo_ok topo i n"
    and "faces topo i nh j" and "frame_ok topo j b" and "length b \<le> sizeof_packet"
    and "transfer_data clock b (length b) nh n = Inr n'"
  shows "cargo_ok topo i n'"
proof (cases "b ! 9 = RIP_PROTO")
  case True
  with assms(5) obtain h t es rest where b: "b = iphdr_bytes h @ rip_payload t es @ rest"
    and h: "ihl h = MIN_HDR_LEN" "protocol h = RIP_PROTO" "length es \<le> MAX_ENTRIES"
      "\<forall>e \<in> set es. advert_ok topo j e"
    unfolding frame_ok_def rip_frame_def by blast
  have l: "length (rip_payload t es @ rest) \<le> packet_data_cap"
    using assms(6) by (simp add: b sizeof_packet_def packet_data_cap_def)
  have d: "drop (4 * unat (ihl h)) (iphdr_bytes (h\<lparr>check := 0\<rparr>) @ rip_payload t es @ rest)
      = rip_payload t es @ rest"
    by (simp add: h(1) MIN_HDR_LEN_def)
  have "(\<exists>m. n' = print m n) \<or> n' = n \<or> transfer_ip_to_rip clock (rip_payload t es @ rest) nh n = Inr n'"
    using assms(7) unfolding b transfer_data_eq [OF l] Let_def d
    by (auto simp: h(2) split: if_splits option.splits)
  then show ?thesis using rip_payload_cargo [OF assms(1-4) h(4,3)] assms(3) by auto
next
  case False
  have "length (take 20 b) = 20" using assms(5) by (simp add: frame_ok_def)
  then obtain h where h: "iphdr_bytes h = take 20 b" by (rule iphdr_bytes_surj)
  define d where "d = drop 20 b"
  have b: "b = iphdr_bytes h @ d" by (simp add: h d_def)
  have p: "protocol h \<noteq> RIP_PROTO" using False by (simp add: b protocol_nth)
  have l: "length d \<le> packet_data_cap" using assms(6) by (simp add: b sizeof_packet_def packet_data_cap_def)
  let ?f = "iphdr_bytes (forwarded_header (h\<lparr>check := 0\<rparr>)) @ d"
  have f: "frame_ok topo i ?f"
    by (rule frame_ok_other) (simp add: forwarded_header_def Let_def RIP_PROTO_def)
  have "length ?f = length b" by (simp add: b)
  note t = transit_cargo [OF assms(3) f, unfolded this]
  show ?thesis
    using assms(7) unfolding b transfer_data_eq [OF l] Let_def forward_packet_eq [OF l]
    by (auto simp: p assms(3) b [symmetric] split: if_splits intro: t deliver_packet_cargo [OF _ assms(3)])
qed

lemma out_step_cargo:
  assumes "member_ok topo i n" and "process_out_step clock n = Some (Inr n')"
  shows "cargo_ok topo i n'"
proof -
  from assms(2) obtain m q pkt where q: "outgoingqueue n = m # q"
    and pkt: "bindE (get_bytes (ippkt m) (datalen m)) (put sizeof_packet [] 0) = Inr pkt"
    and t: "transfer_data clock pkt (datalen m) (rnext m) (n\<lparr>outgoingqueue := q\<rparr>) = Inr n'"
    by (auto simp: process_out_step_def split: list.splits)
  have m: "rcvmsg_ok (interfaces n) m" "arrived_ok topo i m" and i: "i < length topo"
    and inv: "rt_inv (interfaces n) (rtable n)" and c: "cargo_ok topo i (n\<lparr>outgoingqueue := q\<rparr>)"
    using assms(1) q by (auto simp: member_ok_def node_inv_def cargo_ok_def)
  have p: "pkt = ippkt m" "datalen m = length pkt" "length pkt \<le> sizeof_packet"
    using pkt m(1) by (auto simp: get_bytes_def put_def rcvmsg_ok_def split: if_splits)
  from m(2) obtain j where "faces topo i (rnext m) j" "frame_ok topo j pkt"
    unfolding arrived_ok_def p(1) by blast
  from transfer_data_cargo [OF i _ c this p(3) t [unfolded p(2)]] inv show ?thesis by simp
qed

section \<open>Sending and commands keep the cargo\<close>

lemma cargo_set_link:
  assumes "cargo_ok topo i n" and "buffered_ok topo i l"
  shows "cargo_ok topo i (n\<lparr>interfaces := (interfaces n)[k := l]\<rparr>)"
  using assms set_update_subset_insert [of "interfaces n" k l] by (fastforce simp: cargo_ok_def)

lemma in_step_cargo:
  assumes "member_ok topo i n" and "process_in_step n = Some (Inr n')"
  shows "cargo_ok topo i n'"
proof -
  from assms(2) obtain m q l where q: "incomingqueue n = m # q" and k: "ifc m < length (interfaces n)"
    and s: "send_frame (ippacket m) (msize m) (interfaces n ! ifc m) = Some (Inr l)"
    and n': "n' = n\<lparr>incomingqueue := q, interfaces := (interfaces n)[ifc m := l]\<rparr>"
    by (auto simp: process_in_step_def split: list.splits if_splits)
  have m: "ipmsg_ok (interfaces n) m" "frame_ok topo i (ippacket m)"
    and c: "cargo_ok topo i (n\<lparr>incomingqueue := q\<rparr>)"
    and b: "buffered_ok topo i (interfaces n ! ifc m)"
    using assms(1) q k by (auto simp: member_ok_def node_inv_def cargo_ok_def)
  have "buffered_ok topo i l"
    using s m b by (auto simp: send_frame_def get_bytes_def ipmsg_ok_def buffered_ok_def split: if_splits)
  from cargo_set_link [OF c this, of "ifc m"] show ?thesis by (simp add: n')
qed

lemma rip_step_cargo:
  assumes "member_ok topo i n" and "rip_timer_step now n = Some (Inr n')"
  shows "cargo_ok topo i n'"
proof -
  from assms(2) obtain ty q where q: "timerQueue n = ty # q" by (auto simp: rip_timer_step_def split: list.splits)
  let ?n = "n\<lparr>timerQueue := q\<rparr>"
  have inv: "rt_inv (interfaces n) (rtable n)" and i: "i < length topo" and c: "cargo_ok topo i ?n"
    using assms(1) by (simp_all add: member_ok_def node_inv_def cargo_ok_def)
  have "(if ty = 1 then prepare_msg 2 ?n else if ty = 2 then Inr (refresh_route_table now ?n) else Inr ?n) = Inr n'"
    using assms(2) by (simp add: rip_timer_step_def q Let_def)
  then consider "prepare_msg 2 ?n = Inr n'" | "refresh_route_table now ?n = n'" | "?n = n'"
    by (simp split: if_splits)
  then show ?thesis
  proof cases
    case 1
    then show ?thesis using prepare_msg_cargo [OF i _ c] inv by simp
  next
    case 2
    have "map_invar (rtable n)" using inv by (simp add: rt_inv_def)
    then show ?thesis
      using c by (simp add: 2 [symmetric] refresh_route_table_def cargo_ok_def refresh_loop_eq routes_ok_filter)
  qed (use c in simp)
qed

lemma down_cargo:
  assumes "member_ok topo i n" and "down_cmd k n = Inr n'"
  shows "cargo_ok topo i n'"
proof -
  from assms(2) obtain l msgs l' where l: "l = interfaces n ! k" "k < length (interfaces n)"
    and d: "link_down l = (msgs, l')"
    and p: "prepare_msg 2 (n\<lparr>console := console n @ msgs, interfaces := (interfaces n)[k := l'],
        rtable := remove_loop (vip_local l) (rtable n) (rtable n)\<rparr>) = Inr n'"
    by (auto simp: down_cmd_def interface_at_def remove_ifc_entry_def set_link_def prints_def
        split: prod.splits if_splits)
  have i: "i < length topo" and inv: "rt_inv (interfaces n) (rtable n)"
    and c: "cargo_ok topo i n" using assms(1) by (simp_all add: member_ok_def node_inv_def)
  have "buffered_ok topo i l" using c l by (auto simp: cargo_ok_def)
  then have b: "buffered_ok topo i l'" using d by (auto simp: link_down_def buffered_ok_def)
  have m: "map_invar (rtable n)" using inv by (simp add: rt_inv_def)
  have "cargo_ok topo i (n\<lparr>console := console n @ msgs, interfaces := (interfaces n)[k := l'],
        rtable := remove_loop (vip_local l) (rtable n) (rtable n)\<rparr>)"
    using cargo_set_link [OF c b, of k] by (simp add: cargo_ok_def remove_loop_eq [OF m] routes_ok_filter)
  moreover have "rt_inv (interfaces n) (remove_loop (vip_local l) (rtable n) (rtable n))"
    by (rule remove_inv [OF inv])
  ultimately show ?thesis using prepare_msg_cargo [OF i _ _ p] by auto
qed

lemma up_cargo:
  assumes "member_ok topo i n" and "up_cmd ai now k n = Inr n'"
  shows "cargo_ok topo i n'"
proof -
  from assms(2) obtain l msgs l' where l: "l = interfaces n ! k" "k < length (interfaces n)"
    and u: "link_up ai l = Inr (msgs, l')"
    and n': "n' = n\<lparr>console := console n @ msgs, interfaces := (interfaces n)[k := l'],
        rtable := map_assign (vip_local l) (own_entry now (vip_local l)) (rtable n)\<rparr>"
    by (auto simp: up_cmd_def interface_at_def add_ifc_entry_def set_link_def prints_def
        split: prod.splits if_splits)
  have c: "cargo_ok topo i n" using assms(1) by (simp add: member_ok_def)
  have "buffered_ok topo i l" using c l by (auto simp: cargo_ok_def)
  then have b: "buffered_ok topo i l'" using u by (auto simp: link_up_def Let_def buffered_ok_def)
  have "vip_local l \<in> my_addrs (snd (topo ! i))"
    using l unfolding member_addrs [OF assms(1), symmetric] by simp
  then show ?thesis
    using cargo_set_link [OF c b, of k] by (simp add: n' cargo_ok_def routes_ok_assign route_ok_own)
qed

text \<open>What leaves a send buffer, and what enters through \<open>recv_data\<close>.\<close>

lemma transmit_cargo:
  assumes "member_ok topo i n" and "l \<in> set (interfaces n)" and "sbufferReady l"
    and "send_data [int (sbuffersz l)] l = Some (Inr (chunks, l'))"
  shows "\<forall>c \<in> set chunks. frame_ok topo i c" and "buffered_ok topo i l'"
proof -
  have "link_ok l" using assms(1,2) by (auto simp: member_ok_def node_inv_def list_all_iff)
  with assms(3) obtain f where f: "sbuffer l = Some f" "length f = sbuffersz l"
    by (auto simp: link_ok_def split: option.splits)
  have ok: "frame_ok topo i f" using assms(1,2) f by (auto simp: member_ok_def cargo_ok_def buffered_ok_def)
  then have "0 < sbuffersz l" using f(2) by (simp add: frame_ok_def)
  with send_data_whole [OF f, of "[]"] assms(4) ok
  show "\<forall>c \<in> set chunks. frame_ok topo i c" "buffered_ok topo i l'" by (auto simp: buffered_ok_def)
qed

lemma recv_loop_last:
  assumes "recv_loop rs buf tot fl port = Inr (Some (buf', tot', port', rs'))"
    and "0 \<le> tot" and "\<forall>r \<in> set rs. r \<noteq> Recv_Error"
  shows "\<exists>d p junk. Datagram d p \<in> set rs \<and> buf' = take MAXBUFF d @ junk \<and> port' = Some p
    \<and> int (length (take MAXBUFF d)) \<le> tot'"
  using assms
proof (induction rs arbitrary: buf tot fl port)
  case (Cons r rs)
  then obtain d p where r: "r = Datagram d p" by (cases r) auto
  let ?m = "take MAXBUFF d"
  let ?buf = "?m @ drop (length ?m) buf" and ?tot = "tot + int (length ?m)"
  from Cons.prems(1) obtain fl' where "(if ?tot \<ge> uint fl' then Inr (Some (?buf, ?tot, Some p, rs))
      else recv_loop rs ?buf ?tot fl' (Some p)) = Inr (Some (buf', tot', port', rs'))"
    unfolding recv_loop.simps r recvfrom.simps Let_def prod.case by (elim bindE_InrE)
  then show ?case
  proof (cases "?tot \<ge> uint fl'")
    case True
    with Cons.prems(2) \<open>(if _ then _ else _) = _\<close>
    have "buf' = ?m @ drop (length ?m) buf" "port' = Some p" "int (length ?m) \<le> tot'" by (auto simp del: length_take)
    then show ?thesis unfolding r
      by - (rule exI [of _ d], rule exI [of _ p], rule exI [of _ "drop (length ?m) buf"], simp del: length_take)
  next
    case False
    with \<open>(if _ then _ else _) = _\<close> have l: "recv_loop rs ?buf ?tot fl' (Some p) = Inr (Some (buf', tot', port', rs'))"
      by simp
    have "0 \<le> ?tot" using Cons.prems(2) by simp
    with Cons.IH [OF l] Cons.prems(3) show ?thesis by (auto simp del: length_take)
  qed
qed simp

definition known_source :: "topology \<Rightarrow> u16 \<Rightarrow> byte list \<Rightarrow> bool" where
  "known_source topo p b \<longleftrightarrow> (\<exists>j < length topo. p = fst (topo ! j) \<and> frame_ok topo j b)"

lemma recv_cargo:
  assumes "member_ok topo i n" and "recv_data (map (\<lambda>d. Datagram (d_bytes d) (d_src d)) ds) n = Inr (Some (n', rs'))"
    and "\<forall>d \<in> set ds. known_source topo (d_src d) (d_bytes d)"
  shows "cargo_ok topo i n'"
proof -
  let ?rs = "map (\<lambda>d. Datagram (d_bytes d) (d_src d)) ds"
  from assms(2) obtain buf tot p l where lp: "recv_loop ?rs [] 0 0 None = Inr (Some (buf, tot, Some p, rs'))"
    and l: "interface_at (interfaces n) (get_interfaceid_with_port (interfaces n) p) = Inr l"
    and t: "\<not> tot < 0" "transfer_link_to_ip buf (nat tot) (vip_local l) n = Inr n'"
    by (auto simp: recv_data_def split: option.splits if_splits)
  from recv_loop_last [OF lp] obtain d junk where d: "d \<in> set ds" "p = d_src d"
    and buf: "buf = take MAXBUFF (d_bytes d) @ junk" and tot: "int (length (take MAXBUFF (d_bytes d))) \<le> tot"
    by (auto simp del: length_take)
  from assms(3) d obtain j where j: "j < length topo" "p = fst (topo ! j)" "frame_ok topo j (d_bytes d)"
    unfolding known_source_def by blast
  have "l \<in> set (interfaces n) \<and> remoteport l = p"
    using l by (auto simp: interface_at_def get_interfaceid_with_port_def split: option.splits if_splits
        dest: first_index_SomeD)
  then have "link_static l \<in> set (map link_static (snd (topo ! i)))" and rp: "remoteport l = p"
    using assms(1) by (auto simp: member_ok_def statics_eq simp del: set_map simp flip: in_set_conv_decomp)
      (metis image_eqI list.set_map)+
  then obtain l' where "l' \<in> set (snd (topo ! i))" "link_static l' = link_static l" by auto
  with rp j have f: "faces topo i (vip_local l) j" by (auto simp: faces_def link_static_def)
  have "take (nat tot) buf = take MAXBUFF (d_bytes d) @ take (nat tot - length (take MAXBUFF (d_bytes d))) junk"
    using tot unfolding buf take_append [of "nat tot"] by (simp only: take_all nat_le_iff)
  with frame_ok_truncated [OF j(3)] have "frame_ok topo j (take (nat tot) buf)" by simp
  moreover have "n' = n\<lparr>outgoingqueue := outgoingqueue n
      @ [\<lparr>datalen = nat tot, rnext = vip_local l, ippkt = take (nat tot) buf\<rparr>]\<rparr>"
    using t(2) by (auto simp: transfer_link_to_ip_def get_bytes_def put_def split: if_splits)
  moreover have "cargo_ok topo i n" using assms(1) by (simp add: member_ok_def)
  ultimately show ?thesis using f by (auto simp: cargo_ok_def arrived_ok_def)
qed

section \<open>The invariant of the network\<close>

lemma member_step:
  assumes "member_ok topo i n" and "node_step ev n = Some (Inr n')" and "cargo_ok topo i n'"
  shows "member_ok topo i n'"
proof -
  have "good_outcome ev n (Inr n')" using node_step_good assms(1,2) by (simp add: member_ok_def)
  then show ?thesis using assms(1,3) by (simp add: good_outcome_def keeps_def member_ok_def)
qed

lemma internal_cargo:
  assumes "member_ok topo i n" and "internal ev" and "node_step ev n = Some (Inr n')"
  shows "cargo_ok topo i n'"
proof (cases ev)
  case (Link_Round k rd wr)
  then show ?thesis
    using assms by (auto simp: internal_def send_and_receive_def recv_part_def send_part_def member_ok_def split: if_splits)
next
  case (Timer_Signal t)
  then show ?thesis using assms by (auto simp: member_ok_def cargo_ok_def)
next
  case (Send_Cmd dest proto data)
  then show ?thesis using assms application_cargo by (auto simp: internal_def member_ok_def)
qed (use assms in \<open>auto intro: in_step_cargo out_step_cargo rip_step_cargo down_cargo up_cargo\<close>)

lemma transmit_step:
  assumes "member_ok topo i n" and "k < length (interfaces n)" and "l = interfaces n ! k" and "sbufferReady l"
    and "send_data [int (sbuffersz l)] l = Some (Inr (chunks, l'))"
    and "node_step (Link_Round k None (Some [int (sbuffersz l)])) n = Some (Inr n')"
  shows "cargo_ok topo i n' \<and> (\<forall>c \<in> set chunks. frame_ok topo i c)"
proof -
  have l: "l \<in> set (interfaces n)" using assms(2,3) by simp
  note t = transmit_cargo [OF assms(1) l assms(4,5)]
  have "n' = set_link k l' n"
    using assms(3-6) by (auto simp: send_and_receive_def recv_part_def send_part_def split: if_splits)
  then show ?thesis
    using cargo_set_link [OF _ t(2)] t(1) assms(1) by (simp add: set_link_def member_ok_def)
qed

definition net_ok :: "topology \<Rightarrow> net \<Rightarrow> bool" where
  "net_ok topo N \<longleftrightarrow> length (net_nodes N) = length topo
     \<and> (\<forall>i < length topo. member_ok topo i (net_nodes N ! i))
     \<and> (\<forall>d \<in> set (net_sent N). known_source topo (d_src d) (d_bytes d))"

lemma net_ok_update:
  "net_ok topo N \<Longrightarrow> member_ok topo i n' \<Longrightarrow> net_ok topo (N\<lparr>net_nodes := (net_nodes N)[i := n']\<rparr>)"
  unfolding net_ok_def by (simp add: nth_list_update member_ok_index)

lemma init_member:
  assumes "i < length topo" and "\<forall>l \<in> set (snd (topo ! i)). fresh_link l"
    and "rip_init clock (fresh_node (snd (topo ! i))) = Inr n"
  shows "member_ok topo i n"
proof -
  let ?ifs = "snd (topo ! i)"
  let ?n = "(fresh_node ?ifs)\<lparr>rtable := init_loop clock 0 ?ifs []\<rparr>"
  have r: "routes_ok topo i (init_loop clock k ls rt)" if "routes_ok topo i rt" "set ls \<subseteq> set ?ifs" for k ls rt
    using that
    by (induction ls arbitrary: k rt) (simp_all add: routes_ok_assign route_ok_own my_addrs_def)
  have "routes_ok topo i (init_loop clock 0 ?ifs [])" by (rule r) (simp_all add: routes_ok_def)
  then have c: "cargo_ok topo i ?n"
    using assms(2) by (auto simp: cargo_ok_def fresh_node_def fresh_link_def buffered_ok_def)
  have "rt_inv ?ifs (rtable ?n)" using init_loop_inv [OF rt_inv_empty, of ?ifs ?ifs] by simp
  from prepare_msg_cargo [OF assms(1) this c] assms(3) have "cargo_ok topo i n"
    by (simp add: rip_init_def fresh_node_def)
  with rip_init_inv [OF assms(2,3)] assms(1) show ?thesis by (simp add: member_ok_def statics_eq)
qed

lemma net_step_ok: "net_step S topo N N' \<Longrightarrow> net_ok topo N \<Longrightarrow> net_ok topo N'"
proof (induction rule: net_step.induct)
  case (net_event i ev N n')
  then have m: "member_ok topo i (net_nodes N ! i)" by (simp add: net_ok_def)
  show ?case
    by (rule net_ok_update [OF net_event.prems member_step [OF m net_event.hyps(4)
          internal_cargo [OF m net_event.hyps(2,4)]]])
next
  case (net_transmit i k N l chunks l' n')
  then have m: "member_ok topo i (net_nodes N ! i)" by (simp add: net_ok_def)
  note t = transmit_step [OF m net_transmit.hyps(2,3,5,6,7)]
  have "net_ok topo (N\<lparr>net_nodes := (net_nodes N)[i := n']\<rparr>)"
    using net_transmit.prems member_step [OF m net_transmit.hyps(7)] t by (intro net_ok_update) auto
  with t net_transmit.hyps(1) show ?case by (auto simp: net_ok_def known_source_def)
next
  case (net_deliver i ds N k n')
  then have m: "member_ok topo i (net_nodes N ! i)" by (simp add: net_ok_def)
  obtain rs' where r: "recv_data (map (\<lambda>d. Datagram (d_bytes d) (d_src d)) ds) (net_nodes N ! i) = Inr (Some (n', rs'))"
    using net_deliver.hyps(4)
    by (auto simp: send_and_receive_def recv_part_def send_part_def split: if_splits option.splits sum.splits)
  have "\<forall>d \<in> set ds. known_source topo (d_src d) (d_bytes d)"
    using net_deliver.prems net_deliver.hyps(2) by (auto simp: net_ok_def)
  from recv_cargo [OF m r this] have "cargo_ok topo i n'" .
  with member_step [OF m net_deliver.hyps(4)] net_deliver.prems show ?case by (intro net_ok_update)
qed

lemma net_run_ok: "net_run S topo N \<Longrightarrow> net_ok topo N"
proof (induction rule: net_run.induct)
  case (net_start ns clocks)
  have "member_ok topo i (ns ! i)" if i: "i < length topo" for i
  proof (rule init_member [OF i])
    show "\<forall>l \<in> set (snd (topo ! i)). fresh_link l" using net_start(1) nth_mem [OF i] by blast
    show "rip_init (clocks i) (fresh_node (snd (topo ! i))) = Inr (ns ! i)" using net_start(3) i by blast
  qed
  with net_start(2) show ?case by (simp add: net_ok_def)
qed (rule net_step_ok)

section \<open>A sample network\<close>

text \<open>Nodes A and B of \<open>src/nets/routeAggregation/tree\<close>.\<close>

definition AB_topo :: topology where
  "AB_topo = [(17000, A_ifs), (17001, B_ifs)]"

definition B_own_rt :: rtable where
  "B_own_rt = [(0x0A000009, route 0x0A000009 0 0x0A000009 100), (0x0A00000E, route 0x0A00000E 0 0x0A00000E 100)]"

definition B_start :: node where
  "B_start = (node_of B_ifs B_own_rt)\<lparr>incomingqueue := map (rip_ipmsg 1 B_ifs B_own_rt) [0, 1]\<rparr>"

lemma rip_init_B: "rip_init (\<lambda>_. at_sec 100) (fresh_node B_ifs) = Inr B_start"
proof -
  have i: "init_loop (\<lambda>_. at_sec 100) 0 B_ifs [] = B_own_rt"
    by (simp add: sample_defs B_own_rt_def own_entry_def RIP_MASK_def)
  have u: "up_ids B_ifs = [0, 1]" by (simp add: up_ids_def sample_defs upt_rec)
  have "length B_own_rt \<le> MAX_ENTRIES" by (simp add: B_own_rt_def MAX_ENTRIES_def)
  then show ?thesis
    by (simp add: rip_init_def fresh_node_def i prepare_msg_eq u B_start_def node_of_def)
qed

definition AB_start :: net where
  "AB_start = \<lparr>net_nodes = [A_start, B_start], net_sent = []\<rparr>"

lemma AB_reachable: "net_run S AB_topo AB_start"
  unfolding AB_start_def
proof (rule net_start)
  show "\<forall>p \<in> set AB_topo. \<forall>l \<in> set (snd p). fresh_link l"
    using fresh_A by (auto simp: AB_topo_def B_ifs_def link_of_def fresh_link_def)
  show "\<forall>i < length AB_topo. rip_init (\<lambda>_. at_sec 100) (fresh_node (snd (AB_topo ! i))) = Inr ([A_start, B_start] ! i)"
    using rip_init_A rip_init_B by (auto simp: AB_topo_def less_Suc_eq)
qed (simp add: AB_topo_def)

section \<open>Properties\<close>

text \<open>
  C4: in every state that any interleaving of the nodes, with loss, duplication, delay and reordering
  of datagrams and with links going up and down, can reach: a route of node \<open>i\<close> for an address costs at
  most 16, and either the address is the node's own (cost 0) or the route's next hop is an interface that
  faces a node from which a path of exactly one link less than the cost leads to the owner of the address.
\<close>

theorem network_routes_sound:
  assumes "net_reachable topo N" and "i < length topo"
    and "map_find (rtable (net_nodes N ! i)) a = Some w"
  shows "unat (cost (ent w)) \<le> 16
    \<and> (case unat (cost (ent w)) of
         0 \<Rightarrow> a \<in> my_addrs (snd (topo ! i))
       | Suc c \<Rightarrow> \<exists>j. faces topo i (next_hop w) j \<and> path topo j a c)"
proof -
  have "member_ok topo i (net_nodes N ! i)" using net_run_ok [OF assms(1)] assms(2) by (simp add: net_ok_def)
  then have "routes_ok topo i (rtable (net_nodes N ! i))" by (simp add: member_ok_def cargo_ok_def)
  with map_find_SomeD [OF assms(3)] have "route_ok topo i a w" by (fastforce simp: routes_ok_def)
  then show ?thesis by (simp add: route_ok_def)
qed

theorem network_routes_sound_witness:
  "\<exists>w. map_find (rtable (net_nodes AB_start ! 1)) 0x0A000009 = Some w \<and> unat (cost (ent w)) \<le> 16
     \<and> 0x0A000009 \<in> my_addrs (snd (AB_topo ! 1))"
proof -
  have f: "map_find (rtable (net_nodes AB_start ! 1)) 0x0A000009 = Some (route 0x0A000009 0 0x0A000009 100)"
    by (simp add: AB_start_def B_start_def node_of_def B_own_rt_def)
  have "1 < length AB_topo" by (simp add: AB_topo_def)
  from network_routes_sound [OF AB_reachable this f] f show ?thesis by (auto simp: route_def)
qed

end
