(* ===== verification/Node_Frames.thy ===== *)
theory Node_Frames
  imports Delivery
begin

text \<open>
  The packets a node holds.  The locale \<open>traffic\<close> describes a class of packets that is closed under what
  the node does: it contains what \<open>build_ip_packet\<close> builds and what forwarding makes of the arriving
  packets.  Every event then keeps the queue of packets to send and the send buffers in the class, and
  the console lines in a set.  The class of the packets with a correct checksum needs nothing of
  the arrivals.
\<close>

section \<open>Packets with a correct header checksum\<close>

definition framed :: "(iphdr \<Rightarrow> byte list \<Rightarrow> bool) \<Rightarrow> byte list \<Rightarrow> bool" where
  "framed P b \<longleftrightarrow> (\<exists>h d. b = iphdr_bytes h @ d \<and> summed h \<and> P h d)"

definition filled :: "iphdr \<Rightarrow> iphdr" where
  "filled h = h\<lparr>check := header_sum h\<rparr>"

lemma filled_sel [simp]:
  "ihl (filled h) = ihl h" "version (filled h) = version h" "tot_len (filled h) = tot_len h"
  "protocol (filled h) = protocol h" "saddr (filled h) = saddr h" "daddr (filled h) = daddr h"
  by (simp_all add: filled_def)

lemma summed_filled [simp]: "summed (filled h)"
  by (simp add: filled_def)

lemma forwarded_sel [simp]:
  "ihl (forwarded_header h) = ihl h" "version (forwarded_header h) = version h"
  "tot_len (forwarded_header h) = tot_len h" "saddr (forwarded_header h) = saddr h"
  "daddr (forwarded_header h) = daddr h" "protocol (forwarded_header h) = 0xff"
  "ttl (forwarded_header h) = ttl h - 1" "summed (forwarded_header h)"
  by (simp_all add: forwarded_header_def Let_def)

text \<open>The header is read off the bytes.\<close>

lemma iphdr_bytes_inj:
  assumes "iphdr_bytes h @ d = iphdr_bytes h' @ d'"
  shows "h = h'" and "d = d'"
proof -
  have b: "iphdr_bytes h = iphdr_bytes h'" "d = d'" using assms by (simp_all add: append_eq_append_conv)
  then show "d = d'" by simp
  have w16: "v = w" if "bytes16 v = bytes16 w" for v w
    using that rd16_bytes16 [of v "[]"] rd16_bytes16 [of w "[]"] by simp
  have w32: "v = w" if "bytes32 v = bytes32 w" for v w
    using that rd32_bytes32 [of v "[]"] rd32_bytes32 [of w "[]"] by simp
  have n: "(ucast i OR push_bit 4 (ucast v) :: u8) = ucast i' OR push_bit 4 (ucast v') \<Longrightarrow> i = i' \<and> v = v'"
    for i v i' v' :: "4 word"
  proof -
    assume e: "(ucast i OR push_bit 4 (ucast v) :: u8) = ucast i' OR push_bit 4 (ucast v')"
    have lo: "(ucast (ucast x OR push_bit 4 (ucast y) :: u8) :: 4 word) = x" for x y :: "4 word"
      by (rule bit_word_eqI) (auto simp: bit_simps)
    have hi: "(ucast (drop_bit 4 (ucast x OR push_bit 4 (ucast y) :: u8)) :: 4 word) = y" for x y :: "4 word"
      by (rule bit_word_eqI) (auto simp: bit_simps dest: bit_imp_le_length)
    from e lo [of i v] lo [of i' v'] hi [of i v] hi [of i' v'] show ?thesis by simp
  qed
  have "ihl h = ihl h' \<and> version h = version h' \<and> tos h = tos h' \<and> tot_len h = tot_len h' \<and> ident h = ident h'
    \<and> frag_off h = frag_off h' \<and> ttl h = ttl h' \<and> protocol h = protocol h' \<and> check h = check h'
    \<and> saddr h = saddr h' \<and> daddr h = daddr h'"
    using b(1) unfolding iphdr_bytes_def by (auto simp: append_eq_append_conv dest: w16 w32 n)
  then show "h = h'" by simp
qed

lemma framed_iff: "framed P (iphdr_bytes h @ d) \<longleftrightarrow> summed h \<and> P h d"
  using iphdr_bytes_inj unfolding framed_def by blast

lemma framed_length: "framed P b \<Longrightarrow> 20 \<le> length b"
  by (auto simp: framed_def)

lemma framed_cases:
  assumes "framed P b"
  obtains h d where "b = iphdr_bytes h @ d" and "summed h" and "P h d"
  using assms unfolding framed_def by blast

section \<open>What a node holds\<close>

definition frames_ok :: "(iphdr \<Rightarrow> byte list \<Rightarrow> bool) \<Rightarrow> node \<Rightarrow> bool" where
  "frames_ok P n \<longleftrightarrow> (\<forall>m \<in> set (incomingqueue n). framed P (ippacket m))
     \<and> (\<forall>l \<in> set (interfaces n). \<forall>f. sbuffer l = Some f \<longrightarrow> framed P f)"

definition holds :: "u32 set \<Rightarrow> (byte list \<Rightarrow> bool) \<Rightarrow> (iphdr \<Rightarrow> byte list \<Rightarrow> bool) \<Rightarrow> (console_line \<Rightarrow> bool) \<Rightarrow> node \<Rightarrow> bool" where
  "holds own A P C n \<longleftrightarrow> my_addrs (interfaces n) = own \<and> frames_ok P n \<and> (\<forall>m \<in> set (outgoingqueue n). A (ippkt m)) \<and> list_all C (console n)"

text \<open>The lines that do not report on a packet.\<close>

definition status_line :: "console_line \<Rightarrow> bool" where
  "status_line x \<longleftrightarrow> (case x of Checksum_Difference a b \<Rightarrow> False | Received_Packet i s d p l b \<Rightarrow> False
     | Ttl_Expired \<Rightarrow> False | _ \<Rightarrow> True)"

lemma status_line_simps [simp]:
  "status_line Destination_Unreachable" "status_line Unrecognised_Type" "status_line Iface_Already_Up"
  "status_line Iface_Already_Down" "status_line (Iface_Closing fd)"
  by (simp_all add: status_line_def)

text \<open>The line \<open>deliver_packet\<close> prints for a packet.\<close>

definition report :: "int \<Rightarrow> iphdr \<Rightarrow> byte list \<Rightarrow> console_line" where
  "report iid h d = Received_Packet iid (saddr h) (daddr h) (protocol h) (int (20 + length d) - int (4 * unat (ihl h)))
     (takeWhile (\<lambda>b. b \<noteq> 0) (drop (4 * unat (ihl h)) (iphdr_bytes (h\<lparr>check := 0\<rparr>) @ d)))"

section \<open>Classes of traffic\<close>

locale traffic =
  fixes own :: "u32 set" and issue :: "u32 \<Rightarrow> u8 \<Rightarrow> byte list \<Rightarrow> bool" and arrive :: "byte list \<Rightarrow> bool"
    and P :: "iphdr \<Rightarrow> byte list \<Rightarrow> bool" and C :: "console_line \<Rightarrow> bool"
  assumes rip_packet: "s \<in> own \<Longrightarrow> length d \<le> packet_data_cap
      \<Longrightarrow> P (filled (fresh_header s t RIP_PROTO (length d))) d"
    and application_packet: "issue dest proto d \<Longrightarrow> s \<in> own \<Longrightarrow> length d \<le> packet_data_cap
      \<Longrightarrow> P (filled (fresh_header s (ntohl dest) proto (length d))) d"
    and transit_packet: "arrive (iphdr_bytes h @ d) \<Longrightarrow> summed h \<Longrightarrow> protocol h \<noteq> RIP_PROTO
      \<Longrightarrow> P (forwarded_header h) d"
    and rejected_packet: "arrive (iphdr_bytes h @ d) \<Longrightarrow> \<not> summed h
      \<Longrightarrow> C (Checksum_Difference (check h) (header_sum h))"
    and delivered_packet: "arrive (iphdr_bytes h @ d) \<Longrightarrow> summed h \<Longrightarrow> protocol h \<noteq> RIP_PROTO
      \<Longrightarrow> ntohl (daddr h) \<in> own \<Longrightarrow> 4 * unat (ihl h) \<le> 20 + length d \<Longrightarrow> C (report iid h d)"
    and status_printed: "status_line x \<Longrightarrow> C x"
begin

abbreviation keeping :: "node \<Rightarrow> bool" where
  "keeping \<equiv> holds own arrive P C"

lemma keeping_print: "keeping n \<Longrightarrow> C x \<Longrightarrow> keeping (print x n)"
  by (simp add: holds_def frames_ok_def)

lemma keeping_rtable [simp]: "keeping (n\<lparr>rtable := rt\<rparr>) = keeping n"
  by (simp add: holds_def frames_ok_def)

lemma keeping_queue: "keeping n \<Longrightarrow> framed P (ippacket m) \<Longrightarrow> keeping (n\<lparr>incomingqueue := incomingqueue n @ [m]\<rparr>)"
  by (auto simp: holds_def frames_ok_def)

lemma keeping_link:
  assumes "keeping n" and "(\<forall>f. sbuffer l = Some f \<longrightarrow> framed P f) \<and> link_static l = link_static (interfaces n ! k)"
  shows "keeping (n\<lparr>interfaces := (interfaces n)[k := l]\<rparr>)"
proof -
  have "map link_static ((interfaces n)[k := l]) = map link_static (interfaces n)"
    using assms(2) by (metis list_update_id map_update)
  then have "my_addrs ((interfaces n)[k := l]) = my_addrs (interfaces n)" by (rule my_addrs_static)
  with assms set_update_subset_insert [of "interfaces n" k l] show ?thesis
    by (fastforce simp: holds_def frames_ok_def)
qed

lemma own_link: "my_addrs (interfaces n) = own \<Longrightarrow> k < length (interfaces n) \<Longrightarrow> vip_local (interfaces n ! k) \<in> own"
  by auto

lemma keeping_nth:
  assumes "keeping n" and "k < length (interfaces n)"
  shows "\<forall>f. sbuffer (interfaces n ! k) = Some f \<longrightarrow> framed P f" and "vip_local (interfaces n ! k) \<in> own"
  using assms by (auto simp: holds_def frames_ok_def)

lemma rip_framed:
  assumes "my_addrs (interfaces n) = own" and "k < length (interfaces n)" and "length (rtable n) \<le> MAX_ENTRIES"
  shows "framed P (ippacket (rip_ipmsg t (interfaces n) (rtable n) k))"
proof -
  let ?p = "rip_payload t (adverts (vip_local (interfaces n ! k)) (rtable n))"
  have "length ?p \<le> packet_data_cap"
    using assms(3) by (simp add: length_rip_payload MAX_ENTRIES_def packet_data_cap_def)
  from rip_packet [OF own_link [OF assms(1,2)] this, of "vip_remote (interfaces n ! k)"] show ?thesis
    by (simp add: rip_ipmsg_def Let_def framed_iff rip_header_def filled_def)
qed

lemma keeping_prepare:
  assumes "keeping n" and "prepare_msg t n = Inr n'"
  shows "keeping n'"
proof -
  from assms(2) have n': "n' = n\<lparr>incomingqueue := incomingqueue n
      @ map (rip_ipmsg t (interfaces n) (rtable n)) (up_ids (interfaces n))\<rparr>"
    and l: "length (rtable n) \<le> MAX_ENTRIES \<or> up_ids (interfaces n) = []"
    by (auto simp: prepare_msg_cases split: if_splits)
  have "\<forall>k \<in> set (up_ids (interfaces n)). framed P (ippacket (rip_ipmsg t (interfaces n) (rtable n) k))"
  proof
    fix k assume "k \<in> set (up_ids (interfaces n))"
    then have "k < length (interfaces n)" and "up_ids (interfaces n) \<noteq> []"
      by (simp add: up_ids_def, force)
    with assms(1) l show "framed P (ippacket (rip_ipmsg t (interfaces n) (rtable n) k))"
      by (intro rip_framed) (simp_all add: holds_def)
  qed
  with assms(1) show ?thesis by (auto simp: n' holds_def frames_ok_def)
qed

lemma keeping_rip:
  assumes "keeping n" and "transfer_ip_to_rip clock d next n = Inr n'"
  shows "keeping n'"
proof -
  have u: "keeping (print Unrecognised_Type n)" by (rule keeping_print [OF assms(1) status_printed]) simp
  from assms(2) obtain w where w: "(if ntohs w = 1 then prepare_msg 2 n
      else if ntohs w = 2
      then bindE (update_route_table clock (drop 2 d) next (interfaces n) (rtable n)) (\<lambda>rt. Inr (n\<lparr>rtable := rt\<rparr>))
      else Inr (print Unrecognised_Type n)) = Inr n'"
    unfolding transfer_ip_to_rip_def Let_def by (elim bindE_InrE)
  show ?thesis
  proof (cases "ntohs w = 2")
    case True
    with w obtain rt where "n' = n\<lparr>rtable := rt\<rparr>" unfolding bindE_Inr_iff by auto
    with assms(1) show ?thesis by simp
  next
    case False
    with w u keeping_prepare [OF assms(1), of 2] show ?thesis by (simp split: if_splits)
  qed
qed

lemma keeping_transit:
  assumes "keeping n" and "framed P b" and "transfer_transit_data dest b (length b) n = Inr n'"
  shows "keeping n'"
proof -
  have "n' = print Destination_Unreachable n
      \<or> (\<exists>i. n' = n\<lparr>incomingqueue := incomingqueue n @ [\<lparr>ifc = i, msize = length b, ippacket = b\<rparr>]\<rparr>)"
    using assms(3)
    by (auto simp: transfer_transit_data_def Let_def get_bytes_def put_def split: option.splits if_splits)
  then show ?thesis
    using keeping_print [OF assms(1) status_printed] keeping_queue [OF assms(1)] assms(2)
    by (elim disjE exE) simp_all
qed

lemma keeping_deliver:
  assumes "keeping n" and "arrive (iphdr_bytes h @ d)" and "summed h" and "protocol h \<noteq> RIP_PROTO"
    and "ntohl (daddr h) \<in> own" and "length d \<le> packet_data_cap"
    and "deliver_packet iid (iphdr_bytes (h\<lparr>check := 0\<rparr>) @ d) (20 + length d) (4 * unat (ihl h)) (protocol h) n = Inr n'"
  shows "keeping n'"
proof -
  have l: "length d < packet_data_cap" "4 * unat (ihl h) \<le> 20 + length d"
    using assms(6,7) by (auto simp: deliver_packet_def put_def packet_data_cap_def sizeof_packet_def split: if_splits)
  have "n' = print (report iid h d) n"
    using assms(7) deliver_packet_eq [OF l, of iid "h\<lparr>check := 0\<rparr>" "protocol h" n] by (simp add: report_def)
  with keeping_print [OF assms(1) delivered_packet [OF assms(2-5) l(2)]] show ?thesis by simp
qed

lemma keeping_transfer_data:
  assumes n: "keeping n" and b: "arrive b" "length b \<le> sizeof_packet"
    and t: "transfer_data clock b (length b) next n = Inr n'"
  shows "keeping n'"
proof -
  have "20 \<le> length b" using t by (auto simp: transfer_data_def rd32_def split: if_splits)
  then have "length (take 20 b) = 20" by simp
  then obtain h where h: "iphdr_bytes h = take 20 b" by (rule iphdr_bytes_surj)
  define d where "d = drop 20 b"
  have e: "b = iphdr_bytes h @ d" by (simp add: h d_def)
  have a: "arrive (iphdr_bytes h @ d)" and l: "length d \<le> packet_data_cap" and z: "length b = 20 + length d"
    using b by (simp_all add: e sizeof_packet_def packet_data_cap_def)
  have o: "my_addrs (interfaces n) = own" using n by (simp add: holds_def)
  note eq = t [unfolded z, unfolded e transfer_data_eq [OF l] Let_def forward_packet_eq [OF l]]
  have f: "forwarded_header (h\<lparr>check := 0\<rparr>) = forwarded_header h"
    by (simp add: forwarded_header_def header_sum_def Let_def)
  consider "\<not> summed h" | "summed h" "protocol h = RIP_PROTO"
    | "summed h" "protocol h \<noteq> RIP_PROTO" "ntohl (daddr h) \<in> own"
    | "summed h" "protocol h \<noteq> RIP_PROTO" "ntohl (daddr h) \<notin> own" by blast
  then show ?thesis
  proof cases
    case 1
    with eq keeping_print [OF n rejected_packet [OF a]] show ?thesis by (auto simp: summed_def)
  next
    case 2
    with eq n keeping_rip [OF n] show ?thesis by (auto simp: summed_def split: option.splits if_splits)
  next
    case 3
    with eq o keeping_deliver [OF n a 3 l] show ?thesis by (auto simp: summed_def)
  next
    case 4
    let ?f = "iphdr_bytes (forwarded_header h) @ d"
    have "framed P ?f" using transit_packet [OF a 4(1,2)] by (simp add: framed_iff)
    moreover have "transfer_transit_data (ntohl (daddr h)) ?f (length ?f) n = Inr n'"
      using eq 4 o by (simp add: summed_def f)
    ultimately show ?thesis by (rule keeping_transit [OF n])
  qed
qed

lemma keeping_out_step:
  assumes "node_inv n" and "keeping n" and "process_out_step clock n = Some (Inr n')"
  shows "keeping n'"
proof -
  from assms(3) obtain m q pkt where q: "outgoingqueue n = m # q"
    and pkt: "bindE (get_bytes (ippkt m) (datalen m)) (put sizeof_packet [] 0) = Inr pkt"
    and t: "transfer_data clock pkt (datalen m) (rnext m) (n\<lparr>outgoingqueue := q\<rparr>) = Inr n'"
    by (auto simp: process_out_step_def split: list.splits)
  have m: "rcvmsg_ok (interfaces n) m" "arrive (ippkt m)" and k: "keeping (n\<lparr>outgoingqueue := q\<rparr>)"
    using assms(1,2) q by (auto simp: node_inv_def holds_def frames_ok_def)
  have p: "pkt = ippkt m" "datalen m = length pkt" "length pkt \<le> sizeof_packet"
    using pkt m(1) by (auto simp: get_bytes_def put_def rcvmsg_ok_def split: if_splits)
  from m(2) have "arrive pkt" by (simp add: p(1))
  from keeping_transfer_data [OF k this p(3) t [unfolded p(2)]] show ?thesis .
qed

lemma keeping_in_step:
  assumes "node_inv n" and "keeping n" and "process_in_step n = Some (Inr n')"
  shows "keeping n'"
proof -
  from assms(3) obtain m q l where q: "incomingqueue n = m # q" and k: "ifc m < length (interfaces n)"
    and s: "send_frame (ippacket m) (msize m) (interfaces n ! ifc m) = Some (Inr l)"
    and n': "n' = n\<lparr>incomingqueue := q, interfaces := (interfaces n)[ifc m := l]\<rparr>"
    by (auto simp: process_in_step_def split: list.splits if_splits)
  have m: "ipmsg_ok (interfaces n) m" "framed P (ippacket m)" and c: "keeping (n\<lparr>incomingqueue := q\<rparr>)"
    using assms(1,2) q by (auto simp: node_inv_def holds_def frames_ok_def)
  note b = keeping_nth(1) [OF assms(2) k]
  have "(\<forall>f. sbuffer l = Some f \<longrightarrow> framed P f) \<and> link_static l = link_static (interfaces n ! ifc m)"
    using s m b by (auto simp: send_frame_def get_bytes_def ipmsg_ok_def link_static_def split: if_splits)
  with keeping_link [OF c, of l "ifc m"] show ?thesis by (simp add: n')
qed

lemma keeping_rip_step:
  assumes "keeping n" and "rip_timer_step now n = Some (Inr n')"
  shows "keeping n'"
proof -
  from assms(2) obtain ty q where q: "timerQueue n = ty # q" by (auto simp: rip_timer_step_def split: list.splits)
  let ?n = "n\<lparr>timerQueue := q\<rparr>"
  have k: "keeping ?n" "keeping (refresh_route_table now ?n)"
    using assms(1) by (simp_all add: holds_def frames_ok_def refresh_route_table_def)
  have "(if ty = 1 then prepare_msg 2 ?n else if ty = 2 then Inr (refresh_route_table now ?n) else Inr ?n) = Inr n'"
    using assms(2) by (simp add: rip_timer_step_def q Let_def)
  then show ?thesis using keeping_prepare [OF k(1)] k by (simp split: if_splits)
qed

lemma keeping_down:
  assumes "keeping n" and "down_cmd k n = Inr n'"
  shows "keeping n'"
proof -
  from assms(2) obtain l msgs l' where l: "l = interfaces n ! k" "k < length (interfaces n)"
    and d: "link_down l = (msgs, l')"
    and p: "prepare_msg 2 (n\<lparr>console := console n @ msgs, interfaces := (interfaces n)[k := l'],
        rtable := remove_loop (vip_local l) (rtable n) (rtable n)\<rparr>) = Inr n'"
    by (auto simp: down_cmd_def interface_at_def remove_ifc_entry_def set_link_def prints_def
        split: prod.splits if_splits)
  have c: "keeping (n\<lparr>console := console n @ msgs\<rparr>)"
    using assms(1) d by (auto simp: holds_def frames_ok_def link_down_def intro!: status_printed)
  have "(\<forall>f. sbuffer l' = Some f \<longrightarrow> framed P f) \<and> link_static l' = link_static (interfaces n ! k)"
    using keeping_nth(1) [OF assms(1) l(2)] d l(1) by (auto simp: link_down_def link_static_def)
  with keeping_link [OF c, of l' k] keeping_prepare [OF _ p] show ?thesis by simp
qed

lemma keeping_up:
  assumes "keeping n" and "up_cmd ai now k n = Inr n'"
  shows "keeping n'"
proof -
  from assms(2) obtain l msgs l' where l: "l = interfaces n ! k" "k < length (interfaces n)"
    and u: "link_up ai l = Inr (msgs, l')"
    and n': "n' = n\<lparr>console := console n @ msgs, interfaces := (interfaces n)[k := l'],
        rtable := map_assign (vip_local l) (own_entry now (vip_local l)) (rtable n)\<rparr>"
    by (auto simp: up_cmd_def interface_at_def add_ifc_entry_def set_link_def prints_def
        split: prod.splits if_splits)
  have c: "keeping (n\<lparr>console := console n @ msgs\<rparr>)"
    using assms(1) u by (auto simp: holds_def frames_ok_def link_up_def Let_def intro!: status_printed split: if_splits)
  have "(\<forall>f. sbuffer l' = Some f \<longrightarrow> framed P f) \<and> link_static l' = link_static (interfaces n ! k)"
    using keeping_nth(1) [OF assms(1) l(2)] u l(1) by (auto simp: link_up_def link_static_def Let_def)
  with keeping_link [OF c, of l' k] show ?thesis by (simp add: n')
qed

lemma keeping_send:
  assumes "keeping n" and "issue dest proto (take datasz data)"
    and "transfer_application_to_ip dest proto data datasz n = Inr n'"
  shows "keeping n'"
proof (cases "get_interface (interfaces n) (get_next_address (rtable n) (ntohl dest) DEFAULT_ADDR)")
  case None
  with assms(3) keeping_print [OF assms(1) status_printed, of Destination_Unreachable] show ?thesis
    by (simp add: transfer_application_to_ip_def Let_def)
next
  case (Some i)
  let ?s = "vip_local (interfaces n ! i)" and ?d = "take datasz data"
  let ?b = "iphdr_bytes (filled (fresh_header ?s (ntohl dest) proto datasz)) @ ?d"
  have z: "datasz \<le> length data" "datasz \<le> packet_data_cap"
    and n': "n' = n\<lparr>incomingqueue := incomingqueue n @ [\<lparr>ifc = i, msize = 20 + datasz, ippacket = ?b\<rparr>]\<rparr>"
    using assms(3) Some
    by (auto simp: transfer_application_to_ip_def Let_def build_ip_packet_eq filled_def split: if_splits)
  have "?s \<in> own" using get_interface_SomeD [OF Some] keeping_nth(2) [OF assms(1)] by blast
  with application_packet [OF assms(2) this] z have "framed P ?b" by (simp add: framed_iff)
  with keeping_queue [OF assms(1)] show ?thesis by (simp add: n')
qed

text \<open>The two halves of a link round.\<close>

lemma keeping_send_part:
  assumes "keeping n" and "i < length (interfaces n)" and "send_part i wr n = Some (Inr n')"
  shows "keeping n'"
proof (cases "n' = n")
  case False
  with assms(3) obtain results sent l where r: "send_data results (interfaces n ! i) = Some (Inr (sent, l))"
    and n': "n' = set_link i l n"
    by (auto simp: send_part_def split: option.splits if_splits)
  have "sbuffer l = None \<and> link_static l = link_static (interfaces n ! i)"
    using r by (auto simp: send_data_def link_static_def split: option.splits if_splits)
  with keeping_link [OF assms(1), of l i] show ?thesis by (simp add: n' set_link_def)
qed (use assms(1) in simp)

lemma keeping_recv:
  assumes "keeping n" and "recv_data rs n = Inr (Some (n', rs'))"
    and "\<And>m. outgoingqueue n' = outgoingqueue n @ [m] \<Longrightarrow> arrive (ippkt m)"
  shows "keeping n'"
proof -
  from assms(2) obtain m where "n' = n\<lparr>outgoingqueue := outgoingqueue n @ [m]\<rparr>"
    by (auto simp: recv_data_def transfer_link_to_ip_def split: option.splits if_splits)
  with assms(1,3) show ?thesis by (simp add: holds_def frames_ok_def)
qed

lemma keeping_round:
  assumes "keeping n" and "send_and_receive i rd wr n = Some (Inr n')"
    and "\<And>rs n1 rs' m. rd = Some rs \<Longrightarrow> recv_data rs n = Inr (Some (n1, rs'))
      \<Longrightarrow> outgoingqueue n1 = outgoingqueue n @ [m] \<Longrightarrow> arrive (ippkt m)"
  shows "keeping n'"
proof -
  from assms(2) obtain n1 where i: "i < length (interfaces n)" and r: "recv_part rd n = Some (Inr n1)"
    and w: "send_part i wr n1 = Some (Inr n')"
    by (auto simp: send_and_receive_def split: if_splits option.splits sum.splits)
  have "keeping n1 \<and> interfaces n1 = interfaces n"
  proof (cases rd)
    case (Some rs)
    with r obtain rs' where d: "recv_data rs n = Inr (Some (n1, rs'))"
      by (auto simp: recv_part_def split: option.splits sum.splits)
    have "interfaces n1 = interfaces n"
      using d by (auto simp: recv_data_def transfer_link_to_ip_def split: option.splits if_splits)
    with keeping_recv [OF assms(1) d assms(3) [OF Some d]] show ?thesis by simp
  qed (use r assms(1) in \<open>simp add: recv_part_def\<close>)
  with i keeping_send_part [OF _ _ w] show ?thesis by simp
qed

text \<open>Every event other than a reception.\<close>

lemma keeping_step:
  assumes "node_inv n" and "keeping n" and "node_step ev n = Some (Inr n')"
    and "\<forall>k rd wr. ev = Link_Round k rd wr \<longrightarrow> rd = None"
    and "\<forall>dest proto data. ev = Send_Cmd dest proto data \<longrightarrow> issue dest proto data"
  shows "keeping n'"
proof (cases ev)
  case (Link_Round k rd wr)
  with assms(3,4) keeping_round [OF assms(2), of k None wr n'] show ?thesis by simp
next
  case (Timer_Signal t)
  with assms(2,3) show ?thesis by (auto simp: holds_def frames_ok_def)
next
  case (Send_Cmd dest proto data)
  with assms(3,5) keeping_send [OF assms(2), of dest proto "length data" data] show ?thesis by simp
qed (use assms in \<open>auto intro: keeping_in_step keeping_out_step keeping_rip_step keeping_down keeping_up\<close>)

end

section \<open>The checksum of everything a node sends\<close>

text \<open>The test \<open>transfer_data\<close> makes on a packet: the stored checksum against the one it computes.\<close>

definition checksum_test :: "byte list \<Rightarrow> fault + bool" where
  "checksum_test data =
     bindE (rd16 data CSUM_OFFSET) (\<lambda>orig_sum.
     bindE (put sizeof_packet data CSUM_OFFSET (bytes16 0)) (\<lambda>data.
     bindE (ip_sum data (int sizeof_iphdr)) (\<lambda>cur_sum. Inr (orig_sum = cur_sum))))"

lemma checksum_test_eq:
  "length d \<le> packet_data_cap \<Longrightarrow> checksum_test (iphdr_bytes h @ d) = Inr (summed h)"
  by (simp add: checksum_test_def CSUM_OFFSET_def rd16_header put_check ip_sum_cleared summed_def)

definition in_packet :: "byte list \<Rightarrow> bool" where
  "in_packet b \<longleftrightarrow> length b \<le> sizeof_packet"

interpretation checked: traffic "my_addrs ifs" "\<lambda>dest proto data. True" in_packet
  "\<lambda>h d. length d \<le> packet_data_cap" "\<lambda>x. True" for ifs
  by unfold_locales (simp_all add: in_packet_def sizeof_packet_def packet_data_cap_def)

lemma checked_reachable:
  assumes "reachable ifs n"
  shows "checked.keeping ifs n"
  using assms
proof (induction rule: reachable.induct)
  case (start clock n)
  let ?n = "(fresh_node ifs)\<lparr>rtable := init_loop clock 0 ifs []\<rparr>"
  have "checked.keeping ifs ?n"
    using start(1) by (auto simp: holds_def frames_ok_def fresh_node_def fresh_link_def)
  with checked.keeping_prepare [of ifs ?n 1 n] start(2) show ?case
    by (simp add: rip_init_def fresh_node_def)
next
  case (step n ev n')
  have inv: "node_inv n" "node_inv n'"
    using reachable_keeps step.hyps reachable.step by blast+
  show ?case
  proof (cases ev)
    case (Link_Round k rd wr)
    show ?thesis
    proof (rule checked.keeping_round [OF step.IH])
      show "send_and_receive k rd wr n = Some (Inr n')" using step.hyps(2) Link_Round by simp
      fix rs n1 rs' m
      assume r: "recv_data rs n = Inr (Some (n1, rs'))" and m: "outgoingqueue n1 = outgoingqueue n @ [m]"
      from recv_data_wp [OF inv(1), of rs] r have "node_inv n1" by (simp add: same_ifs_def)
      with m show "in_packet (ippkt m)" by (simp add: node_inv_def rcvmsg_ok_def in_packet_def)
    qed
  qed (use checked.keeping_step [OF inv(1) step.IH step.hyps(2)] in auto)
qed

text \<open>
  C14: whatever bytes arrive at a node (damaged, forged or replayed), every packet it queues for sending and every
  frame in a send buffer has at most 1044 bytes and passes the checksum test of the next hop; a wrong
  checksum is never passed on.
\<close>

theorem emitted_frames_pass:
  assumes "reachable ifs n"
  shows "(\<forall>m \<in> set (incomingqueue n). in_packet (ippacket m) \<and> checksum_test (ippacket m) = Inr True)
    \<and> (\<forall>l \<in> set (interfaces n). \<forall>f. sbuffer l = Some f \<longrightarrow> in_packet f \<and> checksum_test f = Inr True)"
proof -
  have "in_packet b \<and> checksum_test b = Inr True" if "framed (\<lambda>h d. length d \<le> packet_data_cap) b" for b
    using that
    by (rule framed_cases) (simp add: checksum_test_eq in_packet_def sizeof_packet_def packet_data_cap_def)
  with checked_reachable [OF assms] show ?thesis by (auto simp: holds_def frames_ok_def)
qed

theorem emitted_frames_pass_witness:
  "checksum_test (ippacket (rip_ipmsg 1 A_ifs A_rt 0)) = Inr True"
  using emitted_frames_pass [OF reachable_A] by (simp add: A_start_def)

end
