(* ===== verification/Provenance.thy ===== *)
theory Provenance
  imports Rip_Network Node_Frames
begin

text \<open>
  End to end: what the consoles of a network report was sent by its users.  A run is given with the set of
  \<open>send\<close> commands that may occur in it; the class of packets of the locale \<open>traffic\<close> are the routing messages and
  the packets that carry the payload of one of these commands.
\<close>

section \<open>Where a packet comes from\<close>

definition sent_by :: "sends \<Rightarrow> topology \<Rightarrow> u32 \<Rightarrow> u32 \<Rightarrow> u8 \<Rightarrow> byte list \<Rightarrow> bool" where
  "sent_by S topo src dst proto data \<longleftrightarrow> (\<exists>j pr. j < length topo \<and> (j, dst, pr, data) \<in> S
     \<and> (proto = pr \<or> proto = 255) \<and> ntohl src \<in> my_addrs (snd (topo ! j)))"

definition genuine :: "sends \<Rightarrow> topology \<Rightarrow> iphdr \<Rightarrow> byte list \<Rightarrow> bool" where
  "genuine S topo h d \<longleftrightarrow> ihl h = MIN_HDR_LEN \<and> version h = IP_VERSION
     \<and> tot_len h = htons (of_nat (20 + length d)) \<and> length d \<le> packet_data_cap
     \<and> (protocol h = RIP_PROTO \<or> sent_by S topo (saddr h) (daddr h) (protocol h) d)"

text \<open>The lines a console of the network may show.\<close>

definition honest_line :: "sends \<Rightarrow> topology \<Rightarrow> u32 set \<Rightarrow> console_line \<Rightarrow> bool" where
  "honest_line S topo own x \<longleftrightarrow> (case x of
       Checksum_Difference a b \<Rightarrow> False
     | Ttl_Expired \<Rightarrow> False
     | Received_Packet iid src dst proto len shown \<Rightarrow> ntohl dst \<in> own
         \<and> (\<exists>data. sent_by S topo src dst proto data \<and> length data \<le> 1004 \<and> len = int (length data)
              \<and> shown = takeWhile (\<lambda>b. b \<noteq> 0) data)
     | _ \<Rightarrow> True)"

definition arrival :: "sends \<Rightarrow> topology \<Rightarrow> byte list \<Rightarrow> bool" where
  "arrival S topo b \<longleftrightarrow> framed (genuine S topo) b \<and> length b \<le> MAXBUFF"

lemma arrivalD: "arrival S topo (iphdr_bytes h @ d) \<Longrightarrow> genuine S topo h d \<and> summed h \<and> length d \<le> 1004"
  by (simp add: arrival_def framed_iff MAXBUFF_def)

lemma sent_by_forwarded: "sent_by S topo s t p d \<Longrightarrow> sent_by S topo s t 255 d"
  unfolding sent_by_def by blast

lemma honest_report:
  assumes "genuine S topo h d" and "protocol h \<noteq> RIP_PROTO" and "length d \<le> 1004" and "ntohl (daddr h) \<in> own"
  shows "honest_line S topo own (report iid h d)"
proof -
  have "ihl h = MIN_HDR_LEN" "sent_by S topo (saddr h) (daddr h) (protocol h) d"
    using assms(1,2) by (simp_all add: genuine_def)
  with assms(3,4) show ?thesis by (auto simp: honest_line_def report_def)
qed

lemma application_genuine:
  assumes "(i, dest, proto, d) \<in> S" and "i < length topo" and "s \<in> my_addrs (snd (topo ! i))"
    and "length d \<le> packet_data_cap"
  shows "genuine S topo (filled (fresh_header s (ntohl dest) proto (length d))) d"
  using assms by (auto simp: genuine_def sent_by_def fresh_header_def)

interpretation prov: traffic "my_addrs (snd (topo ! i))" "\<lambda>dest proto data. i < length topo \<and> (i, dest, proto, data) \<in> S"
  "arrival S topo" "genuine S topo" "honest_line S topo (my_addrs (snd (topo ! i)))" for S topo i
proof unfold_locales
  fix s t and d :: "byte list" assume "length d \<le> packet_data_cap"
  then show "genuine S topo (filled (fresh_header s t RIP_PROTO (length d))) d"
    by (simp add: genuine_def fresh_header_def)
next
  fix dest proto s and d :: "byte list"
  assume "i < length topo \<and> (i, dest, proto, d) \<in> S" and "s \<in> my_addrs (snd (topo ! i))" and "length d \<le> packet_data_cap"
  then show "genuine S topo (filled (fresh_header s (ntohl dest) proto (length d))) d"
    using application_genuine by blast
next
  fix h d assume "arrival S topo (iphdr_bytes h @ d)" and "protocol h \<noteq> RIP_PROTO"
  then show "genuine S topo (forwarded_header h) d"
    using arrivalD [of S topo h d] sent_by_forwarded by (auto simp: genuine_def)
next
  fix h d iid
  assume "arrival S topo (iphdr_bytes h @ d)" and "protocol h \<noteq> RIP_PROTO" and "ntohl (daddr h) \<in> my_addrs (snd (topo ! i))"
  then show "honest_line S topo (my_addrs (snd (topo ! i))) (report iid h d)"
    using arrivalD [of S topo h d] honest_report by blast
next
  fix x assume "status_line x"
  then show "honest_line S topo (my_addrs (snd (topo ! i))) x"
    by (simp add: status_line_def honest_line_def split: console_line.splits)
qed (use arrivalD in blast)

section \<open>A message is one whole datagram\<close>

text \<open>Once a datagram was cut off, the count exceeds what the buffer holds.\<close>

lemma recv_loop_overcounts:
  assumes "recv_loop rs buf tot fl port = Inr (Some (buf', tot', port', rs'))"
    and "int MAXBUFF \<le> tot" and "length buf \<le> MAXBUFF"
    and "\<forall>r \<in> set rs. \<exists>d p. r = Datagram d p \<and> d \<noteq> []"
  shows "int (length buf') < tot'"
  using assms
proof (induction rs arbitrary: buf tot port)
  case (Cons r rs)
  then obtain d p where r: "r = Datagram d p" "d \<noteq> []" by auto
  let ?m = "take MAXBUFF d"
  let ?buf = "?m @ drop (length ?m) buf" and ?tot = "tot + int (length ?m)"
  have l: "0 < length ?m" "length ?m \<le> MAXBUFF" "(0::nat) < MAXBUFF" using r(2) by (simp_all add: MAXBUFF_def)
  have "length ?buf = max (length ?m) (length buf)" unfolding length_append length_drop by linarith
  with l Cons.prems(2,3) have m: "length ?buf \<le> MAXBUFF" "tot \<noteq> 0" "int MAXBUFF < ?tot" by linarith+
  have "(if ?tot \<ge> uint fl then Inr (Some (?buf, ?tot, Some p, rs))
      else recv_loop rs ?buf ?tot fl (Some p)) = Inr (Some (buf', tot', port', rs'))"
    using Cons.prems(1) m(2) unfolding r(1) recv_loop.simps recvfrom.simps Let_def prod.case by simp
  then show ?case
    using Cons.IH [of ?buf ?tot "Some p"] Cons.prems(4) m by (auto split: if_splits)
qed simp

lemma recv_loop_exact:
  assumes "recv_loop rs [] 0 0 None = Inr (Some (buf, tot, port, rs'))" and "nat tot \<le> length buf"
    and "\<forall>r \<in> set rs. \<exists>d p. r = Datagram d p \<and> framed (genuine S topo) d"
  shows "arrival S topo buf \<and> nat tot = length buf"
proof (cases rs)
  case (Cons r rs1)
  with assms(3) obtain b p where r: "r = Datagram b p" "framed (genuine S topo) b" by auto
  from r(2) obtain h d where b: "b = iphdr_bytes h @ d" and g: "genuine S topo h d"
    unfolding framed_def by blast
  let ?m = "take MAXBUFF b" and ?fl = "of_nat (20 + length d) :: u16"
  have "rd16 ?m 2 = rd16 b 2" by (simp add: b rd16_def MAXBUFF_def nth_append)
  then have w: "rd16 ?m 2 = Inr (htons ?fl)" using rd16_tot_len [of h d] g by (simp add: b genuine_def)
  have f: "uint ?fl = int (length b)"
    using g by (simp add: b genuine_def packet_data_cap_def uint_nat unat_of_nat take_bit_nat_eq_self del: of_nat_add)
  have l: "(if int (length ?m) \<ge> int (length b) then Inr (Some (?m, int (length ?m), Some p, rs1))
      else recv_loop rs1 ?m (int (length ?m)) ?fl (Some p)) = Inr (Some (buf, tot, port, rs'))"
    using assms(1) unfolding Cons r(1) recv_loop.simps recvfrom.simps Let_def prod.case
    by (simp only: w f bindE_simps ntohs_htons drop_Nil append_Nil2 add_0 if_True simp_thms)
  show ?thesis
  proof (cases "length b \<le> MAXBUFF")
    case True
    with l have "buf = b" "tot = int (length b)" by auto
    with True r(2) show ?thesis by (simp add: arrival_def)
  next
    case False
    then have "recv_loop rs1 ?m (int (length ?m)) ?fl (Some p) = Inr (Some (buf, tot, port, rs'))"
      "int MAXBUFF \<le> int (length ?m)" "length ?m \<le> MAXBUFF"
      using l by simp_all
    moreover have "\<forall>r \<in> set rs1. \<exists>d p. r = Datagram d p \<and> d \<noteq> []"
      using assms(3) Cons by (auto simp: framed_def iphdr_bytes_def bytes16_def)
    ultimately have "int (length buf) < tot" by (rule recv_loop_overcounts)
    with assms(2) show ?thesis by simp
  qed
qed (use assms(1) in simp)

lemma recv_data_exact:
  assumes "recv_data (map (\<lambda>d. Datagram (d_bytes d) (d_src d)) ds) n = Inr (Some (n', rs'))"
    and "\<forall>d \<in> set ds. framed (genuine S topo) (d_bytes d)" and "outgoingqueue n' = outgoingqueue n @ [m]"
  shows "arrival S topo (ippkt m)"
proof -
  from assms(1) obtain buf tot p nh where
    lp: "recv_loop (map (\<lambda>d. Datagram (d_bytes d) (d_src d)) ds) [] 0 0 None = Inr (Some (buf, tot, Some p, rs'))"
    and t: "transfer_link_to_ip buf (nat tot) nh n = Inr n'"
    by (auto simp: recv_data_def split: option.splits if_splits)
  have b: "nat tot \<le> length buf" "ippkt m = take (nat tot) buf"
    using t assms(3) by (auto simp: transfer_link_to_ip_def get_bytes_def put_def split: if_splits)
  have "\<forall>r \<in> set (map (\<lambda>d. Datagram (d_bytes d) (d_src d)) ds). \<exists>d p. r = Datagram d p \<and> framed (genuine S topo) d"
    using assms(2) by auto
  from recv_loop_exact [OF lp b(1) this] b(2) show ?thesis by simp
qed

section \<open>Every run\<close>

definition net_honest :: "sends \<Rightarrow> topology \<Rightarrow> net \<Rightarrow> bool" where
  "net_honest S topo N \<longleftrightarrow> length (net_nodes N) = length topo
     \<and> (\<forall>i < length topo. prov.keeping topo i S (net_nodes N ! i))
     \<and> (\<forall>d \<in> set (net_sent N). framed (genuine S topo) (d_bytes d))"

lemma net_honest_update:
  "net_honest S topo N \<Longrightarrow> i < length topo \<Longrightarrow> prov.keeping topo i S n'
    \<Longrightarrow> net_honest S topo (N\<lparr>net_nodes := (net_nodes N)[i := n']\<rparr>)"
  unfolding net_honest_def by (simp add: nth_list_update)

lemma init_honest:
  assumes "i < length topo" and "\<forall>l \<in> set (snd (topo ! i)). fresh_link l"
    and "rip_init clock (fresh_node (snd (topo ! i))) = Inr n"
  shows "prov.keeping topo i S n"
proof -
  let ?n = "(fresh_node (snd (topo ! i)))\<lparr>rtable := init_loop clock 0 (snd (topo ! i)) []\<rparr>"
  have "prov.keeping topo i S ?n"
    using assms(2) by (auto simp: holds_def frames_ok_def fresh_node_def fresh_link_def)
  with prov.keeping_prepare [of topo i S ?n 1 n] assms(3) show ?thesis
    by (simp add: rip_init_def fresh_node_def)
qed

lemma net_step_honest: "net_step S topo N N' \<Longrightarrow> net_ok topo N \<Longrightarrow> net_honest S topo N \<Longrightarrow> net_honest S topo N'"
proof (induction rule: net_step.induct)
  case (net_event i ev N n')
  then have k: "prov.keeping topo i S (net_nodes N ! i)" and inv: "node_inv (net_nodes N ! i)"
    by (simp_all add: net_honest_def net_ok_def member_ok_def)
  have "prov.keeping topo i S n'"
  proof (rule prov.keeping_step [OF inv k net_event.hyps(4)])
    show "\<forall>k rd wr. ev = Link_Round k rd wr \<longrightarrow> rd = None"
      using net_event.hyps(2) by (simp add: internal_def split: event.splits)
    show "\<forall>dest proto data. ev = Send_Cmd dest proto data \<longrightarrow> i < length topo \<and> (i, dest, proto, data) \<in> S"
      using net_event.hyps(1,3) by (simp add: issued_def split: event.splits)
  qed
  with net_event.prems(2) net_event.hyps(1) show ?case by (intro net_honest_update)
next
  case (net_transmit i k N l chunks l' n')
  then have m: "prov.keeping topo i S (net_nodes N ! i)" and inv: "node_inv (net_nodes N ! i)"
    by (simp_all add: net_honest_def net_ok_def member_ok_def)
  have "prov.keeping topo i S n'"
    using prov.keeping_step [OF inv m net_transmit.hyps(7)] by simp
  moreover have "\<forall>c \<in> set chunks. framed (genuine S topo) c"
  proof -
    have "link_ok l" using link_ok_nth [OF inv net_transmit.hyps(2)] net_transmit.hyps(3) by simp
    then obtain f where f: "sbuffer l = Some f" "length f = sbuffersz l"
      using net_transmit.hyps(5) by (auto simp: link_ok_def split: option.splits)
    have g: "framed (genuine S topo) f"
      using prov.keeping_nth(1) [OF m net_transmit.hyps(2)] f net_transmit.hyps(3) by simp
    then have "0 < sbuffersz l" using framed_length [OF g] f(2) by simp
    with send_data_whole [OF f, of "[]"] net_transmit.hyps(6) g show ?thesis by auto
  qed
  ultimately show ?case
    using net_honest_update [OF net_transmit.prems(2) net_transmit.hyps(1)] by (auto simp: net_honest_def)
next
  case (net_deliver i ds N k n')
  then have m: "prov.keeping topo i S (net_nodes N ! i)"
    and s: "\<forall>d \<in> set ds. framed (genuine S topo) (d_bytes d)" by (auto simp: net_honest_def)
  have "prov.keeping topo i S n'"
  proof (rule prov.keeping_round [OF m])
    show "send_and_receive k (Some (map (\<lambda>d. Datagram (d_bytes d) (d_src d)) ds)) None (net_nodes N ! i) = Some (Inr n')"
      using net_deliver.hyps(4) by simp
  qed (use recv_data_exact [OF _ s] in blast)
  with net_deliver.prems(2) net_deliver.hyps(1) show ?case by (intro net_honest_update)
qed

lemma net_run_honest: "net_run S topo N \<Longrightarrow> net_honest S topo N"
proof (induction rule: net_run.induct)
  case (net_start ns clocks)
  then show ?case using init_honest by (fastforce simp: net_honest_def)
next
  case (net_more N N')
  then show ?case using net_step_honest net_run_ok by blast
qed

end
