(* ===== verification/Node_Own.thy ===== *)
theory Node_Own
  imports Node_System
begin

text \<open>
  The routes of a node to its own addresses: no event but \<open>up\<close> and \<open>down\<close> touches them, so that in
  every reachable node an interface's address is in the routing table exactly while the interface is up.
\<close>

section \<open>Events that leave the own routes alone\<close>

definition up_state :: "node \<Rightarrow> (bool \<times> u32) list" where
  "up_state n = map (\<lambda>l. (isup l, vip_local l)) (interfaces n)"

definition own_same :: "node \<Rightarrow> node \<Rightarrow> bool" where
  "own_same n n' \<longleftrightarrow> up_state n' = up_state n
     \<and> (\<forall>a \<in> my_addrs (interfaces n). map_find (rtable n') a = map_find (rtable n) a)"

lemma own_same_refl [simp]: "own_same n n"
  by (simp add: own_same_def)

lemma own_same_fields: "interfaces n' = interfaces n \<Longrightarrow> rtable n' = rtable n \<Longrightarrow> own_same n n'"
  by (simp add: own_same_def up_state_def)

lemma own_same_ends [simp]:
  "own_same n (print x m) = own_same n m" "own_same n (m\<lparr>incomingqueue := q\<rparr>) = own_same n m"
  "own_same n (m\<lparr>outgoingqueue := q'\<rparr>) = own_same n m" "own_same n (m\<lparr>timerQueue := q''\<rparr>) = own_same n m"
  "own_same (n\<lparr>outgoingqueue := q'\<rparr>) m = own_same n m" "own_same (n\<lparr>timerQueue := q''\<rparr>) m = own_same n m"
  by (simp_all add: own_same_def up_state_def)

lemma prepare_msg_own: "prepare_msg t n = Inr n' \<Longrightarrow> own_same n n'"
  by (drule prepare_msg_rtable) (simp add: own_same_fields)

lemma transfer_ip_to_rip_own: "transfer_ip_to_rip clock data next n = Inr n' \<Longrightarrow> own_same n n'"
proof -
  assume t: "transfer_ip_to_rip clock data next n = Inr n'"
  from t obtain w where w: "(if ntohs w = 1 then prepare_msg 2 n
      else if ntohs w = 2 then bindE (update_route_table clock (drop 2 data) next (interfaces n) (rtable n)) (\<lambda>rt. Inr (n\<lparr>rtable := rt\<rparr>))
      else Inr (print Unrecognised_Type n)) = Inr n'"
    unfolding transfer_ip_to_rip_def Let_def by (elim bindE_InrE)
  consider "prepare_msg 2 n = Inr n'"
    | rt where "update_route_table clock (drop 2 data) next (interfaces n) (rtable n) = Inr rt" "n' = n\<lparr>rtable := rt\<rparr>"
    | "n' = print Unrecognised_Type n"
    using w by (cases "ntohs w = 1"; cases "ntohs w = 2") (simp_all, blast)
  then show ?thesis
  proof cases
    case 2
    then show ?thesis using update_route_table_own by (simp add: own_same_def up_state_def)
  qed (simp_all add: prepare_msg_own)
qed

lemma transfer_transit_data_own: "transfer_transit_data dest data len n = Inr n' \<Longrightarrow> own_same n n'"
  by (auto simp: transfer_transit_data_def Let_def split: option.splits)

lemma transfer_data_own: "transfer_data clock data len next n = Inr n' \<Longrightarrow> own_same n n'"
  by (auto simp: transfer_data_def deliver_packet_def forward_packet_def Let_def transfer_ip_to_rip_own
      transfer_transit_data_own split: if_splits option.splits)

lemma up_state_set_link:
  assumes "i < length (interfaces n)" and "isup l = isup (interfaces n ! i)" and "vip_local l = vip_local (interfaces n ! i)"
  shows "own_same n (n\<lparr>interfaces := (interfaces n)[i := l]\<rparr>)"
  using assms by (simp add: own_same_def up_state_def map_update list_update_same_conv)

lemma process_in_step_own:
  assumes "process_in_step n = Some (Inr n')"
  shows "own_same n n'"
proof -
  from assms obtain m q l where "incomingqueue n = m # q" and i: "ifc m < length (interfaces n)"
    and s: "send_frame (ippacket m) (msize m) (interfaces n ! ifc m) = Some (Inr l)"
    and n': "n' = n\<lparr>incomingqueue := q, interfaces := (interfaces n)[ifc m := l]\<rparr>"
    by (auto simp: process_in_step_def split: list.splits if_splits)
  have "isup l = isup (interfaces n ! ifc m) \<and> vip_local l = vip_local (interfaces n ! ifc m)"
    using s by (auto simp: send_frame_def split: if_splits)
  with up_state_set_link [OF i] show ?thesis by (simp add: n' own_same_def up_state_def)
qed

lemma send_and_receive_own:
  assumes "send_and_receive i rd wr n = Some (Inr n')"
  shows "own_same n n'"
proof -
  have i: "i < length (interfaces n)" using assms by (auto simp: send_and_receive_def split: if_splits)
  from assms obtain n1 where n1: "recv_part rd n = Some (Inr n1)" and s: "send_part i wr n1 = Some (Inr n')"
    by (auto simp: send_and_receive_def split: if_splits option.splits sum.splits)
  have f: "interfaces n1 = interfaces n \<and> rtable n1 = rtable n"
    using n1 by (auto simp: recv_part_def recv_data_def transfer_link_to_ip_def split: option.splits sum.splits if_splits)
  show ?thesis
  proof (cases "n' = n1")
    case True
    with f show ?thesis by (simp add: own_same_fields)
  next
    case False
    with s obtain results sent l where d: "send_data results (interfaces n1 ! i) = Some (Inr (sent, l))"
      and n': "n' = set_link i l n1"
      by (auto simp: send_part_def split: option.splits if_splits)
    then have "isup l = isup (interfaces n ! i)" "vip_local l = vip_local (interfaces n ! i)"
      using f by (auto simp: send_data_def split: option.splits if_splits)
    with up_state_set_link [OF i] f show ?thesis by (simp add: n' set_link_def own_same_def up_state_def)
  qed
qed

lemma rip_timer_step_own:
  assumes "map_invar (rtable n)" and "rip_timer_step now n = Some (Inr n')"
  shows "own_same n n'"
proof -
  from assms(2) obtain t q where q: "timerQueue n = t # q" by (auto simp: rip_timer_step_def split: list.splits)
  have "own_same n (refresh_route_table now (n\<lparr>timerQueue := q\<rparr>))"
    using assms(1) by (auto simp: own_same_def up_state_def refresh_route_table_def refresh_loop_eq map_find_filter
        split: option.splits)
  with assms(2) q prepare_msg_own show ?thesis
    by (fastforce simp: rip_timer_step_def Let_def split: if_splits)
qed

lemma application_own: "transfer_application_to_ip dest proto data sz n = Inr n' \<Longrightarrow> own_same n n'"
  by (auto simp: transfer_application_to_ip_def Let_def split: option.splits)

definition interface_command :: "event \<Rightarrow> bool" where
  "interface_command ev \<longleftrightarrow> (case ev of Down_Cmd i \<Rightarrow> True | Up_Cmd ai now i \<Rightarrow> True | _ \<Rightarrow> False)"

lemma quiet_event_own:
  assumes "map_invar (rtable n)" and "\<not> interface_command ev" and "node_step ev n = Some (Inr n')"
  shows "own_same n n'"
proof (cases ev)
  case (Out_Round clock)
  with assms(3) obtain data len nh q where "transfer_data clock data len nh (n\<lparr>outgoingqueue := q\<rparr>) = Inr n'"
    by (auto simp: process_out_step_def split: list.splits)
  from transfer_data_own [OF this] show ?thesis by simp
qed (use assms in \<open>auto simp: interface_command_def intro: process_in_step_own send_and_receive_own rip_timer_step_own
    application_own\<close>)

section \<open>Own routes and interface states\<close>

definition own_iff_up :: "node \<Rightarrow> bool" where
  "own_iff_up n \<longleftrightarrow> (\<forall>i < length (interfaces n).
     map_find (rtable n) (vip_local (interfaces n ! i)) \<noteq> None \<longleftrightarrow> isup (interfaces n ! i))"

lemma own_same_iff_up: "own_same n n' \<Longrightarrow> own_iff_up n \<Longrightarrow> own_iff_up n'"
proof -
  assume s: "own_same n n'" and o: "own_iff_up n"
  have u: "map (\<lambda>l. (isup l, vip_local l)) (interfaces n') = map (\<lambda>l. (isup l, vip_local l)) (interfaces n)"
    using s by (simp add: own_same_def up_state_def)
  then have l: "length (interfaces n') = length (interfaces n)" by (rule map_eq_imp_length_eq)
  have "isup (interfaces n' ! i) = isup (interfaces n ! i) \<and> vip_local (interfaces n' ! i) = vip_local (interfaces n ! i)"
    if "i < length (interfaces n)" for i
    using arg_cong [OF u, of "\<lambda>xs. xs ! i"] that l by simp
  with s o l show ?thesis by (simp add: own_iff_up_def own_same_def)
qed


lemma down_cmd_own:
  assumes "node_inv n" and "distinct (map vip_local (interfaces n))" and "own_iff_up n" and "down_cmd k n = Inr n'"
  shows "own_iff_up n'"
proof -
  let ?a = "vip_local (interfaces n ! k)"
  let ?l = "(interfaces n ! k)\<lparr>s_local := -1, isup := False\<rparr>"
  obtain msgs where k: "k < length (interfaces n)"
    and p: "prepare_msg 2 (n\<lparr>console := console n @ msgs, interfaces := (interfaces n)[k := ?l],
              rtable := remove_loop ?a (rtable n) (rtable n)\<rparr>) = Inr n'"
    using assms(4)
    by (auto simp: down_cmd_def interface_at_def link_down_def remove_ifc_entry_def set_link_def
        prints_def Let_def split: if_splits)
  from prepare_msg_rtable [OF p] have n': "rtable n' = remove_loop ?a (rtable n) (rtable n)"
    "interfaces n' = (interfaces n)[k := ?l]" by simp_all
  have inv: "rt_inv (interfaces n) (rtable n)" "map_invar (rtable n)" using assms(1) by (simp_all add: node_inv_def rt_inv_def)
  have f: "map_find (rtable n') (vip_local (interfaces n ! i)) \<noteq> None \<longleftrightarrow>
      map_find (rtable n) (vip_local (interfaces n ! i)) \<noteq> None \<and> i \<noteq> k" if i: "i < length (interfaces n)" for i
  proof -
    have "next_hop w = vip_local (interfaces n ! i)" if "map_find (rtable n) (vip_local (interfaces n ! i)) = Some w" for w
      using rt_inv_find [OF inv(1) that] vip_local_nth [OF i] by (simp add: good_entry_def)
    moreover have "vip_local (interfaces n ! i) = ?a \<longleftrightarrow> i = k"
      using nth_eq_iff_index_eq [OF assms(2), of i k] i k by simp
    ultimately show ?thesis
      by (auto simp: n' remove_loop_eq [OF inv(2)] map_find_filter [OF inv(2)] split: option.splits)
  qed
  have "map_find (rtable n') (vip_local (interfaces n' ! i)) \<noteq> None \<longleftrightarrow> isup (interfaces n' ! i)"
    if "i < length (interfaces n')" for i
    using f [of i] assms(3) that k by (cases "i = k") (auto simp: n'(2) own_iff_up_def)
  then show ?thesis by (simp add: own_iff_up_def)
qed

lemma up_cmd_own:
  assumes "distinct (map vip_local (interfaces n))" and "own_iff_up n" and "up_cmd ai now k n = Inr n'"
  shows "own_iff_up n'"
proof -
  let ?a = "vip_local (interfaces n ! k)"
  obtain msgs l' where k: "k < length (interfaces n)" and u: "link_up ai (interfaces n ! k) = Inr (msgs, l')"
    and n': "interfaces n' = (interfaces n)[k := l']" "rtable n' = map_assign ?a (own_entry now ?a) (rtable n)"
    using assms(3)
    by (auto simp: up_cmd_def interface_at_def add_ifc_entry_def set_link_def prints_def split: prod.splits if_splits)
  have l': "isup l'" "vip_local l' = ?a" using u by (auto simp: link_up_def Let_def)
  have "vip_local (interfaces n ! i) = ?a \<longleftrightarrow> i = k" if "i < length (interfaces n)" for i
    using nth_eq_iff_index_eq [OF assms(1), of i k] that k by simp
  then have "map_find (rtable n') (vip_local (interfaces n' ! i)) \<noteq> None \<longleftrightarrow> isup (interfaces n' ! i)"
    if "i < length (interfaces n')" for i
    using assms(2) that k l' by (cases "i = k") (auto simp: n' own_iff_up_def map_find_assign)
  then show ?thesis by (simp add: own_iff_up_def)
qed

lemma init_loop_find:
  "map_find (init_loop clock t ls rt) a =
     (if a \<in> vip_local ` set ls then map_find (init_loop clock t ls rt) a else map_find rt a)"
  by (induction ls arbitrary: t rt) (auto simp: map_find_assign)

lemma init_loop_own:
  "a \<in> vip_local ` set ls \<Longrightarrow> \<exists>now. map_find (init_loop clock t ls rt) a = Some (own_entry now a)"
proof (induction ls arbitrary: t rt)
  case (Cons l ls)
  then show ?case
    using init_loop_find [of clock "Suc t" ls _ a]
    by (cases "a \<in> vip_local ` set ls") (auto simp: map_find_assign)
qed simp

lemma rip_init_own:
  assumes "\<forall>l \<in> set ifs. fresh_link l" and "rip_init clock (fresh_node ifs) = Inr n"
  shows "own_iff_up n"
proof -
  have "interfaces n = ifs" "rtable n = init_loop clock 0 ifs []"
    using assms(2) prepare_msg_rtable by (fastforce simp: rip_init_def fresh_node_def)+
  moreover have "\<exists>now. map_find (init_loop clock 0 ifs []) (vip_local (ifs ! i)) = Some (own_entry now (vip_local (ifs ! i)))"
    if "i < length ifs" for i
    by (rule init_loop_own) (use that in simp)
  ultimately show ?thesis using assms(1) by (fastforce simp: own_iff_up_def fresh_link_def)
qed

lemma reachable_own:
  assumes "reachable ifs n" and "distinct (map vip_local ifs)"
  shows "own_iff_up n"
  using assms(1)
proof (induction rule: reachable.induct)
  case (start clock n)
  then show ?case by (rule rip_init_own)
next
  case (step n ev n')
  from reachable_keeps [OF step.hyps(1)] have inv: "node_inv n" and s: "statics n = map link_static ifs" by simp_all
  have "map vip_local (interfaces n) = map fst (statics n)" by (simp add: statics_def)
  also have "\<dots> = map vip_local ifs" by (simp add: s link_static_def)
  finally have d: "distinct (map vip_local (interfaces n))" using assms(2) by simp
  show ?case
  proof (cases "interface_command ev")
    case False
    have "map_invar (rtable n)" using inv by (simp add: node_inv_def rt_inv_def)
    from quiet_event_own [OF this False step.hyps(2)] own_same_iff_up step.IH show ?thesis by blast
  next
    case True
    then consider k where "ev = Down_Cmd k" | ai now k where "ev = Up_Cmd ai now k"
      by (auto simp: interface_command_def split: event.splits)
    then show ?thesis
    proof cases
      case 1
      with step.hyps(2) show ?thesis by (intro down_cmd_own [OF inv d step.IH, of k]) simp
    next
      case 2
      with step.hyps(2) show ?thesis by (intro up_cmd_own [OF d step.IH, of ai now k]) simp
    qed
  qed
qed

text \<open>
  C7: in every reachable node, a configured address (no two interfaces share one) is in the routing
  table exactly while its interface is up, and then with cost 0 and itself as next hop: ageing and messages
  never remove, change or introduce the route to an own address.
\<close>

theorem own_routes_follow_interfaces:
  assumes "reachable ifs n" and "distinct (map vip_local ifs)" and "i < length (interfaces n)"
  shows "case map_find (rtable n) (vip_local (interfaces n ! i)) of
      None \<Rightarrow> \<not> isup (interfaces n ! i)
    | Some w \<Rightarrow> isup (interfaces n ! i) \<and> cost (ent w) = 0 \<and> next_hop w = vip_local (interfaces n ! i)"
proof -
  have "rt_inv (interfaces n) (rtable n)" using reachable_keeps [OF assms(1)] by (simp add: node_inv_def)
  from rt_inv_find [OF this] vip_local_nth [OF assms(3)] reachable_own [OF assms(1,2)] assms(3)
  show ?thesis by (auto simp: own_iff_up_def good_entry_def split: option.split)
qed

theorem own_routes_follow_interfaces_witness:
  "\<exists>w. map_find A_rt 0x0A000001 = Some w \<and> isup (A_ifs ! 0) \<and> cost (ent w) = 0"
proof -
  have d: "distinct (map vip_local A_ifs)" and l: "0 < length (interfaces A_start)"
    and v: "vip_local (A_ifs ! 0) = 0x0A000001"
    by (simp_all add: A_ifs_def link_of_def)
  from own_routes_follow_interfaces [OF reachable_A d l] map_find_A show ?thesis by (simp add: v)
qed

end
