(* ===== verification/Rip_Convergence.thy ===== *)
theory Rip_Convergence
  imports Rip_Network Node_Own
begin

text \<open>
  Convergence: from every state a network can reach, once all interfaces are up, rounds of responses
  between neighbours bring every table to the shortest-path costs.  One talk is the code of both ends: \<open>prepare_msg_ifc\<close> at the sender and
  \<open>transfer_data\<close> on the packet it queued at the receiver (what lies between is \<open>rip_exchange\<close>).
\<close>

section \<open>Talks and rounds\<close>

text \<open>Interface \<open>k\<close> of the sender, interface \<open>m\<close> of the receiver.\<close>

definition talk :: "(nat \<Rightarrow> timeval) \<Rightarrow> nat \<Rightarrow> nat \<Rightarrow> node \<Rightarrow> node \<Rightarrow> fault + node" where
  "talk clock k m nj ni =
     bindE (prepare_msg_ifc 2 (int k) nj) (\<lambda>nj'.
       let p = last (incomingqueue nj')
       in transfer_data clock (ippacket p) (msize p) (vip_local (interfaces ni ! m)) ni)"

text \<open>A hop \<open>(j, k, i, m)\<close>: from interface \<open>k\<close> of node \<open>j\<close> to node \<open>i\<close>, which attributes it to \<open>m\<close>.\<close>

type_synonym hop = "nat \<times> nat \<times> nat \<times> nat"

fun wired :: "topology \<Rightarrow> hop \<Rightarrow> bool" where
  "wired topo (j, k, i, m) \<longleftrightarrow> j < length topo \<and> i < length topo
     \<and> k < length (snd (topo ! j)) \<and> remoteport (snd (topo ! j) ! k) = fst (topo ! i)
     \<and> m < length (snd (topo ! i)) \<and> get_interfaceid_with_port (snd (topo ! i)) (fst (topo ! j)) = int m"

fun gossip :: "(nat \<Rightarrow> nat \<Rightarrow> timeval) \<Rightarrow> nat \<Rightarrow> hop list \<Rightarrow> node list \<Rightarrow> fault + node list" where
  "gossip clock t [] ns = Inr ns"
| "gossip clock t ((j, k, i, m) # hs) ns =
     bindE (talk (clock t) k m (ns ! j) (ns ! i)) (\<lambda>n'. gossip clock (Suc t) hs (ns[i := n']))"

lemma gossip_append:
  "gossip clock t (hs @ hs') ns = bindE (gossip clock t hs ns) (gossip clock (t + length hs) hs')"
proof (induction hs arbitrary: t ns)
  case (Cons h hs)
  then show ?case by (cases h) (simp add: bindE_assoc)
qed simp

text \<open>
  The assumptions on the configuration: nodes have distinct ports, the addresses of a node are
  distinct, every link is configured at both ends, and the network has at most \<open>MAX_ENTRIES\<close> addresses.
\<close>

definition all_addrs :: "topology \<Rightarrow> u32 set" where
  "all_addrs topo = (\<Union>p \<in> set topo. my_addrs (snd p))"

definition well_wired :: "topology \<Rightarrow> bool" where
  "well_wired topo \<longleftrightarrow> distinct (map fst topo)
     \<and> (\<forall>p \<in> set topo. distinct (map vip_local (snd p)) \<and> (\<forall>l \<in> set (snd p). fresh_link l))
     \<and> (\<forall>i < length topo. \<forall>x j. faces topo i x j \<longrightarrow> (\<exists>y. faces topo j y i))
     \<and> card (all_addrs topo) \<le> MAX_ENTRIES"

section \<open>One talk\<close>

lemma talk_eq:
  assumes "k < length (interfaces nj)" and "length (rtable nj) \<le> MAX_ENTRIES"
    and "m < length (interfaces ni)" and "isup (interfaces ni ! m)" and "distinct (map vip_local (interfaces ni))"
  shows "talk clock k m nj ni = Inr (ni\<lparr>rtable :=
    learn clock (vip_local (interfaces ni ! m)) (interfaces ni)
      (adverts (vip_local (interfaces nj ! k)) (rtable nj)) (rtable ni)\<rparr>)"
proof -
  let ?es = "adverts (vip_local (interfaces nj ! k)) (rtable nj)"
  let ?d = "rip_payload 2 ?es"
  let ?h = "rip_header (interfaces nj ! k) (length ?d)"
  have h: "summed ?h" "protocol ?h = RIP_PROTO" "ihl ?h = MIN_HDR_LEN"
    by (simp_all add: rip_header_def Let_def summed_def)
  have d: "length ?d \<le> packet_data_cap"
    using assms(2) by (simp add: length_rip_payload MAX_ENTRIES_def packet_data_cap_def)
  have "transfer_data clock (iphdr_bytes ?h @ ?d) (20 + length ?d) (vip_local (interfaces ni ! m)) ni
      = transfer_ip_to_rip clock (?d @ []) (vip_local (interfaces ni ! m)) ni"
    using transfer_data_rip [OF h d get_interface_nth [OF assms(5,3)] assms(4)] by simp
  also have "\<dots> = Inr (ni\<lparr>rtable := learn clock (vip_local (interfaces ni ! m)) (interfaces ni) ?es (rtable ni)\<rparr>)"
    by (rule transfer_ip_to_rip_response) (use assms(2) in \<open>simp add: MAX_ENTRIES_def\<close>)
  finally show ?thesis
    using prepare_msg_ifc_eq [OF assms(1), of 2] assms(2)
    by (simp add: talk_def rip_ipmsg_def Let_def)
qed

text \<open>Where a route of the new table comes from, and how cheap an advertised route becomes.\<close>

lemma update_entry_origin:
  assumes "map_find (update_entry now x ifs e rt) a = Some w"
  shows "map_find rt a = Some w \<or> address (host_entry e) = a \<and> cost (host_entry e) \<noteq> RIP_MAX_COST
    \<and> cost (ent w) = cost (host_entry e) + 1 \<and> next_hop w = x"
  using assms by (auto simp: update_entry_refines relax_def split: if_splits)

lemma learn_origin:
  assumes "map_find (learn clock x ifs es rt) a = Some w"
  shows "map_find rt a = Some w \<or> (\<exists>e \<in> set es. address e = a \<and> cost e \<noteq> RIP_MAX_COST
    \<and> cost (ent w) = cost e + 1 \<and> next_hop w = x)"
proof -
  have "map_find (apply_entries clock x ifs i (map net_entry es) rt) a = Some w \<Longrightarrow> ?thesis" for i
  proof (induction es arbitrary: i rt)
    case (Cons e es)
    from Cons.IH [of "Suc i"] Cons.prems show ?case
      using update_entry_origin [of "clock i" x ifs "net_entry e" rt a w] by auto
  qed simp
  with assms show ?thesis by (simp add: learn_def)
qed

lemma update_entry_relaxes:
  assumes "address (host_entry e) = a" "cost (host_entry e) \<noteq> RIP_MAX_COST" "a \<notin> my_addrs ifs"
  shows "\<exists>w. map_find (update_entry now x ifs e rt) a = Some w \<and> cost (ent w) \<le> cost (host_entry e) + 1"
  using assms by (auto simp: update_entry_refines relax_def better_def not_less split: option.splits)

lemma learn_relaxes:
  assumes "e \<in> set es" and "address e = a" and "cost e \<noteq> RIP_MAX_COST" and "a \<notin> my_addrs ifs"
  shows "\<exists>w. map_find (learn clock x ifs es rt) a = Some w \<and> cost (ent w) \<le> cost e + 1"
proof -
  have "\<exists>w. map_find (apply_entries clock x ifs i (map net_entry es) rt) a = Some w \<and> cost (ent w) \<le> cost e + 1" for i
    using assms(1)
  proof (induction es arbitrary: i rt)
    case (Cons f es)
    show ?case
    proof (cases "e \<in> set es")
      case True
      with Cons.IH show ?thesis by simp
    next
      case False
      with Cons.prems have "f = e" by simp
      with update_entry_relaxes [of "net_entry e" a ifs "clock i" x rt] assms obtain w where
        w: "map_find (update_entry (clock i) x ifs (net_entry f) rt) a = Some w" "cost (ent w) \<le> cost e + 1"
        by auto
      from apply_entries_mono [OF w(1), of clock x ifs "Suc i" "map net_entry es"] w(2) show ?thesis by fastforce
    qed
  qed simp
  then show ?thesis by (simp add: learn_def)
qed

lemma learn_mono:
  "map_find rt a = Some w \<Longrightarrow> \<exists>w'. map_find (learn clock x ifs es rt) a = Some w' \<and> cost (ent w') \<le> cost (ent w)"
  unfolding learn_def by (drule apply_entries_mono) (fastforce simp: less_imp_le)

section \<open>The invariant of an undisturbed network\<close>

definition cheap :: "node list \<Rightarrow> nat \<Rightarrow> u32 \<Rightarrow> nat \<Rightarrow> bool" where
  "cheap ns i a c \<longleftrightarrow> (\<exists>w. map_find (rtable (ns ! i)) a = Some w \<and> unat (cost (ent w)) \<le> c)"

definition settled :: "topology \<Rightarrow> nat \<Rightarrow> node \<Rightarrow> bool" where
  "settled topo i n \<longleftrightarrow> map link_static (interfaces n) = map link_static (snd (topo ! i)) \<and> list_all isup (interfaces n)
     \<and> rt_inv (snd (topo ! i)) (rtable n) \<and> routes_ok topo i (rtable n)
     \<and> (\<forall>a \<in> my_addrs (snd (topo ! i)). map_find (rtable n) a \<noteq> None)"

definition calm :: "topology \<Rightarrow> node list \<Rightarrow> bool" where
  "calm topo ns \<longleftrightarrow> length ns = length topo \<and> (\<forall>i < length topo. settled topo i (ns ! i))"

lemma settled_links:
  assumes "settled topo i n"
  shows "length (interfaces n) = length (snd (topo ! i))" and "my_addrs (interfaces n) = my_addrs (snd (topo ! i))"
    and "map vip_local (interfaces n) = map vip_local (snd (topo ! i))"
    and "k < length (snd (topo ! i)) \<Longrightarrow> vip_local (interfaces n ! k) = vip_local (snd (topo ! i) ! k) \<and> isup (interfaces n ! k)"
proof -
  have m: "map link_static (interfaces n) = map link_static (snd (topo ! i))" using assms by (simp add: settled_def)
  then show l: "length (interfaces n) = length (snd (topo ! i))" by (rule map_eq_imp_length_eq)
  show "my_addrs (interfaces n) = my_addrs (snd (topo ! i))" by (rule my_addrs_static [OF m])
  have "map vip_local ifs = map fst (map link_static ifs)" for ifs by (simp add: link_static_def)
  with m show v: "map vip_local (interfaces n) = map vip_local (snd (topo ! i))" by metis
  assume "k < length (snd (topo ! i))"
  with l assms arg_cong [OF v, of "\<lambda>xs. xs ! k"]
  show "vip_local (interfaces n ! k) = vip_local (snd (topo ! i) ! k) \<and> isup (interfaces n ! k)"
    by (simp add: settled_def list_all_length)
qed

text \<open>Learning depends on the interfaces only through the own addresses.\<close>

lemma learn_addrs:
  assumes "my_addrs ifs = my_addrs ifs'"
  shows "learn clock x ifs es rt = learn clock x ifs' es rt"
proof -
  have "update_entry now x ifs e = update_entry now x ifs' e" for now e
    by (simp add: fun_eq_iff update_entry_eq assms)
  then have "apply_entries clock x ifs k es' rt = apply_entries clock x ifs' k es' rt" for k es' rt
    by (induction es' arbitrary: k rt) simp_all
  then show ?thesis by (simp add: learn_def)
qed

lemma port_lookup: "get_interfaceid_with_port ifs p = int m \<Longrightarrow> m < length ifs \<and> remoteport (ifs ! m) = p"
  by (auto simp: get_interfaceid_with_port_def split: option.splits dest: first_index_SomeD)

lemma wired_faces: "wired topo (j, k, i, m) \<Longrightarrow> faces topo i (vip_local (snd (topo ! i) ! m)) j"
  by (auto simp: faces_def dest!: port_lookup)

lemma settled_own:
  assumes "settled topo i n" and "map_find (rtable n) a = Some w"
  shows "unat (cost (ent w)) = 0 \<longleftrightarrow> a \<in> my_addrs (snd (topo ! i))"
    and "unat (cost (ent w)) = 0 \<Longrightarrow> next_hop w = a"
proof -
  have g: "good_entry (snd (topo ! i)) a w" using assms rt_inv_find by (auto simp: settled_def)
  have "route_ok topo i a w" using assms map_find_SomeD [OF assms(2)] by (fastforce simp: settled_def routes_ok_def)
  with g show "unat (cost (ent w)) = 0 \<longleftrightarrow> a \<in> my_addrs (snd (topo ! i))"
    by (auto simp: route_ok_def good_entry_def)
  with g show "unat (cost (ent w)) = 0 \<Longrightarrow> next_hop w = a" by (simp add: good_entry_def)
qed

text \<open>Tables stay within the capacity of a message.\<close>

lemma path_addrs: "path topo i a c \<Longrightarrow> a \<in> all_addrs topo"
  by (induction rule: path.induct) (auto simp: all_addrs_def)

lemma settled_length:
  assumes "settled topo i n" and "i < length topo" and "well_wired topo"
  shows "length (rtable n) \<le> MAX_ENTRIES"
proof -
  have "distinct (map fst (rtable n))" using assms(1) by (simp add: settled_def rt_inv_def map_invar_def)
  then have "length (rtable n) = card (fst ` set (rtable n))" by (metis distinct_card length_map set_map)
  moreover have "fst ` set (rtable n) \<subseteq> all_addrs topo"
    using assms(1,2) by (auto simp: settled_def routes_ok_def dest!: route_ok_path path_addrs)
  moreover have "finite (all_addrs topo)" by (simp add: all_addrs_def my_addrs_def)
  ultimately have "length (rtable n) \<le> card (all_addrs topo)" by (simp add: card_mono)
  then show ?thesis using assms(3) by (simp add: well_wired_def)
qed

lemma cheap_mono: "cheap ns i a c \<Longrightarrow> c \<le> c' \<Longrightarrow> cheap ns i a c'"
  by (auto simp: cheap_def intro: order_trans)

lemma well_wired_node:
  assumes "well_wired topo" and "i < length topo"
  shows "distinct (map vip_local (snd (topo ! i)))" and "m < length (snd (topo ! i)) \<Longrightarrow> isup (snd (topo ! i) ! m)"
proof -
  have p: "topo ! i \<in> set topo" using assms(2) by simp
  with assms(1) show "distinct (map vip_local (snd (topo ! i)))" unfolding well_wired_def by blast
  from p assms(1) show "m < length (snd (topo ! i)) \<Longrightarrow> isup (snd (topo ! i) ! m)"
    unfolding well_wired_def fresh_link_def by (meson nth_mem)
qed

lemma well_wired_port:
  "well_wired topo \<Longrightarrow> i < length topo \<Longrightarrow> j < length topo \<Longrightarrow> fst (topo ! i) = fst (topo ! j) \<Longrightarrow> i = j"
  unfolding well_wired_def by (metis distinct_conv_nth length_map nth_map)

lemma facing_node:
  assumes "well_wired topo" and "j < length topo" and "k < length (snd (topo ! j))"
    and "faces topo j (vip_local (snd (topo ! j) ! k)) j'"
  shows "fst (topo ! j') = remoteport (snd (topo ! j) ! k)"
proof -
  from assms(4) obtain k' where k': "k' < length (snd (topo ! j))" "vip_local (snd (topo ! j) ! k') = vip_local (snd (topo ! j) ! k)"
    "remoteport (snd (topo ! j) ! k') = fst (topo ! j')"
    by (auto simp: faces_def in_set_conv_nth)
  then have "k' = k"
    using well_wired_node(1) [OF assms(1,2)] assms(3) by (simp add: distinct_conv_nth) metis
  with k'(3) show ?thesis by simp
qed

text \<open>The table the receiver of a hop ends with.\<close>

definition told :: "(nat \<Rightarrow> timeval) \<Rightarrow> topology \<Rightarrow> hop \<Rightarrow> node list \<Rightarrow> rtable" where
  "told clock topo h ns = (case h of (j, k, i, m) \<Rightarrow>
     learn clock (vip_local (snd (topo ! i) ! m)) (snd (topo ! i))
       (adverts (vip_local (snd (topo ! j) ! k)) (rtable (ns ! j))) (rtable (ns ! i)))"

lemma told_settled:
  assumes "calm topo ns" and "wired topo (j, k, i, m)" and "n' = (ns ! i)\<lparr>rtable := told clock topo (j, k, i, m) ns\<rparr>"
  shows "settled topo i n'"
proof -
  have i: "i < length topo" "j < length topo" "m < length (snd (topo ! i))" using assms(2) by simp_all
  then have s: "settled topo i (ns ! i)" "settled topo j (ns ! j)" using assms(1) by (simp_all add: calm_def)
  let ?es = "adverts (vip_local (snd (topo ! j) ! k)) (rtable (ns ! j))"
  have "\<forall>e \<in> set ?es. advert_ok topo j e" using s(2) adverts_ok i(2) by (auto simp: settled_def)
  with s(1) have "routes_ok topo i (rtable n')"
    using learn_ok [OF _ _ wired_faces [OF assms(2)]] by (simp add: assms(3) told_def settled_def)
  moreover have "rt_inv (snd (topo ! i)) (rtable n')"
    using s(1) i(3) by (simp add: assms(3) told_def settled_def learn_def apply_entries_inv)
  moreover have "map_find (rtable n') a \<noteq> None" if "map_find (rtable (ns ! i)) a \<noteq> None" for a
    using that learn_mono by (fastforce simp: assms(3) told_def)
  ultimately show ?thesis using s(1) by (simp add: settled_def assms(3))
qed

lemma told_cheap:
  assumes "cheap ns x a c" and "i < length ns"
  shows "cheap (ns[i := (ns ! i)\<lparr>rtable := told clock topo (j, k, i, m) ns\<rparr>]) x a c"
proof (cases "x = i")
  case True
  with assms(1) obtain w where w: "map_find (rtable (ns ! i)) a = Some w" "unat (cost (ent w)) \<le> c"
    by (auto simp: cheap_def)
  obtain w' where w': "map_find (told clock topo (j, k, i, m) ns) a = Some w'" "cost (ent w') \<le> cost (ent w)"
    using learn_mono [OF w(1)] unfolding told_def prod.case by blast
  with w(2) have "unat (cost (ent w')) \<le> c" by (simp add: word_le_nat_alt)
  with w'(1) True assms(2) show ?thesis by (simp add: cheap_def)
qed (use assms in \<open>simp add: cheap_def\<close>)

lemma told_relaxes:
  assumes "well_wired topo" and "calm topo ns" and "wired topo (j, k, i, m)" and "cheap ns j a c" and "c < 16"
    and "\<And>c'. path topo i a c' \<Longrightarrow> c' < c \<Longrightarrow> cheap ns i a c'"
  shows "cheap (ns[i := (ns ! i)\<lparr>rtable := told clock topo (j, k, i, m) ns\<rparr>]) i a (Suc c)"
proof -
  let ?n = "(ns ! i)\<lparr>rtable := told clock topo (j, k, i, m) ns\<rparr>" and ?nb = "vip_local (snd (topo ! j) ! k)"
  have i: "i < length ns" "i < length topo" "j < length topo" "k < length (snd (topo ! j))"
    "remoteport (snd (topo ! j) ! k) = fst (topo ! i)"
    using assms(2,3) by (simp_all add: calm_def)
  then have s: "settled topo i (ns ! i)" "settled topo j (ns ! j)" using assms(2) by (simp_all add: calm_def)
  from assms(4) obtain w where w: "map_find (rtable (ns ! j)) a = Some w" "unat (cost (ent w)) \<le> c"
    by (auto simp: cheap_def)
  have a: "address (ent w) = a" using rt_inv_find [OF _ w(1)] s(2) by (auto simp: settled_def good_entry_def)
  let ?e = "advert ?nb w"
  have e: "?e \<in> set (adverts ?nb (rtable (ns ! j)))" "address ?e = a"
    using map_find_SomeD [OF w(1)] a by (force simp: adverts_def, simp add: advert_def)
  have ne: "cost (ent w) \<noteq> RIP_MAX_COST" using w(2) assms(5) by (auto simp: RIP_MAX_COST_def)
  consider "a \<in> my_addrs (snd (topo ! i))" | "a \<notin> my_addrs (snd (topo ! i))" "cost ?e = cost (ent w)"
    | "a \<noteq> ?nb" "?nb = next_hop w"
    by (cases "a \<noteq> ?nb \<and> ?nb = next_hop w") (auto simp: advert_def a)
  then show ?thesis
  proof cases
    case 1
    then obtain w0 where w0: "map_find (rtable (ns ! i)) a = Some w0" using s(1) by (auto simp: settled_def)
    with settled_own(1) [OF s(1) w0] 1 have "cheap ns i a 0" by (simp add: cheap_def)
    from cheap_mono [OF told_cheap [OF this i(1)]] show ?thesis by simp
  next
    case 2
    with learn_relaxes [OF e _ 2(1), where clock = clock and rt = "rtable (ns ! i)"
        and x = "vip_local (snd (topo ! i) ! m)"] ne obtain w' where
      w': "map_find (rtable ?n) a = Some w'" "cost (ent w') \<le> cost (ent w) + 1"
      by (auto simp: told_def)
    have "unat (cost (ent w) + 1) = Suc (unat (cost (ent w)))" using w(2) assms(5) by (simp add: unat_word_ariths)
    with w'(2) w(2) have "unat (cost (ent w')) \<le> Suc c" unfolding word_le_nat_alt by linarith
    with w'(1) i(1) show ?thesis by (simp add: cheap_def)
  next
    case 3
    have "unat (cost (ent w)) \<noteq> 0" using settled_own(2) [OF s(2) w(1)] 3 by auto
    then obtain c' where c': "unat (cost (ent w)) = Suc c'" by (metis not0_implies_Suc)
    have "route_ok topo j a w"
      using s(2) map_find_SomeD [OF w(1)] by (fastforce simp: settled_def routes_ok_def)
    with c' 3(2) obtain j' where j': "faces topo j ?nb j'" "path topo j' a c'" by (auto simp: route_ok_def)
    with facing_node [OF assms(1) i(3,4) j'(1)] i(5) well_wired_port [OF assms(1) _ i(2), of j']
    have "path topo i a c'" by (auto simp: faces_def)
    with assms(6) c' w(2) have "cheap ns i a c'" by simp
    from cheap_mono [OF told_cheap [OF this i(1)], of "Suc c"] c' w(2) show ?thesis by simp
  qed
qed

lemma talk_told:
  assumes "well_wired topo" and "calm topo ns" and "wired topo (j, k, i, m)"
  shows "talk clock k m (ns ! j) (ns ! i) = Inr ((ns ! i)\<lparr>rtable := told clock topo (j, k, i, m) ns\<rparr>)"
proof -
  have i: "i < length topo" "j < length topo" "k < length (snd (topo ! j))" "m < length (snd (topo ! i))"
    using assms(3) by simp_all
  then have s: "settled topo i (ns ! i)" "settled topo j (ns ! j)" using assms(2) by (simp_all add: calm_def)
  note f = settled_links [OF s(1)] settled_links [OF s(2)]
  show ?thesis
    using talk_eq [of k "ns ! j" m "ns ! i" clock] settled_length [OF s(2) i(2) assms(1)] i
      well_wired_node(1) [OF assms(1) i(1)] f(4) [OF i(4)] f(8) [OF i(3)] learn_addrs [OF f(2)]
    by (simp add: f(1,3,5) told_def)
qed

lemma talk_calm:
  assumes "well_wired topo" and "calm topo ns" and "wired topo (j, k, i, m)"
  shows "calm topo (ns[i := (ns ! i)\<lparr>rtable := told clock topo (j, k, i, m) ns\<rparr>])"
  using told_settled [OF assms(2,3) refl, of clock] assms(2,3) by (simp add: calm_def nth_list_update)

section \<open>Rounds\<close>

text \<open>Talks in any order keep the invariant and every bound reached so far.\<close>

lemma gossip_calm:
  assumes "well_wired topo" and "calm topo ns" and "\<forall>h \<in> set hs. wired topo h"
  shows "\<exists>ns'. gossip clock t hs ns = Inr ns' \<and> calm topo ns'
    \<and> (\<forall>x a c. cheap ns x a c \<longrightarrow> cheap ns' x a c)
    \<and> (\<forall>j k i m a c. (j, k, i, m) \<in> set hs \<and> cheap ns j a c \<and> c < 16
          \<and> (\<forall>c'. path topo i a c' \<and> c' < c \<longrightarrow> cheap ns i a c') \<longrightarrow> cheap ns' i a (Suc c))"
  using assms(2,3)
proof (induction hs arbitrary: t ns)
  case (Cons h hs)
  obtain j k i m where h: "h = (j, k, i, m)" by (cases h)
  with Cons.prems have w: "wired topo (j, k, i, m)" and i: "i < length ns" by (simp_all add: calm_def)
  let ?ns = "ns[i := (ns ! i)\<lparr>rtable := told (clock t) topo (j, k, i, m) ns\<rparr>]"
  have c: "calm topo ?ns" by (rule talk_calm [OF assms(1) Cons.prems(1) w])
  from Cons.IH [OF c, of "Suc t"] Cons.prems(2) obtain ns' where
    ns': "gossip clock (Suc t) hs ?ns = Inr ns'" "calm topo ns'"
      "\<And>x a c. cheap ?ns x a c \<Longrightarrow> cheap ns' x a c"
      "\<And>j k i m a c. (j, k, i, m) \<in> set hs \<Longrightarrow> cheap ?ns j a c \<Longrightarrow> c < 16
        \<Longrightarrow> (\<forall>c'. path topo i a c' \<and> c' < c \<longrightarrow> cheap ?ns i a c') \<Longrightarrow> cheap ns' i a (Suc c)"
    by auto
  have "gossip clock t (h # hs) ns = Inr ns'"
    using talk_told [OF assms(1) Cons.prems(1) w] ns'(1) by (simp add: h)
  moreover have "cheap ns x a c \<Longrightarrow> cheap ns' x a c" for x a c
    by (rule ns'(3)) (rule told_cheap [OF _ i])
  moreover have "cheap ns' i2 a (Suc c)" if "(j2, k2, i2, m2) \<in> set (h # hs)" "cheap ns j2 a c" "c < 16"
      "\<forall>c'. path topo i2 a c' \<and> c' < c \<longrightarrow> cheap ns i2 a c'" for j2 k2 i2 m2 a c
  proof (cases "(j2, k2, i2, m2) = h")
    case True
    with that h show ?thesis using told_relaxes [OF assms(1) Cons.prems(1) w] by (intro ns'(3)) simp
  next
    case False
    with that(1) have "(j2, k2, i2, m2) \<in> set hs" by simp
    then show ?thesis by (rule ns'(4)) (use that told_cheap [OF _ i] in auto)
  qed
  ultimately show ?case using ns'(2) by blast
qed simp

text \<open>After \<open>r\<close> rounds every destination within \<open>r\<close> links is known at no more than its distance.\<close>

lemma faces_wired:
  assumes "well_wired topo" and "i < length topo" and "faces topo i x j"
  shows "\<exists>k m. wired topo (j, k, i, m)"
proof -
  from assms(3) obtain l where l: "l \<in> set (snd (topo ! i))" "remoteport l = fst (topo ! j)" and j: "j < length topo"
    by (auto simp: faces_def)
  then have "first_index (\<lambda>l. remoteport l = fst (topo ! j)) (snd (topo ! i)) \<noteq> None" by (auto simp: first_index_None)
  then obtain m where m: "first_index (\<lambda>l. remoteport l = fst (topo ! j)) (snd (topo ! i)) = Some m" by auto
  from assms obtain y where "faces topo j y i" unfolding well_wired_def by blast
  then obtain l' where "l' \<in> set (snd (topo ! j))" "remoteport l' = fst (topo ! i)" by (auto simp: faces_def)
  then obtain k where "k < length (snd (topo ! j))" "remoteport (snd (topo ! j) ! k) = fst (topo ! i)"
    by (metis in_set_conv_nth)
  with m first_index_SomeD [OF m] assms(2) j
  have "wired topo (j, k, i, m)" by (simp add: get_interfaceid_with_port_def)
  then show ?thesis by blast
qed

definition complete_round :: "topology \<Rightarrow> hop list \<Rightarrow> bool" where
  "complete_round topo hs \<longleftrightarrow> (\<forall>h \<in> set hs. wired topo h)
     \<and> (\<forall>i < length topo. \<forall>x j. faces topo i x j \<longrightarrow> (\<exists>k m. (j, k, i, m) \<in> set hs))"

lemma rounds_cheap:
  assumes "well_wired topo" and "calm topo ns" and "\<forall>hs \<in> set rounds. complete_round topo hs"
    and "\<forall>i a c. path topo i a c \<and> c \<le> r \<and> c \<le> 16 \<longrightarrow> cheap ns i a c"
  shows "\<exists>ns'. gossip clock t (concat rounds) ns = Inr ns' \<and> calm topo ns'
    \<and> (\<forall>i a c. path topo i a c \<and> c \<le> r + length rounds \<and> c \<le> 16 \<longrightarrow> cheap ns' i a c)"
  using assms(2-)
proof (induction rounds arbitrary: r t ns)
  case (Cons hs rounds)
  have hs: "complete_round topo hs" "\<forall>h \<in> set hs. wired topo h"
    using Cons.prems(2) by (simp_all add: complete_round_def)
  obtain ns1 where ns1: "gossip clock t hs ns = Inr ns1" "calm topo ns1"
    "\<And>x a c. cheap ns x a c \<Longrightarrow> cheap ns1 x a c"
    "\<And>j k i m a c. (j, k, i, m) \<in> set hs \<Longrightarrow> cheap ns j a c \<Longrightarrow> c < 16
      \<Longrightarrow> (\<forall>c'. path topo i a c' \<and> c' < c \<longrightarrow> cheap ns i a c') \<Longrightarrow> cheap ns1 i a (Suc c)"
    using gossip_calm [OF assms(1) Cons.prems(1) hs(2), of clock t] by blast
  have "cheap ns1 i a c" if p: "path topo i a c" and c: "c \<le> Suc r" "c \<le> 16" for i a c
    using p
  proof cases
    case path_own
    with Cons.prems(3) p ns1(3) show ?thesis by simp
  next
    case (path_hop x j c')
    with hs(1) obtain k m where "(j, k, i, m) \<in> set hs" unfolding complete_round_def by blast
    moreover have "cheap ns j a c'" using Cons.prems(3) path_hop c by simp
    moreover have "\<forall>c2. path topo i a c2 \<and> c2 < c' \<longrightarrow> cheap ns i a c2" using Cons.prems(3) path_hop c by simp
    ultimately show ?thesis using ns1(4) path_hop(1) c(2) by auto
  qed
  with Cons.IH [OF ns1(2), of "Suc r" "t + length hs"] Cons.prems(2) ns1(1)
  show ?case by (simp add: gossip_append)
qed simp

section \<open>The start of the network\<close>

lemma start_calm:
  assumes "well_wired topo" and "length ns = length topo"
    and "\<forall>i < length topo. rip_init (clocks i) (fresh_node (snd (topo ! i))) = Inr (ns ! i)"
  shows "calm topo ns" and "\<forall>i a c. path topo i a c \<and> c \<le> 0 \<and> c \<le> 16 \<longrightarrow> cheap ns i a c"
proof -
  have n: "interfaces (ns ! i) = snd (topo ! i)"
    "rtable (ns ! i) = init_loop (clocks i) 0 (snd (topo ! i)) []" if i: "i < length topo" for i
    using assms(3) i prepare_msg_rtable unfolding rip_init_def fresh_node_def by fastforce+
  have f: "\<forall>l \<in> set (snd (topo ! i)). fresh_link l" if "i < length topo" for i
    using assms(1) nth_mem [OF that] unfolding well_wired_def by blast
  have o: "\<exists>now. map_find (rtable (ns ! i)) a = Some (own_entry now a)"
    if "i < length topo" "a \<in> my_addrs (snd (topo ! i))" for i a
    using that init_loop_own n by (simp add: my_addrs_def)
  have "settled topo i (ns ! i)" if i: "i < length topo" for i
  proof -
    have "member_ok topo i (ns ! i)" using init_member [OF i f [OF i]] assms(3) i by blast
    moreover have "list_all isup (snd (topo ! i))" using f [OF i] by (simp add: list_all_iff fresh_link_def)
    ultimately show ?thesis using member_routes n(1) [OF i] o [OF i] by (fastforce simp: settled_def)
  qed
  then show "calm topo ns" using assms(2) by (simp add: calm_def)
  show "\<forall>i a c. path topo i a c \<and> c \<le> 0 \<and> c \<le> 16 \<longrightarrow> cheap ns i a c"
    using o by (fastforce simp: cheap_def own_entry_def elim: path_0E)
qed

section \<open>The sample network\<close>

lemma AB_links:
  "length AB_topo = 2" "AB_topo ! 0 = (17000, A_ifs)" "AB_topo ! 1 = (17001, B_ifs)" "AB_topo ! Suc 0 = (17001, B_ifs)"
  by (simp_all add: AB_topo_def)

lemma AB_faces: "i < 2 \<Longrightarrow> faces AB_topo i x j \<longleftrightarrow> (i = 0 \<and> j = 1 \<and> x = 0x0A000001) \<or> (i = 1 \<and> j = 0 \<and> x = 0x0A00000E)"
  by (auto simp: faces_def AB_links less_2_cases_iff A_ifs_def B_ifs_def link_of_def)

lemma AB_well_wired: "well_wired AB_topo"
proof -
  have "all_addrs AB_topo = {0x0A000001, 0x0A00000E, 0x0A000009}" by (auto simp: all_addrs_def AB_topo_def)
  moreover have "card {0x0A000001, 0x0A00000E, 0x0A000009 :: u32} \<le> MAX_ENTRIES" by (simp add: MAX_ENTRIES_def)
  moreover have "\<exists>y. faces AB_topo j y i" if "i < 2" "faces AB_topo i x j" for i x j
    using that AB_faces by auto
  moreover have "distinct (map fst AB_topo)" by (simp add: AB_topo_def)
  moreover have "distinct (map vip_local (snd p)) \<and> (\<forall>l \<in> set (snd p). fresh_link l)" if "p \<in> set AB_topo" for p
    using that by (auto simp: AB_topo_def A_ifs_def B_ifs_def link_of_def fresh_link_def)
  ultimately show ?thesis unfolding well_wired_def AB_links by auto
qed

lemma AB_round: "complete_round AB_topo [(0, 0, 1, 0), (1, 0, 0, 0)]"
  using AB_faces
  by (auto simp: complete_round_def AB_links A_ifs_def B_ifs_def link_of_def get_interfaceid_with_port_def)

section \<open>Properties\<close>

section \<open>Every reachable network\<close>

lemma net_member_reachable:
  assumes "net_run S topo N"
  shows "length (net_nodes N) = length topo \<and> (\<forall>i < length topo. reachable (snd (topo ! i)) (net_nodes N ! i))"
  using assms
proof induction
  case (net_start ns clocks)
  then show ?case using reachable.start by (metis net.select_convs(1) nth_mem)
next
  case (net_more N N')
  from net_more.hyps(2) net_more.IH show ?case
    by induction (auto simp: nth_list_update simp del: node_step.simps intro: reachable.step)
qed

lemma net_calm:
  assumes "well_wired topo" and "net_run S topo N"
    and "\<forall>n \<in> set (net_nodes N). list_all isup (interfaces n)"
  shows "calm topo (net_nodes N)" and "\<forall>i a c. path topo i a c \<and> c \<le> 0 \<and> c \<le> 16 \<longrightarrow> cheap (net_nodes N) i a c"
proof -
  let ?n = "\<lambda>i. net_nodes N ! i"
  note r = net_member_reachable [OF assms(2)]
  have s: "settled topo i (?n i)" if i: "i < length topo" for i
  proof -
    have m: "member_ok topo i (?n i)" using net_run_ok [OF assms(2)] i by (simp add: net_ok_def)
    then have st: "map link_static (interfaces (?n i)) = map link_static (snd (topo ! i))"
      by (simp add: member_ok_def statics_eq)
    have up: "list_all isup (interfaces (?n i))" using assms(3) r i by simp
    have own: "own_iff_up (?n i)" using r i well_wired_node(1) [OF assms(1) i] reachable_own by blast
    have "map_find (rtable (?n i)) a \<noteq> None" if "a \<in> my_addrs (snd (topo ! i))" for a
    proof -
      have "a \<in> vip_local ` set (interfaces (?n i))" using that member_addrs [OF m] by (simp add: my_addrs_def)
      then obtain k where "k < length (interfaces (?n i))" "vip_local (interfaces (?n i) ! k) = a"
        by (auto simp: in_set_conv_nth)
      with own up show ?thesis unfolding own_iff_up_def list_all_length by blast
    qed
    moreover have "rt_inv (snd (topo ! i)) (rtable (?n i))"
      using member_routes [OF m] rt_inv_cong [OF member_addrs [OF m]] by simp
    ultimately show ?thesis using st up member_routes [OF m] by (simp add: settled_def)
  qed
  then show "calm topo (net_nodes N)" using r by (simp add: calm_def)
  have "cheap (net_nodes N) i a 0" if "path topo i a 0" for i a
  proof -
    from that have i: "i < length topo" "a \<in> my_addrs (snd (topo ! i))" by (auto elim: path_0E)
    with s obtain w where w: "map_find (rtable (?n i)) a = Some w" by (fastforce simp: settled_def)
    with settled_own(1) [OF s [OF i(1)] w] i(2) show ?thesis by (simp add: cheap_def)
  qed
  then show "\<forall>i a c. path topo i a c \<and> c \<le> 0 \<and> c \<le> 16 \<longrightarrow> cheap (net_nodes N) i a c" by simp
qed

lemma rounds_exact_calm:
  assumes "well_wired topo" and "calm topo ns" and "\<forall>i a c. path topo i a c \<and> c \<le> 0 \<and> c \<le> 16 \<longrightarrow> cheap ns i a c"
    and "\<forall>hs \<in> set rounds. complete_round topo hs"
  shows "\<exists>ns'. gossip clock 0 (concat rounds) ns = Inr ns' \<and> calm topo ns'
    \<and> (\<forall>i a c. path topo i a c \<and> c \<le> length rounds \<and> c \<le> 16 \<and> (\<forall>c'. path topo i a c' \<longrightarrow> c \<le> c')
        \<longrightarrow> (\<exists>w. map_find (rtable (ns' ! i)) a = Some w \<and> unat (cost (ent w)) = c))"
proof -
  from rounds_cheap [OF assms(1,2,4,3), of clock 0] obtain ns' where
    g: "gossip clock 0 (concat rounds) ns = Inr ns'" and calm: "calm topo ns'"
    and b: "\<And>i a c. path topo i a c \<Longrightarrow> c \<le> length rounds \<Longrightarrow> c \<le> 16 \<Longrightarrow> cheap ns' i a c"
    by auto
  have "\<exists>w. map_find (rtable (ns' ! i)) a = Some w \<and> unat (cost (ent w)) = c"
    if p: "path topo i a c" "c \<le> length rounds" "c \<le> 16" and m: "\<forall>c'. path topo i a c' \<longrightarrow> c \<le> c'" for i a c
  proof -
    have i: "i < length topo" using p(1) by cases
    obtain w where w: "map_find (rtable (ns' ! i)) a = Some w" "unat (cost (ent w)) \<le> c"
      using b [OF p] by (auto simp: cheap_def)
    have "route_ok topo i a w"
      using calm i map_find_SomeD [OF w(1)] by (fastforce simp: calm_def settled_def routes_ok_def)
    from route_ok_path [OF this i] m w show ?thesis by (meson order_antisym)
  qed
  with g calm show ?thesis by blast
qed

lemma rounds_exact:
  assumes "well_wired topo" and "calm topo ns" and "\<forall>i a c. path topo i a c \<and> c \<le> 0 \<and> c \<le> 16 \<longrightarrow> cheap ns i a c"
    and "\<forall>hs \<in> set rounds. complete_round topo hs"
  shows "\<exists>ns'. gossip clock 0 (concat rounds) ns = Inr ns'
    \<and> (\<forall>i a c. path topo i a c \<and> c \<le> length rounds \<and> c \<le> 16 \<and> (\<forall>c'. path topo i a c' \<longrightarrow> c \<le> c')
        \<longrightarrow> (\<exists>w. map_find (rtable (ns' ! i)) a = Some w \<and> unat (cost (ent w)) = c))"
  using rounds_exact_calm [OF assms, of clock] by blast

text \<open>
  C3: from every state that the network can reach (whatever was lost, aged, delayed, taken down and up
  before), once every interface is up: after \<open>r\<close> rounds in which every node hears a response from every
  neighbour, in any order and with nothing else in between, every node knows every address within \<open>r\<close> links, up to 16, at exactly the length
  of the shortest path, and no exchange fails.  The network is wired as \<open>well_wired\<close> asks.
\<close>

theorem routes_reconverge:
  assumes "well_wired topo" and "net_reachable topo N"
    and "\<forall>n \<in> set (net_nodes N). list_all isup (interfaces n)"
    and "\<forall>hs \<in> set rounds. complete_round topo hs"
  shows "\<exists>ns'. gossip clock 0 (concat rounds) (net_nodes N) = Inr ns'
    \<and> (\<forall>i a c. path topo i a c \<and> c \<le> length rounds \<and> c \<le> 16 \<and> (\<forall>c'. path topo i a c' \<longrightarrow> c \<le> c')
        \<longrightarrow> (\<exists>w. map_find (rtable (ns' ! i)) a = Some w \<and> unat (cost (ent w)) = c))"
  by (rule rounds_exact [OF assms(1) net_calm [OF assms(1-3)] assms(4)])

text \<open>
  Start the nodes of a properly wired network and let neighbours exchange responses, round
  after round, in any order within a round and with any clocks.  After \<open>r\<close> rounds every node knows every
  address whose shortest path has at most \<open>r\<close> links (and at most 16), at exactly the length of that path;
  no exchange fails.
\<close>

theorem routes_converge:
  assumes "well_wired topo" and "length ns = length topo"
    and "\<forall>i < length topo. rip_init (clocks i) (fresh_node (snd (topo ! i))) = Inr (ns ! i)"
    and "\<forall>hs \<in> set rounds. complete_round topo hs"
  shows "\<exists>ns'. gossip clock 0 (concat rounds) ns = Inr ns'
    \<and> (\<forall>i a c. path topo i a c \<and> c \<le> length rounds \<and> c \<le> 16 \<and> (\<forall>c'. path topo i a c' \<longrightarrow> c \<le> c')
        \<longrightarrow> (\<exists>w. map_find (rtable (ns' ! i)) a = Some w \<and> unat (cost (ent w)) = c))"
  by (rule rounds_exact [OF assms(1) start_calm [OF assms(1-3)] assms(4)])

theorem routes_converge_witness:
  "\<exists>ns' w. gossip (\<lambda>_ _. at_sec 105) 0 [(0, 0, 1, 0), (1, 0, 0, 0)] [A_start, B_start] = Inr ns'
     \<and> map_find (rtable (ns' ! 0)) 0x0A000009 = Some w \<and> unat (cost (ent w)) = 1"
proof -
  have i: "\<forall>i < length AB_topo. rip_init (\<lambda>_. at_sec 100) (fresh_node (snd (AB_topo ! i))) = Inr ([A_start, B_start] ! i)"
    using rip_init_A rip_init_B by (auto simp: AB_links less_2_cases_iff)
  have "path AB_topo 1 0x0A000009 0" by (rule path_own) (simp_all add: AB_links)
  then have p: "path AB_topo 0 0x0A000009 1"
    using path_hop [of 0 AB_topo "0x0A000001" 1 "0x0A000009" 0] AB_faces by (simp add: AB_links)
  have m: "\<forall>c'. path AB_topo 0 0x0A000009 c' \<longrightarrow> 1 \<le> c'"
  proof (intro allI impI)
    fix c' assume "path AB_topo 0 0x0A000009 c'"
    then show "1 \<le> c'" by cases (simp_all add: AB_links)
  qed
  have l: "length [A_start, B_start] = length AB_topo" by (simp add: AB_links)
  have r: "\<forall>hs \<in> set [[(0, 0, 1, 0), (1, 0, 0, 0)]]. complete_round AB_topo hs" using AB_round by simp
  from routes_converge [OF AB_well_wired l i r, of "\<lambda>_ _. at_sec 105"] p m show ?thesis by fastforce
qed


text \<open>Node A goes down and comes up again.\<close>

lemma A_down:
  "\<exists>n. down_cmd 0 A_start = Inr n \<and> interfaces n = [(A_ifs ! 0)\<lparr>s_local := -1, isup := False\<rparr>]"
  by (simp add: down_cmd_def interface_at_def link_down_def remove_ifc_entry_def set_link_def prints_def
      prepare_msg_cases A_ifs_def link_of_def up_ids_def)

lemma A_up:
  assumes "interfaces n = [(A_ifs ! 0)\<lparr>s_local := -1, isup := False\<rparr>]"
  shows "\<exists>n'. up_cmd (Some [Binds 7]) (at_sec 110) 0 n = Inr n' \<and> list_all isup (interfaces n')"
  using assms by (simp add: up_cmd_def interface_at_def link_up_def create_socket_def add_ifc_entry_def set_link_def
      prints_def Let_def)

theorem routes_reconverge_witness:
  "\<exists>N ns' w. net_reachable AB_topo N \<and> gossip (\<lambda>_ _. at_sec 115) 0 [(0, 0, 1, 0), (1, 0, 0, 0)] (net_nodes N) = Inr ns'
     \<and> map_find (rtable (ns' ! 0)) 0x0A000009 = Some w \<and> unat (cost (ent w)) = 1"
proof -
  from A_down obtain n where n: "down_cmd 0 A_start = Inr n" "interfaces n = [(A_ifs ! 0)\<lparr>s_local := -1, isup := False\<rparr>]"
    by blast
  from A_up [OF n(2)] obtain n' where n': "up_cmd (Some [Binds 7]) (at_sec 110) 0 n = Inr n'" "list_all isup (interfaces n')"
    by blast
  let ?N1 = "AB_start\<lparr>net_nodes := (net_nodes AB_start)[0 := n]\<rparr>"
  let ?N2 = "?N1\<lparr>net_nodes := (net_nodes ?N1)[0 := n']\<rparr>"
  have nodes: "net_nodes AB_start = [A_start, B_start]" by (simp add: AB_start_def)
  have "net_reachable AB_topo ?N1"
    by (rule net_more [OF AB_reachable net_event [of 0 _ "Down_Cmd 0"]]) (simp_all add: AB_links internal_def nodes n(1))
  then have N2: "net_reachable AB_topo ?N2"
    by (rule net_more [OF _ net_event [of 0 _ "Up_Cmd (Some [Binds 7]) (at_sec 110) 0"]]) (simp_all add: AB_links internal_def nodes n'(1))
  have up: "\<forall>n \<in> set (net_nodes ?N2). list_all isup (interfaces n)"
    using n'(2) rip_init_inv [OF _ rip_init_B] by (simp add: nodes B_ifs_def link_of_def fresh_link_def)
  have "path AB_topo 1 0x0A000009 0" by (rule path_own) (simp_all add: AB_links)
  then have p: "path AB_topo 0 0x0A000009 1"
    using path_hop [of 0 AB_topo "0x0A000001" 1 "0x0A000009" 0] AB_faces by (simp add: AB_links)
  have m: "\<forall>c'. path AB_topo 0 0x0A000009 c' \<longrightarrow> 1 \<le> c'"
  proof (intro allI impI)
    fix c' assume "path AB_topo 0 0x0A000009 c'"
    then show "1 \<le> c'" by cases (simp_all add: AB_links)
  qed
  have r: "\<forall>hs \<in> set [[(0, 0, 1, 0), (1, 0, 0, 0)]]. complete_round AB_topo hs" using AB_round by simp
  from routes_reconverge [OF AB_well_wired N2 up r, of "\<lambda>_ _. at_sec 115"] obtain ns' where
    "gossip (\<lambda>_ _. at_sec 115) 0 [(0, 0, 1, 0), (1, 0, 0, 0)] (net_nodes ?N2) = Inr ns'"
    and "\<forall>i a c. path AB_topo i a c \<and> c \<le> 1 \<and> c \<le> 16 \<and> (\<forall>c'. path AB_topo i a c' \<longrightarrow> c \<le> c')
        \<longrightarrow> (\<exists>w. map_find (rtable (ns' ! i)) a = Some w \<and> unat (cost (ent w)) = c)" by auto
  moreover from this(2) [rule_format, of 0 "0x0A000009" 1] p m
  obtain w where "map_find (rtable (ns' ! 0)) 0x0A000009 = Some w" "unat (cost (ent w)) = 1" by auto
  ultimately show ?thesis using N2 by blast
qed

end
