(* ===== verification/Multi_Hop.thy ===== *)
theory Multi_Hop
  imports Provenance Rip_Convergence
begin

text \<open>
  Packets over several hops: at each node the sending thread, the send buffer, the wire, the receiving
  thread and \<open>transfer_data\<close>, as steps of the network.  Along the next hops of the routing tables a
  payload reaches the node that owns its destination; in a routing loop it never stops.
\<close>

section \<open>Networks at rest\<close>

definition quiet :: "node \<Rightarrow> bool" where
  "quiet n \<longleftrightarrow> incomingqueue n = [] \<and> outgoingqueue n = [] \<and> timerQueue n = []
     \<and> list_all idle_link (interfaces n)"

text \<open>What the passage of a packet leaves alone.\<close>

definition bare :: "link \<Rightarrow> link" where
  "bare l = l\<lparr>sbuffer := None, sbufferReady := False, sbuffersz := 0\<rparr>"

definition outline :: "node \<Rightarrow> node" where
  "outline n = n\<lparr>interfaces := map bare (interfaces n), incomingqueue := []\<rparr>"

definition resting :: "topology \<Rightarrow> net \<Rightarrow> bool" where
  "resting topo N \<longleftrightarrow> length (net_nodes N) = length topo
     \<and> (\<forall>i < length topo. quiet (net_nodes N ! i)
          \<and> map link_static (interfaces (net_nodes N ! i)) = map link_static (snd (topo ! i)))"

definition alike :: "net \<Rightarrow> net \<Rightarrow> bool" where
  "alike N N' \<longleftrightarrow> map outline (net_nodes N') = map outline (net_nodes N)"

lemma alike_refl [simp]: "alike N N"
  by (simp add: alike_def)

lemma alike_trans: "alike N N' \<Longrightarrow> alike N' N'' \<Longrightarrow> alike N N''"
  by (simp add: alike_def)

lemma outlineD:
  assumes "outline n = outline n'"
  shows "rtable n = rtable n'" and "console n = console n'" and "outgoingqueue n = outgoingqueue n' \<and> timerQueue n = timerQueue n'"
    and "map vip_local (interfaces n) = map vip_local (interfaces n')"
    and "map isup (interfaces n) = map isup (interfaces n')"
proof -
  have e: "outline n = \<lparr>interfaces = map bare (interfaces n), rtable = rtable n, incomingqueue = [],
      outgoingqueue = outgoingqueue n, timerQueue = timerQueue n, console = console n\<rparr>" for n
    by (simp add: outline_def)
  show "rtable n = rtable n'" "console n = console n'" "outgoingqueue n = outgoingqueue n' \<and> timerQueue n = timerQueue n'"
    using assms unfolding e by simp_all
  have b: "map bare (interfaces n) = map bare (interfaces n')" using assms unfolding e by simp
  have v: "map vip_local (map bare ls) = map vip_local ls" "map isup (map bare ls) = map isup ls" for ls
    by (simp_all add: bare_def)
  show "map vip_local (interfaces n) = map vip_local (interfaces n')"
    using arg_cong [OF b, of "map vip_local"] by (simp only: v)
  show "map isup (interfaces n) = map isup (interfaces n')"
    using arg_cong [OF b, of "map isup"] by (simp only: v)
qed

text \<open>The interface that the routing table of a node chooses for a destination.\<close>

definition toward :: "node \<Rightarrow> u32 \<Rightarrow> nat option" where
  "toward n a = get_interface (interfaces n) (get_next_address (rtable n) a DEFAULT_ADDR)"

lemma toward_outline:
  assumes "outline n = outline n'"
  shows "toward n a = toward n' a" and "my_addrs (interfaces n) = my_addrs (interfaces n')"
proof -
  note o = outlineD [OF assms]
  have f: "first_index (\<lambda>l. vip_local l = x) ls = first_index (\<lambda>v. v = x) (map vip_local ls)" for x ls
    by (induction ls) simp_all
  show "toward n a = toward n' a" unfolding toward_def get_interface_def f o ..
  have "my_addrs ls = set (map vip_local ls)" for ls by (simp add: my_addrs_def)
  then show "my_addrs (interfaces n) = my_addrs (interfaces n')" by (simp only: o)
qed

lemma alike_nth:
  assumes "alike N N'"
  shows "length (net_nodes N') = length (net_nodes N)"
    and "i < length (net_nodes N) \<Longrightarrow> outline (net_nodes N' ! i) = outline (net_nodes N ! i)"
proof -
  show l: "length (net_nodes N') = length (net_nodes N)"
    using assms unfolding alike_def by (rule map_eq_imp_length_eq)
  show "i < length (net_nodes N) \<Longrightarrow> outline (net_nodes N' ! i) = outline (net_nodes N ! i)"
    using assms l arg_cong [of _ _ "\<lambda>xs. xs ! i"] unfolding alike_def by (metis nth_map)
qed

section \<open>A packet leaves a node\<close>

definition put_node :: "nat \<Rightarrow> node \<Rightarrow> net \<Rightarrow> net" where
  "put_node i n N = N\<lparr>net_nodes := (net_nodes N)[i := n]\<rparr>"

lemma put_node_sel [simp]:
  "net_sent (put_node i n N) = net_sent N" "length (net_nodes (put_node i n N)) = length (net_nodes N)"
  "i < length (net_nodes N) \<Longrightarrow> net_nodes (put_node i n N) ! i = n"
  "put_node i n' (put_node i n N) = put_node i n' N"
  by (simp_all add: put_node_def)

text \<open>Node \<open>j\<close> after the head of its queue was transmitted on link \<open>k\<close>.\<close>

definition emptied :: "nat \<Rightarrow> nat \<Rightarrow> node \<Rightarrow> node" where
  "emptied k sz n = n\<lparr>incomingqueue := tl (incomingqueue n),
     interfaces := (interfaces n)[k := (interfaces n ! k)\<lparr>sbuffer := None, sbuffersz := sz, sbufferReady := False\<rparr>]\<rparr>"

lemma push_packet:
  assumes j: "j < length topo" "length (net_nodes N) = length topo"
    and n: "n = net_nodes N ! j" "incomingqueue n = \<lparr>ifc = k, msize = length b, ippacket = b\<rparr> # q"
    and k: "k < length (interfaces n)" "idle_link (interfaces n ! k)" "b \<noteq> []"
  shows "(net_step S topo)\<^sup>*\<^sup>* N (put_node j (emptied k (length b) n) N
    \<lparr>net_sent := net_sent N @ [\<lparr>d_src = fst (topo ! j), d_dst = remoteport (interfaces n ! k), d_bytes = b\<rparr>]\<rparr>)"
proof -
  let ?l = "interfaces n ! k"
  let ?l1 = "?l\<lparr>sbuffer := Some b, sbuffersz := length b, sbufferReady := True\<rparr>"
  let ?l2 = "?l\<lparr>sbuffer := None, sbuffersz := length b, sbufferReady := False\<rparr>"
  let ?n1 = "n\<lparr>incomingqueue := q, interfaces := (interfaces n)[k := ?l1]\<rparr>"
  let ?N1 = "put_node j ?n1 N"
  have "node_step In_Round (net_nodes N ! j) = Some (Inr ?n1)"
    using n k by (simp add: process_in_step_def send_frame_def idle_link_def get_bytes_def)
  from net_event [OF j(1) _ _ this, of S] have s1: "net_step S topo N ?N1"
    by (simp add: internal_def issued_def put_node_def)
  have nth: "net_nodes ?N1 ! j = ?n1" using j by simp
  have l1: "interfaces (net_nodes ?N1 ! j) ! k = ?l1" using k(1) unfolding nth by simp
  have sd: "send_data [int (sbuffersz ?l1)] ?l1 = Some (Inr ([b], ?l2))"
    using send_data_whole [of ?l1 b "[]"] k(3) by simp
  have "node_step (Link_Round k None (Some [int (sbuffersz ?l1)])) (net_nodes ?N1 ! j)
      = Some (Inr (emptied k (length b) n))"
    using sd k(1,2) n(2)
    by (simp add: nth send_and_receive_def recv_part_def send_part_def set_link_def emptied_def idle_link_def)
  from net_transmit [OF j(1) _ l1 [symmetric] _ _ sd this, of S] k(1,2)
  have "net_step S topo ?N1 (?N1\<lparr>net_nodes := (net_nodes ?N1)[j := emptied k (length b) n],
      net_sent := net_sent ?N1 @ [\<lparr>d_src = fst (topo ! j), d_dst = remoteport ?l1, d_bytes = b\<rparr>]\<rparr>)"
    unfolding nth by (simp add: idle_link_def)
  moreover have "?N1\<lparr>net_nodes := (net_nodes ?N1)[j := emptied k (length b) n],
      net_sent := net_sent ?N1 @ [\<lparr>d_src = fst (topo ! j), d_dst = remoteport ?l1, d_bytes = b\<rparr>]\<rparr>
    = put_node j (emptied k (length b) n) N
    \<lparr>net_sent := net_sent N @ [\<lparr>d_src = fst (topo ! j), d_dst = remoteport ?l, d_bytes = b\<rparr>]\<rparr>"
    by (simp add: put_node_def)
  ultimately show ?thesis using s1 by (simp add: converse_rtranclp_into_rtranclp r_into_rtranclp)
qed

text \<open>A node and a network that hold one packet.\<close>

definition loaded :: "nat \<Rightarrow> ipmsg \<Rightarrow> net \<Rightarrow> net" where
  "loaded j m N = put_node j ((net_nodes N ! j)\<lparr>incomingqueue := [m]\<rparr>) N"

lemma emptied_idle:
  assumes "list_all idle_link (interfaces n)" and "k < length (interfaces n)"
  shows "list_all idle_link (interfaces (emptied k sz n))" and "outline (emptied k sz n) = outline n"
    and "map link_static (interfaces (emptied k sz n)) = map link_static (interfaces n)"
proof -
  let ?l = "(interfaces n ! k)\<lparr>sbuffer := None, sbuffersz := sz, sbufferReady := False\<rparr>"
  have i: "interfaces (emptied k sz n) = (interfaces n)[k := ?l]" by (simp add: emptied_def)
  have "idle_link ?l" using assms by (simp add: idle_link_def list_all_length)
  then show "list_all idle_link (interfaces (emptied k sz n))"
    using assms by (simp add: i list_all_length nth_list_update)
  have "link_static ?l = link_static (interfaces n ! k)" by (simp add: link_static_def)
  then show "map link_static (interfaces (emptied k sz n)) = map link_static (interfaces n)"
    unfolding i by (metis list_update_id map_update)
  have b: "bare ?l = bare (interfaces n ! k)" by (simp add: bare_def)
  have "map bare ((interfaces n)[k := ?l]) = map bare (interfaces n)"
    using b by (metis list_update_id map_update)
  then show "outline (emptied k sz n) = outline n" by (simp add: outline_def emptied_def)
qed

text \<open>A node transmits everything it has queued.\<close>

definition sendable :: "node \<Rightarrow> ipmsg \<Rightarrow> bool" where
  "sendable n m \<longleftrightarrow> ifc m < length (interfaces n) \<and> msize m = length (ippacket m) \<and> ippacket m \<noteq> []"

definition wire_copy :: "topology \<Rightarrow> nat \<Rightarrow> node \<Rightarrow> ipmsg \<Rightarrow> dgram" where
  "wire_copy topo j n m = \<lparr>d_src = fst (topo ! j), d_dst = remoteport (interfaces n ! ifc m), d_bytes = ippacket m\<rparr>"

lemma wire_copy_static:
  assumes "map link_static (interfaces n') = map link_static (interfaces n)" and "sendable n m"
  shows "wire_copy topo j n' m = wire_copy topo j n m" and "sendable n' m"
proof -
  have l: "length (interfaces n') = length (interfaces n)" using assms(1) by (rule map_eq_imp_length_eq)
  then show "sendable n' m" using assms(2) by (simp add: sendable_def)
  have "link_static (interfaces n' ! ifc m) = link_static (interfaces n ! ifc m)"
    using arg_cong [OF assms(1), of "\<lambda>xs. xs ! ifc m"] l assms(2) by (simp add: sendable_def)
  then show "wire_copy topo j n' m = wire_copy topo j n m" by (simp add: wire_copy_def link_static_def)
qed

definition pushed :: "topology \<Rightarrow> nat \<Rightarrow> net \<Rightarrow> net \<Rightarrow> bool" where
  "pushed topo j N N' \<longleftrightarrow> (let n = net_nodes N ! j in \<exists>n'. net_nodes N' = (net_nodes N)[j := n']
     \<and> incomingqueue n' = [] \<and> outline n' = outline n \<and> list_all idle_link (interfaces n')
     \<and> map link_static (interfaces n') = map link_static (interfaces n)
     \<and> set (net_sent N') = set (net_sent N) \<union> wire_copy topo j n ` set (incomingqueue n))"

lemma push_all:
  assumes "j < length topo" and "length (net_nodes N) = length topo"
    and "list_all idle_link (interfaces (net_nodes N ! j))"
    and "list_all (sendable (net_nodes N ! j)) (incomingqueue (net_nodes N ! j))"
  shows "\<exists>N'. (net_step S topo)\<^sup>*\<^sup>* N N' \<and> pushed topo j N N'"
  using assms(2-4)
proof (induction "incomingqueue (net_nodes N ! j)" arbitrary: N)
  case Nil
  have "pushed topo j N N"
    unfolding pushed_def Let_def using Nil by (intro exI [of _ "net_nodes N ! j"]) simp
  then show ?case by blast
next
  case (Cons m q)
  let ?n = "net_nodes N ! j"
  have q: "incomingqueue ?n = m # q" using Cons.hyps(2) by simp
  then have m: "sendable ?n m" "list_all (sendable ?n) q" using Cons.prems(3) by simp_all
  let ?e = "emptied (ifc m) (length (ippacket m)) ?n"
  let ?N = "put_node j ?e N\<lparr>net_sent := net_sent N @ [wire_copy topo j ?n m]\<rparr>"
  have k: "ifc m < length (interfaces ?n)" using m(1) by (simp add: sendable_def)
  note e = emptied_idle [OF Cons.prems(2) k, of "length (ippacket m)"]
  have "idle_link (interfaces ?n ! ifc m)" using Cons.prems(2) k by (simp add: list_all_length)
  then have s: "(net_step S topo)\<^sup>*\<^sup>* N ?N"
    unfolding wire_copy_def
    by (intro push_packet [OF assms(1) Cons.prems(1) refl _ k, of _ q]) (use q m(1) in \<open>simp_all add: sendable_def\<close>)
  have nodes: "net_nodes ?N = (net_nodes N)[j := ?e]" by (simp add: put_node_def)
  then have nj: "net_nodes ?N ! j = ?e" using assms(1) Cons.prems(1) by simp
  have eq: "incomingqueue ?e = q" using q by (simp add: emptied_def)
  have w: "wire_copy topo j ?e x = wire_copy topo j ?n x \<and> sendable ?e x" if "x \<in> set q" for x
    using wire_copy_static [OF e(3)] m(2) that by (simp add: list_all_iff)
  have "\<exists>N'. (net_step S topo)\<^sup>*\<^sup>* ?N N' \<and> pushed topo j ?N N'"
    by (rule Cons.hyps(1)) (use eq nj e w Cons.prems(1) nodes in \<open>simp_all add: list_all_iff\<close>)
  then obtain N' n' where s': "(net_step S topo)\<^sup>*\<^sup>* ?N N'" and n': "net_nodes N' = (net_nodes ?N)[j := n']"
    "incomingqueue n' = []" "outline n' = outline ?e" "list_all idle_link (interfaces n')"
    "map link_static (interfaces n') = map link_static (interfaces ?e)"
    "set (net_sent N') = set (net_sent ?N) \<union> wire_copy topo j ?e ` set q"
    unfolding pushed_def Let_def nj eq by blast
  have "wire_copy topo j ?e ` set q = wire_copy topo j ?n ` set q" using w by (intro image_cong) auto
  then have "pushed topo j N N'"
    unfolding pushed_def Let_def using n' e(2,3) q by (intro exI [of _ n']) (simp add: nodes)
  with rtranclp_trans [OF s s'] show ?case by blast
qed

section \<open>One hop\<close>

lemma port_static:
  assumes "map link_static ifs = map link_static ifs'"
  shows "get_interfaceid_with_port ifs p = get_interfaceid_with_port ifs' p"
proof -
  have f: "first_index (\<lambda>l. remoteport l = x) ls = first_index (\<lambda>v. snd (snd v) = x) (map link_static ls)" for x ls
    by (induction ls) (simp_all add: link_static_def)
  show ?thesis unfolding get_interfaceid_with_port_def f assms ..
qed

lemma resting_nth:
  assumes "resting topo N" and "i < length topo"
  shows "quiet (net_nodes N ! i)" and "length (interfaces (net_nodes N ! i)) = length (snd (topo ! i))"
    and "my_addrs (interfaces (net_nodes N ! i)) = my_addrs (snd (topo ! i))"
    and "k < length (snd (topo ! i)) \<Longrightarrow> link_static (interfaces (net_nodes N ! i) ! k) = link_static (snd (topo ! i) ! k)"
    and "get_interfaceid_with_port (interfaces (net_nodes N ! i)) p = get_interfaceid_with_port (snd (topo ! i)) p"
proof -
  have m: "map link_static (interfaces (net_nodes N ! i)) = map link_static (snd (topo ! i))"
    and q: "quiet (net_nodes N ! i)"
    using assms by (simp_all add: resting_def)
  show "quiet (net_nodes N ! i)" by (rule q)
  show l: "length (interfaces (net_nodes N ! i)) = length (snd (topo ! i))" using m by (rule map_eq_imp_length_eq)
  show "my_addrs (interfaces (net_nodes N ! i)) = my_addrs (snd (topo ! i))" using m by (rule my_addrs_static)
  show "k < length (snd (topo ! i)) \<Longrightarrow> link_static (interfaces (net_nodes N ! i) ! k) = link_static (snd (topo ! i) ! k)"
    using arg_cong [OF m, of "\<lambda>xs. xs ! k"] l by simp
  show "get_interfaceid_with_port (interfaces (net_nodes N ! i)) p = get_interfaceid_with_port (snd (topo ! i)) p"
    using m by (rule port_static)
qed

lemma receive_packet:
  assumes "i < length topo" and "length (net_nodes N) = length topo"
    and n: "n = net_nodes N ! i" "outgoingqueue n = []" "port_of n p m" "s_local (interfaces n ! m) \<noteq> -1"
    and "\<lparr>d_src = p, d_dst = fst (topo ! i), d_bytes = iphdr_bytes h @ d\<rparr> \<in> set (net_sent N)"
    and d: "20 + length d \<le> MAXBUFF" "tot_len h = htons (of_nat (20 + length d))"
    and t: "transfer_data clock (iphdr_bytes h @ d) (20 + length d) (vip_local (interfaces n ! m)) n = Inr n2"
  shows "(net_step S topo)\<^sup>*\<^sup>* N (put_node i n2 N)"
proof -
  let ?n1 = "n\<lparr>outgoingqueue := [\<lparr>datalen = 20 + length d, rnext = vip_local (interfaces n ! m),
    ippkt = iphdr_bytes h @ d\<rparr>]\<rparr>"
  let ?ds = "[\<lparr>d_src = p, d_dst = fst (topo ! i), d_bytes = iphdr_bytes h @ d\<rparr>]"
  note r = receive_frame [OF n(2,3) d]
  have "node_step (Link_Round m (Some (map (\<lambda>d. Datagram (d_bytes d) (d_src d)) ?ds)) None) (net_nodes N ! i)
      = Some (Inr ?n1)"
    using r(1) [of "[]"] n(3,4)
    by (simp add: n(1) [symmetric] send_and_receive_def recv_part_def send_part_def port_of_def)
  from net_deliver [OF assms(1) _ _ this, of S] assms(7)
  have s1: "net_step S topo N (put_node i ?n1 N)" by (simp add: put_node_def)
  have "node_step (Out_Round clock) (net_nodes (put_node i ?n1 N) ! i) = Some (Inr n2)"
    using r(2) t assms(1,2) by simp
  from net_event [OF assms(1) _ _ this, of S] have "net_step S topo (put_node i ?n1 N) (put_node i n2 N)"
    using assms(1,2) by (simp add: internal_def issued_def put_node_def)
  with s1 show ?thesis by (simp add: converse_rtranclp_into_rtranclp)
qed

lemma hop_arrives:
  assumes N: "resting topo N" and w: "wired topo (j, k, i, m)"
    and d: "20 + length d \<le> MAXBUFF" "tot_len h = htons (of_nat (20 + length d))"
  obtains N' where "resting topo N'" and "alike N N'"
    and "\<And>clock n2. transfer_data clock (iphdr_bytes h @ d) (20 + length d) (vip_local (snd (topo ! i) ! m)) (net_nodes N' ! i)
        = Inr n2 \<Longrightarrow> (net_step S topo)\<^sup>*\<^sup>*
          (loaded j \<lparr>ifc = k, msize = 20 + length d, ippacket = iphdr_bytes h @ d\<rparr> N) (put_node i n2 N')"
proof -
  let ?b = "iphdr_bytes h @ d"
  let ?m = "\<lparr>ifc = k, msize = 20 + length d, ippacket = ?b\<rparr>"
  let ?nj = "net_nodes N ! j"
  let ?L = "loaded j ?m N"
  have l: "length (net_nodes N) = length topo" and j: "j < length topo" and i: "i < length topo"
    using N w by (simp_all add: resting_def)
  note rj = resting_nth [OF N j]
  have k: "k < length (interfaces ?nj)" "remoteport (interfaces ?nj ! k) = fst (topo ! i)"
    using rj(2,4) w by (simp_all add: link_static_def)
  have nj: "net_nodes ?L ! j = ?nj\<lparr>incomingqueue := [?m]\<rparr>" using j l by (simp add: loaded_def)
  have "?b \<noteq> []" by (simp add: iphdr_bytes_def)
  then have "list_all (sendable (net_nodes ?L ! j)) (incomingqueue (net_nodes ?L ! j))"
    using k(1) by (simp add: nj sendable_def)
  moreover have "list_all idle_link (interfaces (net_nodes ?L ! j))" using rj(1) by (simp add: nj quiet_def)
  ultimately obtain N1 n' where s1: "(net_step S topo)\<^sup>*\<^sup>* ?L N1" and n': "net_nodes N1 = (net_nodes ?L)[j := n']"
    "incomingqueue n' = []" "outline n' = outline ?nj" "list_all idle_link (interfaces n')"
    "map link_static (interfaces n') = map link_static (interfaces ?nj)"
    and dg: "wire_copy topo j ?nj ?m \<in> set (net_sent N1)"
    using push_all [OF j, of ?L S] l unfolding pushed_def Let_def nj
    by (auto simp: loaded_def outline_def wire_copy_def)
  have nodes: "net_nodes N1 = (net_nodes N)[j := n']" using n'(1) by (simp add: loaded_def put_node_def)
  have "quiet n'" using n'(2,4) outlineD(3) [OF n'(3)] rj(1) by (simp add: quiet_def)
  then have N1: "resting topo N1" using N j n'(5) by (auto simp: resting_def nodes nth_list_update)
  have a: "alike N N1" unfolding alike_def nodes using n'(3) by (metis list_update_id map_update)
  note ri = resting_nth [OF N1 i]
  have p: "port_of (net_nodes N1 ! i) (fst (topo ! j)) m" using ri(2,5) w by (simp add: port_of_def)
  then have "idle_link (interfaces (net_nodes N1 ! i) ! m)"
    using ri(1) by (simp add: quiet_def list_all_length port_of_def)
  then have o: "s_local (interfaces (net_nodes N1 ! i) ! m) \<noteq> -1" by (simp add: idle_link_def)
  have v: "vip_local (interfaces (net_nodes N1 ! i) ! m) = vip_local (snd (topo ! i) ! m)"
    using ri(4) w by (simp add: link_static_def)
  have q: "outgoingqueue (net_nodes N1 ! i) = []" using ri(1) by (simp add: quiet_def)
  have "(net_step S topo)\<^sup>*\<^sup>* (loaded j ?m N) (put_node i n2 N1)"
    if "transfer_data clock ?b (20 + length d) (vip_local (snd (topo ! i) ! m)) (net_nodes N1 ! i) = Inr n2" for clock n2
  proof -
    have "(net_step S topo)\<^sup>*\<^sup>* N1 (put_node i n2 N1)"
      using receive_packet [OF i _ refl q p o _ d, of clock n2 S] that N1 v dg k(2)
      by (simp add: resting_def wire_copy_def)
    with s1 show ?thesis by (rule rtranclp_trans)
  qed
  with N1 a show ?thesis by (rule that)
qed

section \<open>Forwarding along the routing tables\<close>

text \<open>
  A list of hops that a packet for \<open>a\<close> takes once it is queued for the first of them: every node in between
  is not the destination and its table chooses the next hop of the list.
\<close>

fun relays :: "topology \<Rightarrow> node list \<Rightarrow> u32 \<Rightarrow> hop list \<Rightarrow> bool" where
  "relays topo ns a [] \<longleftrightarrow> True"
| "relays topo ns a [x] \<longleftrightarrow> wired topo x"
| "relays topo ns a ((j, k, i, m) # y # hs) \<longleftrightarrow> wired topo (j, k, i, m) \<and> a \<notin> my_addrs (snd (topo ! i))
     \<and> fst y = i \<and> toward (ns ! i) a = Some (fst (snd y)) \<and> relays topo ns a (y # hs)"

definition carrier :: "nat \<Rightarrow> iphdr \<Rightarrow> byte list \<Rightarrow> ipmsg" where
  "carrier k h d = \<lparr>ifc = k, msize = 20 + length d, ippacket = iphdr_bytes h @ d\<rparr>"

lemma relays_toward:
  assumes "\<forall>i < length topo. toward (ns' ! i) a = toward (ns ! i) a"
  shows "relays topo ns' a hs = relays topo ns a hs"
  using assms by (induction topo ns a hs rule: relays.induct) auto

lemma relays_alike:
  assumes "alike N N'" and "length (net_nodes N) = length topo"
  shows "relays topo (net_nodes N') a hs = relays topo (net_nodes N) a hs"
proof (rule relays_toward)
  show "\<forall>i < length topo. toward (net_nodes N' ! i) a = toward (net_nodes N ! i) a"
    using toward_outline(1) [OF alike_nth(2) [OF assms(1)]] assms(2) by simp
qed

lemma forward_hop:
  assumes N: "resting topo N" and w: "wired topo (j, k, i, m)" and h: "summed h" "protocol h \<noteq> RIP_PROTO"
    and d: "20 + length d \<le> MAXBUFF" "tot_len h = htons (of_nat (20 + length d))"
    and a: "ntohl (daddr h) \<notin> my_addrs (snd (topo ! i))" "toward (net_nodes N ! i) (ntohl (daddr h)) = Some k'"
  obtains N' where "resting topo N'" and "alike N N'"
    and "(net_step S topo)\<^sup>*\<^sup>* (loaded j (carrier k h d) N) (loaded i (carrier k' (forwarded_header h) d) N')"
proof -
  obtain N' where N': "resting topo N'" "alike N N'"
    and s: "\<And>clock n2. transfer_data clock (iphdr_bytes h @ d) (20 + length d) (vip_local (snd (topo ! i) ! m)) (net_nodes N' ! i)
        = Inr n2 \<Longrightarrow> (net_step S topo)\<^sup>*\<^sup>* (loaded j (carrier k h d) N) (put_node i n2 N')"
    by (rule hop_arrives [OF N w d, of S]) (unfold carrier_def, blast)
  let ?n = "net_nodes N' ! i"
  have i: "i < length topo" "i < length (net_nodes N)" using w N by (simp_all add: resting_def)
  have o: "outline ?n = outline (net_nodes N ! i)" by (rule alike_nth(2) [OF N'(2) i(2)])
  have l: "length d \<le> packet_data_cap" using d(1) by (simp add: MAXBUFF_def packet_data_cap_def)
  have q: "incomingqueue ?n = []" using resting_nth(1) [OF N'(1) i(1)] by (simp add: quiet_def)
  have t: "get_interface (interfaces ?n) (get_next_address (rtable ?n) (ntohl (daddr h)) DEFAULT_ADDR) = Some k'"
    using toward_outline(1) [OF o] a(2) by (simp add: toward_def)
  have "ntohl (daddr h) \<notin> my_addrs (interfaces ?n)" using resting_nth(3) [OF N'(1) i(1)] a(1) by simp
  from transfer_data_transit [OF h l this]
  have "transfer_data (\<lambda>_. at_sec 0) (iphdr_bytes h @ d) (20 + length d) (vip_local (snd (topo ! i) ! m)) ?n
      = Inr (?n\<lparr>incomingqueue := [carrier k' (forwarded_header h) d]\<rparr>)"
    using transfer_transit_data_eq [of "20 + length d" "iphdr_bytes (forwarded_header h) @ d"] t q l
    by (simp add: carrier_def sizeof_packet_def packet_data_cap_def)
  from s [OF this] N' show ?thesis by (intro that) (simp_all add: loaded_def)
qed

text \<open>The header after \<open>c\<close> nodes forwarded the packet.\<close>

lemma forwarded_pow:
  "tot_len ((forwarded_header ^^ c) h) = tot_len h" "daddr ((forwarded_header ^^ c) h) = daddr h"
  "saddr ((forwarded_header ^^ c) h) = saddr h" "ihl ((forwarded_header ^^ c) h) = ihl h"
  "ttl ((forwarded_header ^^ c) h) = ttl h - of_nat c"
  "protocol ((forwarded_header ^^ c) h) = (if c = 0 then protocol h else 255)"
  "summed h \<Longrightarrow> summed ((forwarded_header ^^ c) h)"
  by (induction c) simp_all

lemma relay:
  assumes "resting topo N" and "relays topo (net_nodes N) (ntohl (daddr h)) ((j, k, x) # hs)"
    and "summed h" and "protocol h \<noteq> RIP_PROTO"
    and "20 + length d \<le> MAXBUFF" and "tot_len h = htons (of_nat (20 + length d))"
  shows "\<exists>N' j' k' x'. last ((j, k, x) # hs) = (j', k', x') \<and> resting topo N' \<and> alike N N'
    \<and> (net_step S topo)\<^sup>*\<^sup>* (loaded j (carrier k h d) N) (loaded j' (carrier k' ((forwarded_header ^^ length hs) h) d) N')"
  using assms
proof (induction hs arbitrary: N h j k x)
  case Nil
  then show ?case by (metis alike_refl funpow_0 last.simps list.size(3) rtranclp.rtrancl_refl)
next
  case (Cons y hs)
  obtain i m where x: "x = (i, m)" by (cases x)
  obtain j1 k1 x1 where y: "y = (j1, k1, x1)" by (metis prod_cases3)
  from Cons.prems(2) have w: "wired topo (j, k, i, m)" and a: "ntohl (daddr h) \<notin> my_addrs (snd (topo ! i))"
    and t: "toward (net_nodes N ! i) (ntohl (daddr h)) = Some k1" and j1: "j1 = i"
    and r: "relays topo (net_nodes N) (ntohl (daddr h)) ((j1, k1, x1) # hs)"
    by (auto simp: x y simp del: wired.simps)
  let ?h = "forwarded_header h"
  obtain N1 where N1: "resting topo N1" "alike N N1"
    and s1: "(net_step S topo)\<^sup>*\<^sup>* (loaded j (carrier k h d) N) (loaded i (carrier k1 ?h d) N1)"
    by (rule forward_hop [OF Cons.prems(1) w Cons.prems(3-6) a t])
  have l: "length (net_nodes N) = length topo" using Cons.prems(1) by (simp add: resting_def)
  have "relays topo (net_nodes N1) (ntohl (daddr ?h)) ((j1, k1, x1) # hs)"
    using r relays_alike [OF N1(2) l] by simp
  from Cons.IH [OF N1(1) this] Cons.prems(5,6) obtain N' j' k' x' where
    la: "last ((j1, k1, x1) # hs) = (j', k', x')" and N': "resting topo N'" "alike N1 N'"
    and s2: "(net_step S topo)\<^sup>*\<^sup>* (loaded j1 (carrier k1 ?h d) N1)
      (loaded j' (carrier k' ((forwarded_header ^^ length hs) ?h) d) N')"
    by (auto simp: RIP_PROTO_def)
  have "(net_step S topo)\<^sup>*\<^sup>* (loaded j (carrier k h d) N)
      (loaded j' (carrier k' ((forwarded_header ^^ length (y # hs)) h) d) N')"
    using rtranclp_trans [OF s1 s2 [unfolded j1]] by (simp add: funpow_swap1)
  with la N' alike_trans [OF N1(2)] show ?case unfolding y by fastforce
qed

text \<open>The last hop: the owner of the address prints the packet.\<close>

lemma deliver_hop:
  assumes N: "resting topo N" and w: "wired topo (j, k, i, m)" and h: "summed h" "protocol h \<noteq> RIP_PROTO" "ihl h = MIN_HDR_LEN"
    and d: "20 + length d \<le> MAXBUFF" "tot_len h = htons (of_nat (20 + length d))" "0 \<notin> set d"
    and a: "ntohl (daddr h) \<in> my_addrs (snd (topo ! i))"
  shows "\<exists>N' iid. alike N N' \<and> resting topo N' \<and> (net_step S topo)\<^sup>*\<^sup>* (loaded j (carrier k h d) N) (put_node i
    (print (Received_Packet iid (saddr h) (daddr h) (protocol h) (int (length d)) d) (net_nodes N' ! i)) N')"
proof -
  obtain N' where N': "resting topo N'" "alike N N'"
    and s: "\<And>clock n2. transfer_data clock (iphdr_bytes h @ d) (20 + length d) (vip_local (snd (topo ! i) ! m)) (net_nodes N' ! i)
        = Inr n2 \<Longrightarrow> (net_step S topo)\<^sup>*\<^sup>* (loaded j (carrier k h d) N) (put_node i n2 N')"
    by (rule hop_arrives [OF N w d(1,2), of S]) (unfold carrier_def, blast)
  have i: "i < length topo" using w by simp
  have l: "length d < packet_data_cap" using d(1) by (simp add: MAXBUFF_def packet_data_cap_def)
  have b: "takeWhile (\<lambda>b. b \<noteq> 0) d = d" using d(3) by (auto simp: takeWhile_eq_all_conv)
  have "ntohl (daddr h) \<in> my_addrs (interfaces (net_nodes N' ! i))" using resting_nth(3) [OF N'(1) i] a by simp
  note t = transfer_data_local [OF h l this, unfolded b, of "\<lambda>_. at_sec 0" "vip_local (snd (topo ! i) ! m)"]
  from s [OF t] N' show ?thesis by blast
qed

text \<open>
  A run that takes a packet along a list of hops: it passes, in order, through the states in which the network is
  at rest but for the packet, queued at the first node of each hop for the interface of the hop, with a header that one more node
  has rewritten each time.
\<close>

fun carried :: "sends \<Rightarrow> topology \<Rightarrow> hop list \<Rightarrow> iphdr \<Rightarrow> byte list \<Rightarrow> net \<Rightarrow> net \<Rightarrow> bool" where
  "carried S topo [] h d M N' \<longleftrightarrow> (net_step S topo)\<^sup>*\<^sup>* M N'"
| "carried S topo ((j, k, x) # hs) h d M N' \<longleftrightarrow>
     (\<exists>N. resting topo N \<and> (net_step S topo)\<^sup>*\<^sup>* M (loaded j (carrier k h d) N)
       \<and> carried S topo hs (forwarded_header h) d (loaded j (carrier k h d) N) N')"

lemma carried_run: "carried S topo hs h d M N' \<Longrightarrow> (net_step S topo)\<^sup>*\<^sup>* M N'"
proof (induction S topo hs h d M N' rule: carried.induct)
  case (2 S topo j k x hs h d M N')
  then obtain N where N: "(net_step S topo)\<^sup>*\<^sup>* M (loaded j (carrier k h d) N)"
    "carried S topo hs (forwarded_header h) d (loaded j (carrier k h d) N) N'" by auto
  from N(1) "2.IH" [OF N(2)] show ?case by (rule rtranclp_trans)
qed simp

lemma relay_carried:
  assumes "resting topo N" and "relays topo (net_nodes N) (ntohl (daddr h)) ((j, k, x) # hs)"
    and "summed h" and "protocol h \<noteq> RIP_PROTO" and "ihl h = MIN_HDR_LEN"
    and "20 + length d \<le> MAXBUFF" and "tot_len h = htons (of_nat (20 + length d))" and "0 \<notin> set d"
    and "last ((j, k, x) # hs) = (j', k', u, m)" and "ntohl (daddr h) \<in> my_addrs (snd (topo ! u))"
    and "(net_step S topo)\<^sup>*\<^sup>* M (loaded j (carrier k h d) N)"
  shows "\<exists>N' N1 iid. carried S topo ((j, k, x) # hs) h d M N' \<and> resting topo N1 \<and> alike N N1
    \<and> N' = put_node u (print (Received_Packet iid (saddr h) (daddr h) (if hs = [] then protocol h else 255) (int (length d)) d)
        (net_nodes N1 ! u)) N1"
  using assms
proof (induction hs arbitrary: N h j k x M)
  case Nil
  then have w: "wired topo (j, k, u, m)" and e: "(j, k, x) = (j', k', u, m)" by (auto simp del: wired.simps)
  from deliver_hop [OF Nil(1) w Nil(3-8) Nil(10), of S] obtain N1 iid where "alike N N1" "resting topo N1"
    "(net_step S topo)\<^sup>*\<^sup>* (loaded j (carrier k h d) N) (put_node u
      (print (Received_Packet iid (saddr h) (daddr h) (protocol h) (int (length d)) d) (net_nodes N1 ! u)) N1)" by blast
  with Nil(1,11) show ?case by auto
next
  case (Cons y hs)
  obtain i m' where x: "x = (i, m')" by (cases x)
  obtain j1 k1 x1 where y: "y = (j1, k1, x1)" by (metis prod_cases3)
  from Cons.prems(2) have w: "wired topo (j, k, i, m')" and a: "ntohl (daddr h) \<notin> my_addrs (snd (topo ! i))"
    and t: "toward (net_nodes N ! i) (ntohl (daddr h)) = Some k1" and j1: "j1 = i"
    and r: "relays topo (net_nodes N) (ntohl (daddr h)) ((i, k1, x1) # hs)"
    by (auto simp: x y simp del: wired.simps)
  let ?h = "forwarded_header h"
  obtain N1 where N1: "resting topo N1" "alike N N1"
    and s1: "(net_step S topo)\<^sup>*\<^sup>* (loaded j (carrier k h d) N) (loaded i (carrier k1 ?h d) N1)"
    by (rule forward_hop [OF Cons.prems(1) w Cons.prems(3,4,6,7) a t])
  have l: "length (net_nodes N) = length topo" using Cons.prems(1) by (simp add: resting_def)
  have r1: "relays topo (net_nodes N1) (ntohl (daddr ?h)) ((i, k1, x1) # hs)"
    using r relays_alike [OF N1(2) l] by simp
  have la: "last ((i, k1, x1) # hs) = (j', k', u, m)" using Cons.prems(9) by (simp add: y j1)
  have h: "summed ?h" "protocol ?h \<noteq> RIP_PROTO" "ihl ?h = MIN_HDR_LEN" "tot_len ?h = htons (of_nat (20 + length d))"
    "ntohl (daddr ?h) \<in> my_addrs (snd (topo ! u))" "saddr ?h = saddr h" "daddr ?h = daddr h" "protocol ?h = 255"
    using Cons.prems(3-10) forwarded_pow [where c = 1 and h = h] by (simp_all add: RIP_PROTO_def)
  from Cons.IH [OF N1(1) r1 h(1-3) Cons.prems(6) h(4) Cons.prems(8) la h(5) s1] obtain N' N2 iid where
    c: "carried S topo ((i, k1, x1) # hs) ?h d (loaded j (carrier k h d) N) N'" and N2: "resting topo N2" "alike N1 N2"
    and N': "N' = put_node u (print (Received_Packet iid (saddr h) (daddr h) 255 (int (length d)) d) (net_nodes N2 ! u)) N2"
    unfolding h(6-8) by auto
  have "carried S topo ((j, k, x) # y # hs) h d M N'"
    unfolding carried.simps(2) [of S topo j] using Cons.prems(1,11) c unfolding y j1 by blast
  with N' N2(1) alike_trans [OF N1(2) N2(2)] show ?case by auto
qed

section \<open>Emptying the queues\<close>

text \<open>From a reachable network whose send buffers are free every queued packet can be transmitted.\<close>

definition draining :: "topology \<Rightarrow> net \<Rightarrow> bool" where
  "draining topo N \<longleftrightarrow> (\<forall>i < length topo. outgoingqueue (net_nodes N ! i) = [] \<and> timerQueue (net_nodes N ! i) = []
     \<and> list_all idle_link (interfaces (net_nodes N ! i)))"

lemma net_steps_ok: "(net_step S topo)\<^sup>*\<^sup>* N N' \<Longrightarrow> net_ok topo N \<Longrightarrow> net_ok topo N'"
  by (induction rule: rtranclp_induct) (auto intro: net_step_ok)

lemma net_run_steps: "(net_step S topo)\<^sup>*\<^sup>* N N' \<Longrightarrow> net_run S topo N \<Longrightarrow> net_run S topo N'"
  by (induction rule: rtranclp_induct) (auto intro: net_more)

lemma net_ok_sendable:
  assumes "net_ok topo N" and "j < length topo"
  shows "list_all (sendable (net_nodes N ! j)) (incomingqueue (net_nodes N ! j))"
  using assms
  by (fastforce simp: net_ok_def member_ok_def node_inv_def cargo_ok_def list_all_iff ipmsg_ok_def frame_ok_def sendable_def)

lemma drain_node:
  assumes "net_ok topo N" and "draining topo N" and "j < length topo"
  shows "\<exists>N'. (net_step S topo)\<^sup>*\<^sup>* N N' \<and> draining topo N' \<and> alike N N'
    \<and> (\<forall>i < length topo. incomingqueue (net_nodes N' ! i) = (if i = j then [] else incomingqueue (net_nodes N ! i)))"
proof -
  have l: "length (net_nodes N) = length topo" using assms(1) by (simp add: net_ok_def)
  have "list_all idle_link (interfaces (net_nodes N ! j))" using assms(2,3) by (simp add: draining_def)
  from push_all [OF assms(3) l this net_ok_sendable [OF assms(1,3)], of S] obtain N' n' where
    s: "(net_step S topo)\<^sup>*\<^sup>* N N'" and n': "net_nodes N' = (net_nodes N)[j := n']" "incomingqueue n' = []"
    "outline n' = outline (net_nodes N ! j)" "list_all idle_link (interfaces n')"
    unfolding pushed_def Let_def by blast
  have "alike N N'" unfolding alike_def n'(1) using n'(3) by (metis list_update_id map_update)
  moreover have "draining topo N'"
    using assms(2,3) l n'(4) outlineD(3) [OF n'(3)] by (simp add: draining_def n'(1) nth_list_update)
  ultimately show ?thesis using s n'(2) l by (auto simp: n'(1) nth_list_update)
qed

lemma drain:
  assumes "net_ok topo N" and "draining topo N"
  shows "\<exists>N'. (net_step S topo)\<^sup>*\<^sup>* N N' \<and> resting topo N' \<and> alike N N'"
proof -
  have "\<exists>N'. (net_step S topo)\<^sup>*\<^sup>* N N' \<and> draining topo N' \<and> alike N N'
      \<and> (\<forall>i < k. incomingqueue (net_nodes N' ! i) = [])" if "k \<le> length topo" for k
    using that
  proof (induction k)
    case (Suc k)
    then obtain N1 where N1: "(net_step S topo)\<^sup>*\<^sup>* N N1" "draining topo N1" "alike N N1"
      "\<forall>i < k. incomingqueue (net_nodes N1 ! i) = []" by auto
    from drain_node [OF net_steps_ok [OF N1(1) assms(1)] N1(2), of k S] Suc.prems obtain N' where
      "(net_step S topo)\<^sup>*\<^sup>* N1 N'" "draining topo N'" "alike N1 N'"
      "\<forall>i < length topo. incomingqueue (net_nodes N' ! i) = (if i = k then [] else incomingqueue (net_nodes N1 ! i))"
      by auto
    with N1 Suc.prems rtranclp_trans [OF N1(1)] alike_trans [OF N1(3)] show ?case by (metis less_SucE less_le_trans)
  qed (use assms(2) alike_refl in blast)
  from this [OF order_refl] obtain N' where N': "(net_step S topo)\<^sup>*\<^sup>* N N'" "draining topo N'" "alike N N'"
    "\<forall>i < length topo. incomingqueue (net_nodes N' ! i) = []" by blast
  have "resting topo N'"
    using net_steps_ok [OF N'(1) assms(1)] N'(2,4)
    by (simp add: resting_def net_ok_def member_ok_def statics_eq draining_def quiet_def)
  with N' show ?thesis by blast
qed

end
