(* ===== verification/End_To_End.thy ===== *)
theory End_To_End
  imports Multi_Hop
begin

text \<open>
  The composition of routing and delivery: once responses were exchanged, the tables lead every packet along a
  shortest path to the owner of its destination; and what a packet does in a network whose tables contain a loop.
\<close>

section \<open>Tables that hold the distances\<close>

definition exact_routes :: "topology \<Rightarrow> nat \<Rightarrow> node list \<Rightarrow> bool" where
  "exact_routes topo r ns \<longleftrightarrow> (\<forall>i a c. path topo i a c \<and> c \<le> r \<and> c \<le> 16 \<and> (\<forall>c'. path topo i a c' \<longrightarrow> c \<le> c')
     \<longrightarrow> (\<exists>w. map_find (rtable (ns ! i)) a = Some w \<and> unat (cost (ent w)) = c))"

lemma exact_routes_rtables:
  assumes "map rtable ns = map rtable ns'" and "length ns = length topo" and "exact_routes topo r ns'"
  shows "exact_routes topo r ns"
proof -
  have "rtable (ns ! i) = rtable (ns' ! i)" if "path topo i a c" for i a c
  proof -
    from that have "i < length ns" unfolding assms(2) by cases
    with assms(1) show ?thesis by (metis length_map nth_map)
  qed
  with assms(3) show ?thesis unfolding exact_routes_def by metis
qed

text \<open>The chosen interface is the one whose address the route names; its far end is the neighbour of the route.\<close>

lemma toward_route:
  assumes "settled topo i n" and "map_find (rtable n) a = Some w"
  shows "\<exists>k. toward n a = Some k \<and> k < length (snd (topo ! i)) \<and> vip_local (snd (topo ! i) ! k) = next_hop w"
proof -
  note s = settled_links [OF assms(1)]
  have inv: "rt_inv (snd (topo ! i)) (rtable n)" using assms(1) by (simp add: settled_def)
  have "next_hop w \<in> my_addrs (interfaces n)"
    using rt_inv_find [OF inv assms(2)] s(2) by (simp add: good_entry_def)
  then obtain k where k: "get_interface (interfaces n) (next_hop w) = Some k" using get_interface_my by blast
  from get_interface_SomeD [OF k] s(1) have "k < length (snd (topo ! i))" "vip_local (interfaces n ! k) = next_hop w"
    by simp_all
  with s(4) have "k < length (snd (topo ! i))" "vip_local (snd (topo ! i) ! k) = next_hop w" by metis+
  moreover have "toward n a = Some k"
    using get_next_address_eq [OF inv, of a DEFAULT_ADDR] assms(2) k by (simp add: toward_def)
  ultimately show ?thesis by blast
qed

lemma facing_wired:
  assumes "well_wired topo" and "i < length topo" and "k < length (snd (topo ! i))"
    and "faces topo i (vip_local (snd (topo ! i) ! k)) j"
  shows "\<exists>m. wired topo (i, k, j, m)"
proof -
  have j: "j < length topo" using assms(4) by (simp add: faces_def)
  have "fst (topo ! j) = remoteport (snd (topo ! i) ! k)" by (rule facing_node [OF assms])
  moreover obtain y where "faces topo j y i" using assms(1,2,4) unfolding well_wired_def by blast
  from faces_wired [OF assms(1) j this] obtain k' m where "wired topo (i, k', j, m)" by blast
  ultimately show ?thesis using assms(2,3) j by auto
qed

lemma first_hop:
  assumes "well_wired topo" and "calm topo ns" and "exact_routes topo r ns"
    and "path topo i a (Suc c)" and "\<forall>c'. path topo i a c' \<longrightarrow> Suc c \<le> c'" and "Suc c \<le> r" and "Suc c \<le> 16"
  shows "\<exists>k j m. toward (ns ! i) a = Some k \<and> wired topo (i, k, j, m) \<and> path topo j a c
    \<and> (\<forall>c'. path topo j a c' \<longrightarrow> c \<le> c')"
proof -
  from assms(4) have i: "i < length topo" by cases
  then have s: "settled topo i (ns ! i)" using assms(2) by (simp add: calm_def)
  obtain w where w: "map_find (rtable (ns ! i)) a = Some w" "unat (cost (ent w)) = Suc c"
    using assms(3-7) unfolding exact_routes_def by blast
  have "route_ok topo i a w" using s map_find_SomeD [OF w(1)] by (fastforce simp: settled_def routes_ok_def)
  with w(2) obtain j where j: "faces topo i (next_hop w) j" "path topo j a c" by (auto simp: route_ok_def)
  obtain k where k: "toward (ns ! i) a = Some k" "k < length (snd (topo ! i))" "vip_local (snd (topo ! i) ! k) = next_hop w"
    using toward_route [OF s w(1)] by blast
  obtain m where m: "wired topo (i, k, j, m)" using facing_wired [OF assms(1) i k(2)] k(3) j(1) by metis
  have "c \<le> c'" if "path topo j a c'" for c'
    using path_hop [OF i j(1) that] assms(5) by force
  with k(1) m j(2) show ?thesis by blast
qed

text \<open>From every node a list of hops leads along the tables to the owner.\<close>

lemma shortest_relays:
  assumes "well_wired topo" and "calm topo ns" and "exact_routes topo r ns"
    and "path topo i a (Suc c)" and "\<forall>c'. path topo i a c' \<longrightarrow> Suc c \<le> c'" and "Suc c \<le> r" and "Suc c \<le> 16"
  shows "\<exists>k x hs j m t y. toward (ns ! i) a = Some k \<and> length hs = c \<and> relays topo ns a ((i, k, x) # hs)
    \<and> last ((i, k, x) # hs) = (j, m, t, y) \<and> a \<in> my_addrs (snd (topo ! t))"
  using assms(4-7)
proof (induction c arbitrary: i)
  case 0
  from first_hop [OF assms(1-3) 0] obtain k j m where
    "toward (ns ! i) a = Some k" "wired topo (i, k, j, m)" "path topo j a 0" by blast
  then show ?case
    by (intro exI [of _ k] exI [of _ "(j, m)"] exI [of _ "[]"] exI [of _ i] exI [of _ k] exI [of _ j] exI [of _ m])
      (auto elim: path_0E)
next
  case (Suc c)
  from first_hop [OF assms(1-3) Suc.prems] obtain k j m where
    h: "toward (ns ! i) a = Some k" "wired topo (i, k, j, m)" and p: "path topo j a (Suc c)"
    and mi: "\<forall>c'. path topo j a c' \<longrightarrow> Suc c \<le> c'" by blast
  have "\<not> path topo j a 0" using mi by fastforce
  moreover from p have "j < length topo" by cases
  ultimately have a: "a \<notin> my_addrs (snd (topo ! j))" by (blast intro: path_own)
  from Suc.IH [OF p mi] Suc.prems(3,4) obtain k2 x hs l where
    r: "toward (ns ! j) a = Some k2" "length hs = c" "relays topo ns a ((j, k2, x) # hs)"
      "last ((j, k2, x) # hs) = l" "\<exists>j m t y. l = (j, m, t, y) \<and> a \<in> my_addrs (snd (topo ! t))"
    by fastforce
  have "relays topo ns a ((i, k, (j, m)) # (j, k2, x) # hs)"
    using h(2) a r(1,3) by (simp del: wired.simps)
  moreover have "length ((j, k2, x) # hs) = Suc c" "last ((i, k, (j, m)) # (j, k2, x) # hs) = l" using r(2,4) by simp_all
  ultimately show ?case using h(1) r(5) by metis
qed

section \<open>Sending along a list of hops\<close>

lemma send_loads:
  assumes "resting topo N" and "i < length topo" and "toward (net_nodes N ! i) (ntohl dest) = Some k"
    and "length data \<le> packet_data_cap" and "(i, dest, proto, data) \<in> S" and "proto \<noteq> RIP_PROTO"
  shows "\<exists>s. s \<in> my_addrs (snd (topo ! i)) \<and> net_step S topo N
    (loaded i (carrier k (filled (fresh_header s (ntohl dest) proto (length data))) data) N)"
proof -
  let ?n = "net_nodes N ! i"
  let ?s = "vip_local (interfaces ?n ! k)"
  let ?h = "filled (fresh_header ?s (ntohl dest) proto (length data))"
  have g: "get_interface (interfaces ?n) (get_next_address (rtable ?n) (ntohl dest) DEFAULT_ADDR) = Some k"
    using assms(3) by (simp add: toward_def)
  have "node_step (Send_Cmd dest proto data) ?n = Some (Inr (?n\<lparr>incomingqueue := incomingqueue ?n @ [carrier k ?h data]\<rparr>))"
    using g assms(4)
    by (simp add: transfer_application_to_ip_def Let_def build_ip_packet_eq filled_def carrier_def)
  from net_event [OF assms(2) _ _ this, of S] assms(1,2,5,6)
  have "net_step S topo N (loaded i (carrier k ?h data) N)"
    by (simp add: internal_def issued_def loaded_def put_node_def resting_def quiet_def)
  moreover have "?s \<in> my_addrs (snd (topo ! i))"
    using get_interface_SomeD [OF g] vip_local_nth resting_nth(3) [OF assms(1,2)] by metis
  ultimately show ?thesis by blast
qed

lemma relays_last: "relays topo ns a (y # hs) \<Longrightarrow> wired topo (last (y # hs))"
proof (induction hs arbitrary: y)
  case (Cons z hs)
  then show ?case by (cases y) (auto simp del: wired.simps)
qed simp

lemma send_along:
  assumes N: "resting topo N" and t: "toward (net_nodes N ! i) (ntohl dest) = Some k"
    and r: "relays topo (net_nodes N) (ntohl dest) ((i, k, x) # hs)" and l: "last ((i, k, x) # hs) = (j, k', u, m)"
    and u: "ntohl dest \<in> my_addrs (snd (topo ! u))" and S: "(i, dest, proto, data) \<in> S" "proto \<noteq> RIP_PROTO"
    and d: "length data \<le> 1004" "0 \<notin> set data"
  shows "\<exists>N' N1 iid s. carried S topo ((i, k, x) # hs) (filled (fresh_header s (ntohl dest) proto (length data))) data N N'
    \<and> s \<in> my_addrs (snd (topo ! i)) \<and> resting topo N1 \<and> alike N N1
    \<and> N' = put_node u (print (Received_Packet iid (htonl s) dest (if hs = [] then proto else 255) (int (length data)) data)
        (net_nodes N1 ! u)) N1"
proof -
  have w: "wired topo (i, k, x)" using r by (cases x; cases hs) (auto simp del: wired.simps)
  then have i: "i < length topo" by (cases x) simp
  obtain s where s: "s \<in> my_addrs (snd (topo ! i))"
    and s1: "net_step S topo N (loaded i (carrier k (filled (fresh_header s (ntohl dest) proto (length data))) data) N)"
    using send_loads [OF N i t _ S] d(1) by (auto simp: packet_data_cap_def)
  let ?h = "filled (fresh_header s (ntohl dest) proto (length data))"
  have h: "summed ?h" "protocol ?h \<noteq> RIP_PROTO" "ihl ?h = MIN_HDR_LEN" "20 + length data \<le> MAXBUFF"
    "tot_len ?h = htons (of_nat (20 + length data))" "ntohl (daddr ?h) \<in> my_addrs (snd (topo ! u))"
    "saddr ?h = htonl s" "daddr ?h = dest" "protocol ?h = proto"
    using S(2) d(1) u by (simp_all add: MAXBUFF_def)
  have r': "relays topo (net_nodes N) (ntohl (daddr ?h)) ((i, k, x) # hs)" using r by simp
  from relay_carried [OF N r' h(1-5) d(2) l h(6) r_into_rtranclp [of "net_step S topo", OF s1]] s show ?thesis unfolding h(7-9) by blast
qed

section \<open>Rounds of responses as runs of the network\<close>

lemma complete_rounds_wired:
  "\<forall>hs \<in> set rounds. complete_round topo hs \<Longrightarrow> \<forall>h \<in> set (concat rounds). wired topo h"
  by (auto simp: complete_round_def)

text \<open>A talk and the gossip made of talks are runs of the network, up to what the passage of packets changes.\<close>

lemma outline_rtable: "outline (n\<lparr>rtable := rt\<rparr>) = (outline n)\<lparr>rtable := rt\<rparr>"
  by (simp add: outline_def)

lemma settled_outline:
  assumes "outline n = outline n'" and "map link_static (interfaces n) = map link_static (interfaces n')" and "settled topo i n"
  shows "settled topo i n'"
proof -
  have p: "list_all isup ls = list_all (\<lambda>b. b) (map isup ls)" for ls by (simp add: list.pred_map comp_def)
  have "list_all isup (interfaces n') = list_all isup (interfaces n)" unfolding p outlineD(5) [OF assms(1)] ..
  then show ?thesis using assms(2,3) outlineD(1) [OF assms(1)] by (simp add: settled_def)
qed

lemma respond:
  assumes "resting topo N" and "j < length topo" and "length (rtable (net_nodes N ! j)) \<le> MAX_ENTRIES"
    and n: "n = net_nodes N ! j" and ms: "ms = map (rip_ipmsg 2 (interfaces n) (rtable n)) (up_ids (interfaces n))"
  shows "(net_step S topo)\<^sup>*\<^sup>* N (put_node j (n\<lparr>incomingqueue := ms\<rparr>) N)"
proof -
  have l: "length (net_nodes N) = length topo" and q: "quiet n" using assms(1,2) n by (simp_all add: resting_def)
  let ?n1 = "n\<lparr>timerQueue := [1]\<rparr>"
  have "node_step (Timer_Signal 1) (net_nodes N ! j) = Some (Inr ?n1)" using q n by (simp add: quiet_def)
  from net_event [OF assms(2) _ _ this, of S]
  have s1: "net_step S topo N (put_node j ?n1 N)" by (simp add: internal_def issued_def put_node_def)
  have t: "n\<lparr>timerQueue := []\<rparr> = n" "incomingqueue n = []" using q by (cases n, simp_all add: quiet_def)
  have "prepare_msg 2 n = Inr (n\<lparr>incomingqueue := ms\<rparr>)"
    using prepare_msg_eq [OF assms(3) [folded n], of 2] t(2) ms by simp
  then have "rip_timer_step (at_sec 0) ?n1 = Some (Inr (n\<lparr>incomingqueue := ms\<rparr>))" by (simp add: rip_timer_step_def t(1))
  then have "node_step (Rip_Round (at_sec 0)) (net_nodes (put_node j ?n1 N) ! j) = Some (Inr (n\<lparr>incomingqueue := ms\<rparr>))"
    using assms(2) l by simp
  from net_event [OF assms(2) _ _ this, of S]
  have "net_step S topo (put_node j ?n1 N) (put_node j (n\<lparr>incomingqueue := ms\<rparr>) N)"
    by (simp add: internal_def issued_def put_node_def)
  with s1 show ?thesis by (simp add: converse_rtranclp_into_rtranclp)
qed

text \<open>A response of node \<open>j\<close> is on the wire for every neighbour.\<close>

lemma respond_transmit:
  assumes N: "resting topo N" and j: "j < length topo" and s: "settled topo j (net_nodes N ! j)" and w: "well_wired topo"
    and k: "k < length (snd (topo ! j))"
  shows "\<exists>N'. (net_step S topo)\<^sup>*\<^sup>* N N' \<and> resting topo N' \<and> alike N N'
    \<and> \<lparr>d_src = fst (topo ! j), d_dst = remoteport (snd (topo ! j) ! k),
       d_bytes = ippacket (rip_ipmsg 2 (interfaces (net_nodes N ! j)) (rtable (net_nodes N ! j)) k)\<rparr> \<in> set (net_sent N')"
proof -
  let ?n = "net_nodes N ! j"
  let ?msg = "rip_ipmsg 2 (interfaces ?n) (rtable ?n)"
  let ?ms = "map ?msg (up_ids (interfaces ?n))"
  let ?q = "?n\<lparr>incomingqueue := ?ms\<rparr>"
  let ?L = "put_node j ?q N"
  have l: "length (net_nodes N) = length topo" and q: "quiet ?n" using N j by (simp_all add: resting_def)
  note rs = respond [OF N j settled_length [OF s j w] refl refl, of S]
  have nj: "net_nodes ?L ! j = ?q" using j l by simp
  have "ippacket (?msg x) \<noteq> []" for x by (simp add: rip_ipmsg_def Let_def iphdr_bytes_def)
  then have "list_all (sendable ?q) ?ms"
    by (auto simp: list_all_iff sendable_def up_ids_def rip_ipmsg_def Let_def)
  moreover have "list_all idle_link (interfaces ?q)" using q by (simp add: quiet_def)
  ultimately obtain N1 n' where s1: "(net_step S topo)\<^sup>*\<^sup>* ?L N1" and n': "net_nodes N1 = (net_nodes ?L)[j := n']"
    "incomingqueue n' = []" "outline n' = outline ?n" "list_all idle_link (interfaces n')"
    "map link_static (interfaces n') = map link_static (interfaces ?n)"
    and dg: "set (net_sent N1) = set (net_sent ?L) \<union> wire_copy topo j ?q ` set ?ms"
    using push_all [OF j, of ?L S] l unfolding pushed_def Let_def nj by (auto simp: outline_def)
  have nodes: "net_nodes N1 = (net_nodes N)[j := n']" using n'(1) by (simp add: put_node_def)
  have "quiet n'" using n'(2,4) outlineD(3) [OF n'(3)] q by (simp add: quiet_def)
  then have N1: "resting topo N1" using N j n'(5) by (auto simp: resting_def nodes nth_list_update)
  have a: "alike N N1" unfolding alike_def nodes using n'(3) by (metis list_update_id map_update)
  note rj = resting_nth [OF N j]
  have "k \<in> set (up_ids (interfaces ?n))" using settled_links(4) [OF s k] rj(2) k by (simp add: up_ids_def)
  then have "wire_copy topo j ?q (?msg k) \<in> set (net_sent N1)" unfolding dg by simp
  moreover have "ifc (?msg k) = k" by (simp add: rip_ipmsg_def Let_def)
  moreover have "remoteport (interfaces ?n ! k) = remoteport (snd (topo ! j) ! k)" using rj(4) [OF k] by (simp add: link_static_def)
  ultimately show ?thesis using rtranclp_trans [OF rs s1] N1 a by (auto simp: wire_copy_def)
qed

lemma talk_runs:
  assumes w: "well_wired topo" and N: "resting topo N" and c: "calm topo (net_nodes N)" and h: "wired topo (j, k, i, m)"
  shows "\<exists>N'. (net_step S topo)\<^sup>*\<^sup>* N N' \<and> resting topo N'
    \<and> map outline (net_nodes N') = (map outline (net_nodes N))
        [i := (outline (net_nodes N ! i))\<lparr>rtable := told clock topo (j, k, i, m) (net_nodes N)\<rparr>]"
proof -
  let ?nj = "net_nodes N ! j"
  let ?msg = "rip_ipmsg 2 (interfaces ?nj) (rtable ?nj) k"
  let ?T = "told clock topo (j, k, i, m) (net_nodes N)"
  have ij: "i < length topo" "j < length topo" and k: "k < length (snd (topo ! j))" and m: "m < length (snd (topo ! i))"
    and rp: "remoteport (snd (topo ! j) ! k) = fst (topo ! i)" and l: "length (net_nodes N) = length topo"
    using h N by (simp_all add: resting_def)
  have s: "settled topo i (net_nodes N ! i)" "settled topo j ?nj" using c ij by (simp_all add: calm_def)
  from respond_transmit [OF N ij(2) s(2) w k, of S] obtain N1 where s1: "(net_step S topo)\<^sup>*\<^sup>* N N1"
    and N1: "resting topo N1" "alike N N1"
    and dg: "\<lparr>d_src = fst (topo ! j), d_dst = fst (topo ! i), d_bytes = ippacket ?msg\<rparr> \<in> set (net_sent N1)"
    unfolding rp by blast
  let ?n = "net_nodes N1 ! i"
  have o: "outline ?n = outline (net_nodes N ! i)" using alike_nth(2) [OF N1(2)] ij l by simp
  have st: "settled topo i ?n"
    by (rule settled_outline [OF o [symmetric] _ s(1)]) (use N N1 ij in \<open>simp add: resting_def\<close>)
  note f = settled_links [OF st] settled_links [OF s(2)]
  have len: "length (rtable ?nj) \<le> MAX_ENTRIES" by (rule settled_length [OF s(2) ij(2) w])
  have "talk clock k m ?nj ?n = transfer_data clock (ippacket ?msg) (msize ?msg) (vip_local (interfaces ?n ! m)) ?n"
    using prepare_msg_ifc_eq [of k ?nj 2] k f(5) len by (simp add: talk_def Let_def)
  moreover have "talk clock k m ?nj ?n = Inr (?n\<lparr>rtable := ?T\<rparr>)"
    using talk_eq [of k ?nj m ?n clock] len k m well_wired_node(1) [OF w ij(1)] f(4) [OF m] f(8) [OF k]
      learn_addrs [OF f(2)] outlineD(1) [OF o] by (simp add: f(1,3,5) told_def)
  ultimately have t: "transfer_data clock (ippacket ?msg) (msize ?msg) (vip_local (interfaces ?n ! m)) ?n
      = Inr (?n\<lparr>rtable := ?T\<rparr>)" by simp
  let ?d = "rip_payload 2 (adverts (vip_local (interfaces ?nj ! k)) (rtable ?nj))"
  let ?h = "rip_header (interfaces ?nj ! k) (length ?d)"
  have b: "ippacket ?msg = iphdr_bytes ?h @ ?d" "msize ?msg = 20 + length ?d" by (simp_all add: rip_ipmsg_def Let_def)
  have d: "20 + length ?d \<le> MAXBUFF" "tot_len ?h = htons (of_nat (20 + length ?d))"
    using len by (simp_all add: length_rip_payload MAX_ENTRIES_def MAXBUFF_def rip_header_def Let_def)
  note ri = resting_nth [OF N1(1) ij(1)]
  have "port_of ?n (fst (topo ! j)) m" using ri(2,5) h by (simp add: port_of_def)
  moreover have "s_local (interfaces ?n ! m) \<noteq> -1" using ri(1,2) m by (auto simp: quiet_def list_all_length idle_link_def)
  moreover have "outgoingqueue ?n = []" using ri(1) by (simp add: quiet_def)
  ultimately have "(net_step S topo)\<^sup>*\<^sup>* N1 (put_node i (?n\<lparr>rtable := ?T\<rparr>) N1)"
    using receive_packet [OF ij(1) _ refl _ _ _ _ d, of N1 "fst (topo ! j)" m clock _ S] dg t N1(1)
    by (simp add: b resting_def)
  moreover have "resting topo (put_node i (?n\<lparr>rtable := ?T\<rparr>) N1)"
    using N1(1) ij by (simp add: resting_def put_node_def nth_list_update quiet_def)
  moreover have "map outline (net_nodes (put_node i (?n\<lparr>rtable := ?T\<rparr>) N1))
      = (map outline (net_nodes N))[i := (outline (net_nodes N ! i))\<lparr>rtable := ?T\<rparr>]"
    using N1(2) o by (simp add: put_node_def alike_def map_update outline_rtable)
  ultimately show ?thesis using rtranclp_trans [OF s1] by blast
qed

lemma outlines_nth: "map outline ns = map outline ns' \<Longrightarrow> i < length ns \<Longrightarrow> outline (ns ! i) = outline (ns' ! i)"
  by (metis length_map nth_map)

lemma told_outline:
  assumes "map outline ns = map outline ns'" and "i < length ns" and "j < length ns"
  shows "told clock topo (j, k, i, m) ns = told clock topo (j, k, i, m) ns'"
  using outlineD(1) [OF outlines_nth [OF assms(1)]] assms(2,3) by (simp add: told_def)

lemma calm_outline:
  assumes "map outline (net_nodes N) = map outline ns" and "resting topo N" and "calm topo ns"
  shows "calm topo (net_nodes N)"
proof -
  have l: "length ns = length topo" "length (net_nodes N) = length topo" using assms(2,3) by (simp_all add: resting_def calm_def)
  have "settled topo i (net_nodes N ! i)" if i: "i < length topo" for i
  proof (rule settled_outline)
    show "outline (ns ! i) = outline (net_nodes N ! i)" using outlines_nth [OF assms(1)] i l by simp
    show s: "settled topo i (ns ! i)" using assms(3) i by (simp add: calm_def)
    then show "map link_static (interfaces (ns ! i)) = map link_static (interfaces (net_nodes N ! i))"
      using assms(2) i by (simp add: resting_def settled_def)
  qed
  then show ?thesis using l by (simp add: calm_def)
qed

lemma gossip_runs:
  assumes "well_wired topo" and "resting topo N" and "calm topo ns" and "map outline (net_nodes N) = map outline ns"
    and "\<forall>h \<in> set hs. wired topo h" and "gossip clock t hs ns = Inr ns'"
  shows "\<exists>N'. (net_step S topo)\<^sup>*\<^sup>* N N' \<and> resting topo N' \<and> map outline (net_nodes N') = map outline ns'"
  using assms(2-6)
proof (induction hs arbitrary: t ns N)
  case (Cons h hs)
  obtain j k i m where h: "h = (j, k, i, m)" by (cases h)
  with Cons.prems have w: "wired topo (j, k, i, m)" and l: "i < length ns" "j < length ns" by (simp_all add: calm_def)
  let ?T = "told (clock t) topo (j, k, i, m) ns"
  let ?ns = "ns[i := (ns ! i)\<lparr>rtable := ?T\<rparr>]"
  have g: "gossip clock (Suc t) hs ?ns = Inr ns'"
    using Cons.prems(5) talk_told [OF assms(1) Cons.prems(2) w] by (simp add: h)
  have n: "length (net_nodes N) = length ns" using Cons.prems(3) by (rule map_eq_imp_length_eq)
  from talk_runs [OF assms(1) Cons.prems(1) calm_outline [OF Cons.prems(3,1,2)] w, of S "clock t"] obtain N1 where
    s1: "(net_step S topo)\<^sup>*\<^sup>* N N1" and N1: "resting topo N1" and o: "map outline (net_nodes N1) = (map outline (net_nodes N))
        [i := (outline (net_nodes N ! i))\<lparr>rtable := told (clock t) topo (j, k, i, m) (net_nodes N)\<rparr>]" by blast
  have "told (clock t) topo (j, k, i, m) (net_nodes N) = ?T" using told_outline [OF Cons.prems(3)] l n by simp
  then have "map outline (net_nodes N1) = map outline ?ns"
    using o Cons.prems(3) outlines_nth [OF Cons.prems(3)] l n by (simp add: map_update outline_rtable)
  from Cons.IH [OF N1 talk_calm [OF assms(1) Cons.prems(2) w] this _ g] Cons.prems(4) obtain N' where
    "(net_step S topo)\<^sup>*\<^sup>* N1 N'" "resting topo N'" "map outline (net_nodes N') = map outline ns'" by auto
  with rtranclp_trans [OF s1] show ?case by blast
qed auto

lemma put_node_console:
  assumes "resting topo N1" and "alike N N1" and "u < length topo" and "length (net_nodes N) = length topo"
  shows "console (net_nodes (put_node u (print x (net_nodes N1 ! u)) N1) ! u) = console (net_nodes N ! u) @ [x]"
proof -
  have "u < length (net_nodes N1)" using assms(1,3) by (simp add: resting_def)
  moreover have "console (net_nodes N1 ! u) = console (net_nodes N ! u)"
    using outlineD(2) [OF alike_nth(2) [OF assms(2)]] assms(3,4) by simp
  ultimately show ?thesis by simp
qed

section \<open>Routing loops\<close>

definition routing_loop :: "topology \<Rightarrow> node list \<Rightarrow> u32 \<Rightarrow> hop list \<Rightarrow> bool" where
  "routing_loop topo ns a hs \<longleftrightarrow> hs \<noteq> [] \<and> relays topo ns a (hs @ [hd hs])"

lemma relays_append:
  "relays topo ns a (xs @ [y]) \<Longrightarrow> relays topo ns a (y # ys) \<Longrightarrow> relays topo ns a (xs @ y # ys)"
proof (induction xs)
  case (Cons x xs)
  obtain j k i m where x: "x = (j, k, i, m)" by (cases x)
  show ?case
  proof (cases xs)
    case Nil
    with Cons.prems show ?thesis by (simp add: x del: wired.simps)
  next
    case (Cons z zs)
    with Cons.IH Cons.prems show ?thesis by (simp add: x del: wired.simps)
  qed
qed simp

lemma loop_unrolled:
  assumes "routing_loop topo ns a hs"
  shows "\<exists>ys. concat (replicate r hs) @ [hd hs] = hd hs # ys \<and> length ys = r * length hs \<and> relays topo ns a (hd hs # ys)"
proof (induction r)
  case 0
  from assms obtain y ys where "hs = y # ys" "relays topo ns a (y # ys @ [y])" by (cases hs) (auto simp: routing_loop_def)
  with relays_last [of topo ns a y "ys @ [y]"] show ?case by (simp del: wired.simps)
next
  case (Suc r)
  then obtain ys where ys: "concat (replicate r hs) @ [hd hs] = hd hs # ys" "length ys = r * length hs"
    "relays topo ns a (hd hs # ys)" by blast
  have "relays topo ns a (hs @ hd hs # ys)"
    using relays_append [OF _ ys(3), of hs] assms by (simp add: routing_loop_def)
  moreover obtain y zs where h: "hs = y # zs" using assms by (cases hs) (auto simp: routing_loop_def)
  moreover have "concat (replicate (Suc r) hs) @ [hd hs] = hs @ hd hs # ys" by (simp add: ys(1) [symmetric])
  ultimately show ?case
    using ys(2) by (intro exI [of _ "zs @ y # ys"]) simp
qed

text \<open>A network that starts with its interfaces up transmits what is queued and is then at rest, still up.\<close>

lemma drain_up:
  assumes "net_run S topo N" and "draining topo N" and "\<forall>n \<in> set (net_nodes N). list_all isup (interfaces n)"
  shows "\<exists>N'. (net_step S topo)\<^sup>*\<^sup>* N N' \<and> net_run S topo N' \<and> resting topo N'
    \<and> (\<forall>n \<in> set (net_nodes N'). list_all isup (interfaces n))"
proof -
  from drain [OF net_run_ok [OF assms(1)] assms(2), of S] obtain N' where
    N: "(net_step S topo)\<^sup>*\<^sup>* N N'" "resting topo N'" "alike N N'" by blast
  have "list_all isup (interfaces n')" if n': "n' \<in> set (net_nodes N')" for n'
  proof -
    have "outline n' \<in> outline ` set (net_nodes N)"
      using n' arg_cong [OF N(3) [unfolded alike_def], of set] by auto
    then obtain n where n: "n \<in> set (net_nodes N)" "outline n' = outline n" by blast
    have u: "list_all isup ls = list_all (\<lambda>b. b) (map isup ls)" for ls by (simp add: list.pred_map comp_def)
    show ?thesis using assms(3) n(1) unfolding u outlineD(5) [OF n(2)] by simp
  qed
  with N(1,2) net_run_steps [OF N(1) assms(1)] show ?thesis by blast
qed

lemma rounds_carry:
  assumes "well_wired topo" and "net_run S topo N" and "resting topo N"
    and "\<forall>n \<in> set (net_nodes N). list_all isup (interfaces n)"
    and "\<forall>hs \<in> set rounds. complete_round topo hs"
    and "(i, dest, proto, data) \<in> S" and "proto \<noteq> RIP_PROTO" and "length data \<le> 1004" and "0 \<notin> set data"
    and "path topo i (ntohl dest) c" and "\<forall>c'. path topo i (ntohl dest) c' \<longrightarrow> c \<le> c'"
    and "0 < c" and "c \<le> length rounds" and "c \<le> 16"
  shows "\<exists>ns' N1 N2 k x hs j m t y iid s. gossip clock 0 (concat rounds) (net_nodes N) = Inr ns'
    \<and> (net_step S topo)\<^sup>*\<^sup>* N N1 \<and> map rtable (net_nodes N1) = map rtable ns'
    \<and> length ((i, k, x) # hs) = c \<and> relays topo (net_nodes N1) (ntohl dest) ((i, k, x) # hs) \<and> last ((i, k, x) # hs) = (j, m, t, y)
    \<and> carried S topo ((i, k, x) # hs) (filled (fresh_header s (ntohl dest) proto (length data))) data N1 N2
    \<and> t < length topo \<and> ntohl dest \<in> my_addrs (snd (topo ! t)) \<and> s \<in> my_addrs (snd (topo ! i))
    \<and> console (net_nodes N2 ! t) = console (net_nodes N1 ! t)
        @ [Received_Packet iid (htonl s) dest (if c = 1 then proto else 255) (int (length data)) data]"
proof -
  note calm0 = net_calm(1) [OF assms(1,2,4)]
  from rounds_exact_calm [OF assms(1) net_calm [OF assms(1,2,4)] assms(5), of clock] obtain ns' where
    g: "gossip clock 0 (concat rounds) (net_nodes N) = Inr ns'" and calm: "calm topo ns'"
    and ex: "exact_routes topo (length rounds) ns'" unfolding exact_routes_def by blast
  from gossip_runs [OF assms(1,3) calm0 refl complete_rounds_wired [OF assms(5)] g, of S] obtain N1 where
    s1: "(net_step S topo)\<^sup>*\<^sup>* N N1" and N1: "resting topo N1" and o: "map outline (net_nodes N1) = map outline ns'"
    by blast
  have l: "length (net_nodes N1) = length topo" using N1 by (simp add: resting_def)
  have rt: "map rtable (net_nodes N1) = map rtable ns'"
    using arg_cong [OF o, of "map rtable"] by (simp add: outline_def comp_def)
  note ex1 = exact_routes_rtables [OF rt l ex]
  obtain c' where c: "c = Suc c'" using assms(12) by (cases c) auto
  from shortest_relays [OF assms(1) calm_outline [OF o N1 calm] ex1 assms(10,11,13,14) [unfolded c]] obtain k x hs j m t y where
    h: "toward (net_nodes N1 ! i) (ntohl dest) = Some k" "length hs = c'" "relays topo (net_nodes N1) (ntohl dest) ((i, k, x) # hs)"
      "last ((i, k, x) # hs) = (j, m, t, y)" "ntohl dest \<in> my_addrs (snd (topo ! t))" by blast
  have t: "t < length topo" using relays_last [OF h(3)] h(4) by simp
  have e: "hs = [] \<longleftrightarrow> c = Suc 0" and n: "length ((i, k, x) # hs) = c" using h(2) c by auto
  from send_along [OF N1 h(1,3,4,5) assms(6-9)] obtain N2 N3 iid s where
    s: "carried S topo ((i, k, x) # hs) (filled (fresh_header s (ntohl dest) proto (length data))) data N1 N2"
    "s \<in> my_addrs (snd (topo ! i))" "resting topo N3" "alike N1 N3"
    "N2 = put_node t (print (Received_Packet iid (htonl s) dest (if c = 1 then proto else 255) (int (length data)) data)
        (net_nodes N3 ! t)) N3" unfolding e One_nat_def by blast
  have p: "console (net_nodes N2 ! t) = console (net_nodes N1 ! t)
      @ [Received_Packet iid (htonl s) dest (if c = 1 then proto else 255) (int (length data)) data]"
    using put_node_console [OF s(3,4) t l] unfolding s(5) .
  show ?thesis by (intro exI conjI) (rule g s1 rt n h(3,4) s(1) t h(5) s(2) p)+
qed

lemma rounds_deliver:
  assumes "well_wired topo" and "net_run S topo N" and "resting topo N"
    and "\<forall>n \<in> set (net_nodes N). list_all isup (interfaces n)"
    and "\<forall>hs \<in> set rounds. complete_round topo hs"
    and "(i, dest, proto, data) \<in> S" and "proto \<noteq> RIP_PROTO" and "length data \<le> 1004" and "0 \<notin> set data"
    and "path topo i (ntohl dest) c" and "\<forall>c'. path topo i (ntohl dest) c' \<longrightarrow> c \<le> c'"
    and "0 < c" and "c \<le> length rounds" and "c \<le> 16"
  shows "\<exists>ns' N1 N2 t iid s. gossip clock 0 (concat rounds) (net_nodes N) = Inr ns'
    \<and> (net_step S topo)\<^sup>*\<^sup>* N N1 \<and> map rtable (net_nodes N1) = map rtable ns'
    \<and> (net_step S topo)\<^sup>*\<^sup>* N1 N2
    \<and> t < length topo \<and> ntohl dest \<in> my_addrs (snd (topo ! t)) \<and> s \<in> my_addrs (snd (topo ! i))
    \<and> console (net_nodes N2 ! t) = console (net_nodes N1 ! t)
        @ [Received_Packet iid (htonl s) dest (if c = 1 then proto else 255) (int (length data)) data]"
  using rounds_carry [OF assms, of clock] carried_run [of S topo] by blast

section \<open>Properties\<close>

text \<open>
  C2: routing and delivery together.  From a reachable network at rest whose interfaces are up, \<open>r\<close>
  rounds of responses in any order make the tables such that a payload (at most 1004 bytes, none of them NUL, protocol not 200)
  sent at any node to any address whose shortest path has \<open>c\<close> links, at least one, at most \<open>r\<close> and at most 16, can be taken by
  the threads of the nodes along a shortest path to its owner: the tables choose, hop by hop, a chain of \<open>c\<close> links from
  the sender to the owner, and one run takes the packet through the queue of each node of this chain in turn, the
  header rewritten once more each time, until the owner prints it once with its length and a source address of
  the sender; the protocol number survives a direct link only and is 255 otherwise.
\<close>

theorem rounds_then_delivery:
  assumes "well_wired topo" and "net_run S topo N" and "resting topo N"
    and "\<forall>n \<in> set (net_nodes N). list_all isup (interfaces n)"
    and "\<forall>hs \<in> set rounds. complete_round topo hs"
    and "(i, dest, proto, data) \<in> S" and "proto \<noteq> RIP_PROTO" and "length data \<le> 1004" and "0 \<notin> set data"
    and "path topo i (ntohl dest) c" and "\<forall>c'. path topo i (ntohl dest) c' \<longrightarrow> c \<le> c'"
    and "0 < c" and "c \<le> length rounds" and "c \<le> 16"
  shows "\<exists>ns' N1 N2 k x hs j m t y iid s. gossip clock 0 (concat rounds) (net_nodes N) = Inr ns'
    \<and> (net_step S topo)\<^sup>*\<^sup>* N N1 \<and> map rtable (net_nodes N1) = map rtable ns'
    \<and> length ((i, k, x) # hs) = c \<and> relays topo (net_nodes N1) (ntohl dest) ((i, k, x) # hs) \<and> last ((i, k, x) # hs) = (j, m, t, y)
    \<and> carried S topo ((i, k, x) # hs) (filled (fresh_header s (ntohl dest) proto (length data))) data N1 N2
    \<and> t < length topo \<and> ntohl dest \<in> my_addrs (snd (topo ! t)) \<and> s \<in> my_addrs (snd (topo ! i))
    \<and> console (net_nodes N2 ! t) = console (net_nodes N1 ! t)
        @ [Received_Packet iid (htonl s) dest (if c = 1 then proto else 255) (int (length data)) data]"
  by (rule rounds_carry [OF assms])

text \<open>
  C5: in a network whose links lose, repeat, delay and reorder datagrams, with links going up and
  down and routes changing, nothing is printed that was not sent: every packet a console reports carries the
  payload (at most 1004 bytes) that a user gave to \<open>send\<close> for an address of the reporting node, with an interface address of the sending node
  as its source, its true length, and the protocol number of the command or 255; no checksum difference
  and no expired packet is ever reported.
\<close>

theorem delivered_was_sent:
  assumes "net_run S topo N" and "i < length topo" and "x \<in> set (console (net_nodes N ! i))"
  shows "honest_line S topo (my_addrs (snd (topo ! i))) x"
  using net_run_honest [OF assms(1)] assms(2,3) by (auto simp: net_honest_def holds_def list_all_iff)

text \<open>
  C16: where the tables of a network send a destination round in a circle of \<open>length hs\<close> hops, a packet for it
  is never dropped: for every \<open>r\<close> the threads can carry it round the circle \<open>r\<close> times, back into the queue of the
  node it started from with the same payload and a valid checksum, its time to live reduced by the number of hops
  modulo 256.
\<close>

theorem loop_never_ends:
  assumes "resting topo N" and "routing_loop topo (net_nodes N) (ntohl (daddr h)) hs" and "hd hs = (j, k, x)"
    and "summed h" and "protocol h \<noteq> RIP_PROTO"
    and "20 + length d \<le> MAXBUFF" and "tot_len h = htons (of_nat (20 + length d))"
  shows "\<exists>N' h'. resting topo N' \<and> alike N N'
    \<and> (net_step S topo)\<^sup>*\<^sup>* (loaded j (carrier k h d) N) (loaded j (carrier k h' d) N')
    \<and> summed h' \<and> daddr h' = daddr h \<and> ttl h' = ttl h - of_nat (r * length hs)"
proof -
  from loop_unrolled [OF assms(2), of r] assms(3) obtain ys where ys: "concat (replicate r hs) @ [hd hs] = (j, k, x) # ys"
    "length ys = r * length hs" "relays topo (net_nodes N) (ntohl (daddr h)) ((j, k, x) # ys)" by auto
  have "last ((j, k, x) # ys) = (j, k, x)" using assms(3) unfolding ys(1) [symmetric] by simp
  with relay [OF assms(1) ys(3) assms(4-7), of S] ys(2) obtain N' where
    "resting topo N'" "alike N N'" "(net_step S topo)\<^sup>*\<^sup>* (loaded j (carrier k h d) N)
      (loaded j (carrier k ((forwarded_header ^^ (r * length hs)) h) d) N')" by auto
  then show ?thesis
    by (intro exI [of _ N'] exI [of _ "(forwarded_header ^^ (r * length hs)) h"]) (simp add: forwarded_pow assms(4) del: of_nat_mult)
qed

section \<open>The sample network\<close>

text \<open>Node A sends two bytes to the far address of node B.\<close>

definition AB_sends :: sends where
  "AB_sends = {(0, htonl 0x0A000009, 17, [72, 105])}"

lemma AB_rest:
  "\<exists>N. net_run S AB_topo N \<and> resting AB_topo N \<and> (\<forall>n \<in> set (net_nodes N). list_all isup (interfaces n))"
proof -
  have i: "interfaces B_start = B_ifs" "outgoingqueue B_start = []" "timerQueue B_start = []" "timerQueue A_start = []"
    by (simp_all add: B_start_def A_start_def A_node_def node_of_def)
  have idle: "list_all idle_link A_ifs" "list_all idle_link B_ifs" "list_all isup A_ifs" "list_all isup B_ifs"
    by (simp_all add: idle_link_def sample_defs)
  have "draining AB_topo AB_start"
    using i idle by (auto simp: draining_def AB_start_def AB_topo_def less_Suc_eq)
  moreover have "\<forall>n \<in> set (net_nodes AB_start). list_all isup (interfaces n)"
    using i(1) idle(3,4) by (simp add: AB_start_def)
  ultimately show ?thesis using drain_up [OF AB_reachable] by blast
qed

lemma AB_path: "path AB_topo 0 0x0A000009 1" "\<forall>c'. path AB_topo 0 0x0A000009 c' \<longrightarrow> 1 \<le> c'"
proof -
  have "path AB_topo 1 0x0A000009 0" by (rule path_own) (simp_all add: AB_links)
  then show "path AB_topo 0 0x0A000009 1"
    using path_hop [of 0 AB_topo "0x0A000001" 1 "0x0A000009" 0] AB_faces by (simp add: AB_links)
  show "\<forall>c'. path AB_topo 0 0x0A000009 c' \<longrightarrow> 1 \<le> c'"
  proof (intro allI impI)
    fix c' assume "path AB_topo 0 0x0A000009 c'"
    then show "1 \<le> c'" by cases (simp_all add: AB_links)
  qed
qed

lemma AB_premises:
  "\<forall>hs \<in> set [[(0, 0, 1, 0), (1, 0, 0, 0)]]. complete_round AB_topo hs"
  "(0, htonl 0x0A000009, 17, [72, 105]) \<in> AB_sends" "17 \<noteq> RIP_PROTO" "length [72, 105 :: byte] \<le> 1004"
  "0 \<notin> set [72, 105 :: byte]" "path AB_topo 0 (ntohl (htonl 0x0A000009)) 1"
  "\<forall>c'. path AB_topo 0 (ntohl (htonl 0x0A000009)) c' \<longrightarrow> 1 \<le> c'"
  "(0::nat) < 1" "1 \<le> length [[(0::nat, 0::nat, 1::nat, 0::nat), (1, 0, 0, 0)]]" "(1::nat) \<le> 16"
  using AB_round AB_path by (simp_all add: AB_sends_def RIP_PROTO_def)

text \<open>The line that node B prints.\<close>

definition AB_line :: "int \<Rightarrow> u32 \<Rightarrow> console_line" where
  "AB_line iid src = Received_Packet iid src (htonl 0x0A000009) 17 2 [72, 105]"

lemma AB_line_eq:
  "Received_Packet iid src (htonl 0x0A000009) (if (1::nat) = 1 then 17 else 255) (int (length [72, 105 :: byte])) [72, 105]
     = AB_line iid src"
  by (simp add: AB_line_def)

theorem rounds_then_delivery_witness:
  "\<exists>N N1 N2 k j m t h iid s. net_run AB_sends AB_topo N \<and> (net_step AB_sends AB_topo)\<^sup>*\<^sup>* N N1
    \<and> carried AB_sends AB_topo [(0, k, t, m)] h [72, 105] N1 N2 \<and> t < length AB_topo
    \<and> console (net_nodes N2 ! t) = console (net_nodes N1 ! t) @ [AB_line iid (htonl s)]"
proof -
  obtain N where N: "net_run AB_sends AB_topo N" "resting AB_topo N"
    "\<forall>n \<in> set (net_nodes N). list_all isup (interfaces n)" using AB_rest by blast
  from rounds_then_delivery [OF AB_well_wired N AB_premises, of "\<lambda>_ _. at_sec 115"] obtain N1 N2 k x hs j m t y h iid s where
    w: "(net_step AB_sends AB_topo)\<^sup>*\<^sup>* N N1" "length ((0, k, x) # hs) = 1" "last ((0, k, x) # hs) = (j, m, t, y)"
    "carried AB_sends AB_topo ((0, k, x) # hs) h [72, 105] N1 N2" "t < length AB_topo"
    "console (net_nodes N2 ! t) = console (net_nodes N1 ! t) @ [AB_line iid (htonl s)]"
    unfolding AB_line_eq by blast
  from w(2,3) have "hs = []" "x = (t, y)" by auto
  with w N(1) show ?thesis by blast
qed

lemma AB_delivered:
  "\<exists>N t iid s. net_run AB_sends AB_topo N \<and> t < length AB_topo \<and> AB_line iid s \<in> set (console (net_nodes N ! t))"
proof -
  obtain N where N: "net_run AB_sends AB_topo N" "resting AB_topo N"
    "\<forall>n \<in> set (net_nodes N). list_all isup (interfaces n)" using AB_rest by blast
  from rounds_deliver [OF AB_well_wired N AB_premises, of "\<lambda>_ _. at_sec 115"] obtain N1 N2 t iid s where
    "(net_step AB_sends AB_topo)\<^sup>*\<^sup>* N N1" "(net_step AB_sends AB_topo)\<^sup>*\<^sup>* N1 N2" "t < length AB_topo"
    "console (net_nodes N2 ! t) = console (net_nodes N1 ! t) @ [AB_line iid (htonl s)]"
    unfolding AB_line_eq by blast
  moreover from this N(1) have "net_run AB_sends AB_topo N2" using net_run_steps by blast
  ultimately show ?thesis by (metis in_set_conv_decomp)
qed

theorem delivered_was_sent_witness:
  "\<exists>N t iid s. net_run AB_sends AB_topo N \<and> t < length AB_topo \<and> AB_line iid s \<in> set (console (net_nodes N ! t))
    \<and> honest_line AB_sends AB_topo (my_addrs (snd (AB_topo ! t))) (AB_line iid s)"
  using AB_delivered delivered_was_sent by blast

text \<open>Tables in which the two nodes send an address to each other.\<close>

definition loop_net :: net where
  "loop_net = \<lparr>net_nodes = [node_of A_ifs [(0x0A000063, route 0x0A000063 2 0x0A000001 100)],
     node_of B_ifs [(0x0A000063, route 0x0A000063 3 0x0A00000E 100)]], net_sent = []\<rparr>"

lemma loop_net_rests: "resting AB_topo loop_net"
  by (auto simp: resting_def loop_net_def AB_links less_2_cases_iff node_of_def quiet_def idle_link_def A_ifs_def B_ifs_def
      link_of_def)

lemma loop_net_loops: "routing_loop AB_topo (net_nodes loop_net) 0x0A000063 [(0, 0, 1, 0), (1, 0, 0, 0)]"
proof -
  have t: "toward (node_of A_ifs [(0x0A000063, route 0x0A000063 2 0x0A000001 100)]) 0x0A000063 = Some 0"
    "toward (node_of B_ifs [(0x0A000063, route 0x0A000063 3 0x0A00000E 100)]) 0x0A000063 = Some 0"
    by (simp_all add: toward_def node_of_def get_next_address_def route_def get_interface_def A_ifs_def B_ifs_def link_of_def)
  have w: "wired AB_topo (0, 0, 1, 0)" "wired AB_topo (1, 0, 0, 0)" using AB_round by (simp_all add: complete_round_def)
  show ?thesis using t w by (simp add: routing_loop_def loop_net_def AB_links del: wired.simps)
qed

theorem loop_never_ends_witness:
  "\<exists>h N' h'. daddr h = htonl 0x0A000063 \<and> ttl h = 16
    \<and> (net_step {} AB_topo)\<^sup>*\<^sup>* (loaded 0 (carrier 0 h [72]) loop_net) (loaded 0 (carrier 0 h' [72]) N')
    \<and> summed h' \<and> ttl h' = 240"
proof -
  let ?h = "filled (fresh_header 0x0A000001 0x0A000063 17 1)"
  have "ntohl (daddr ?h) = 0x0A000063" by simp
  then have l: "routing_loop AB_topo (net_nodes loop_net) (ntohl (daddr ?h)) [(0, 0, 1, 0), (1, 0, 0, 0)]"
    using loop_net_loops by simp
  have h: "summed ?h" "protocol ?h \<noteq> RIP_PROTO" "20 + length [72 :: byte] \<le> MAXBUFF"
    "tot_len ?h = htons (of_nat (20 + length [72 :: byte]))"
    by (simp_all add: RIP_PROTO_def MAXBUFF_def)
  have t: "ttl ?h = 16" by (simp add: filled_def MAX_COST_def)
  from loop_never_ends [OF loop_net_rests l _ h, of 0 0 "(1, 0)" "{}" 16] obtain N' h' where
    w: "(net_step {} AB_topo)\<^sup>*\<^sup>* (loaded 0 (carrier 0 ?h [72]) loop_net) (loaded 0 (carrier 0 h' [72]) N')"
    "summed h'" "ttl h' = ttl ?h - of_nat (16 * length [(0::nat, 0::nat, 1::nat, 0::nat), (1, 0, 0, 0)])" by auto
  have "ttl h' = 240" using w(3) t by simp
  with w(1,2) t show ?thesis by (intro exI [of _ ?h] exI [of _ N'] exI [of _ h']) simp
qed

end
