(* ===== verification/C_Lib.thy ===== *)
theory C_Lib
  imports Net_Types
begin

text \<open>
  The parts of the C library that the text interfaces of the program use: strings that end with a NUL,
  the conversions of \<open>scanf\<close> that occur in the sources, and the IPv4 text form of \<open>inet_pton\<close> and
  \<open>inet_ntop\<close>.  Texts are lists of characters; the memory of a string is its characters and what follows.
\<close>

section \<open>Strings in memory\<close>

definition NUL :: char where "NUL = CHR 0x00"

definition LINE_MAX :: nat where "LINE_MAX = 2048"

definition cstr :: "string \<Rightarrow> fault + string" where
  "cstr mem = (if NUL \<in> set mem then Inr (takeWhile (\<lambda>c. c \<noteq> NUL) mem) else Inl Indeterminate)"

lemma cstr_terminated [simp]: "NUL \<notin> set s \<Longrightarrow> cstr (s @ NUL # rest) = Inr s"
  by (simp add: cstr_def takeWhile_append)

section \<open>scanf\<close>

definition ch_code :: "char \<Rightarrow> nat" where "ch_code c = of_char c"

definition is_space :: "char \<Rightarrow> bool" where
  "is_space c \<longleftrightarrow> ch_code c = 32 \<or> 9 \<le> ch_code c \<and> ch_code c \<le> 13"

definition is_digit :: "char \<Rightarrow> bool" where
  "is_digit c \<longleftrightarrow> 48 \<le> ch_code c \<and> ch_code c \<le> 57"

text \<open>A literal of the format; \<open>%s\<close>; \<open>%d\<close> and \<open>%u\<close>, which read an optional sign and decimal digits.\<close>

definition scan_lit :: "string \<Rightarrow> string \<Rightarrow> string option" where
  "scan_lit lit s = (if take (length lit) s = lit then Some (drop (length lit) s) else None)"

definition scan_word :: "string \<Rightarrow> (string \<times> string) option" where
  "scan_word s =
     (let s = dropWhile is_space s; w = takeWhile (\<lambda>c. \<not> is_space c) s
      in if w = [] then None else Some (w, drop (length w) s))"

definition digits_value :: "string \<Rightarrow> nat" where
  "digits_value ds = foldl (\<lambda>v c. 10 * v + (ch_code c - 48)) 0 ds"

definition scan_digits :: "string \<Rightarrow> (nat \<times> string) option" where
  "scan_digits s =
     (let ds = takeWhile is_digit s
      in if ds = [] then None else Some (digits_value ds, drop (length ds) s))"

definition scan_int :: "string \<Rightarrow> (int \<times> string) option" where
  "scan_int s =
     (case dropWhile is_space s of
        [] \<Rightarrow> None
      | c # r \<Rightarrow>
          if c = CHR ''-'' then map_option (\<lambda>(v, r). (- int v, r)) (scan_digits r)
          else if c = CHR ''+'' then map_option (\<lambda>(v, r). (int v, r)) (scan_digits r)
          else map_option (\<lambda>(v, r). (int v, r)) (scan_digits (c # r)))"

text \<open>Storing the value in an unsigned object of \<open>w\<close> bits is defined only when it fits.\<close>

definition to_unsigned :: "nat \<Rightarrow> int \<Rightarrow> fault + nat" where
  "to_unsigned w v = (if 0 \<le> v \<and> v < 2 ^ w then Inr (nat v) else Inl Indeterminate)"

text \<open>Storing a word with its NUL in a \<open>char\<close> array of \<open>cap\<close> elements.\<close>

definition fits :: "nat \<Rightarrow> string \<Rightarrow> fault + string" where
  "fits cap w = (if length w < cap then Inr w else Inl Out_Of_Bounds)"

section \<open>IPv4 addresses as text\<close>

definition digit_char :: "nat \<Rightarrow> char" where "digit_char d = char_of (48 + d)"

fun decimal :: "nat \<Rightarrow> string" where
  "decimal n = (if n < 10 then [digit_char n] else decimal (n div 10) @ [digit_char (n mod 10)])"

declare decimal.simps [simp del]

text \<open>An octet: one to three digits, no leading zero, at most 255.\<close>

definition scan_octet :: "string \<Rightarrow> (byte \<times> string) option" where
  "scan_octet s =
     (let ds = takeWhile is_digit s
      in if ds = [] \<or> 3 < length ds \<or> (1 < length ds \<and> hd ds = CHR ''0'') \<or> 255 < digits_value ds
         then None else Some (of_nat (digits_value ds), drop (length ds) s))"

fun scan_octets :: "nat \<Rightarrow> string \<Rightarrow> (byte list \<times> string) option" where
  "scan_octets 0 s = map_option (\<lambda>(b, r). ([b], r)) (scan_octet s)"
| "scan_octets (Suc n) s =
     (case scan_octet s of
        Some (b, CHR ''.'' # r) \<Rightarrow> map_option (\<lambda>(bs, r). (b # bs, r)) (scan_octets n r)
      | _ \<Rightarrow> None)"

text \<open>\<open>inet_pton(AF_INET, s, dst)\<close>: the four bytes stored at \<open>dst\<close>, as the program reads them in \<open>s_addr\<close>.\<close>

definition inet_pton :: "string \<Rightarrow> u32 option" where
  "inet_pton s =
     (case scan_octets 3 s of
        Some ([a, b, c, d], []) \<Rightarrow> Some (word32 a b c d)
      | _ \<Rightarrow> None)"

definition inet_ntop :: "u32 \<Rightarrow> string" where
  "inet_ntop w =
     (case map (\<lambda>b. decimal (unat b)) (bytes32 w) of
        [a, b, c, d] \<Rightarrow> a @ ''.'' @ b @ ''.'' @ c @ ''.'' @ d
      | _ \<Rightarrow> [])"

definition INET_ADDRSTRLEN :: nat where "INET_ADDRSTRLEN = 16"

section \<open>Properties\<close>

lemma ch_code_digit: "d < 10 \<Longrightarrow> ch_code (digit_char d) = 48 + d"
  by (simp add: ch_code_def digit_char_def)

lemma digit_chars:
  "digit_char 0 = CHR ''0''" "digit_char (Suc 0) = CHR ''1''" "digit_char 1 = CHR ''1''" "digit_char 2 = CHR ''2''"
  "digit_char 3 = CHR ''3''" "digit_char 4 = CHR ''4''" "digit_char 5 = CHR ''5''" "digit_char 6 = CHR ''6''"
  "digit_char 7 = CHR ''7''" "digit_char 8 = CHR ''8''" "digit_char 9 = CHR ''9''"
  by code_simp+

lemma digits_value_append: "digits_value (xs @ [c]) = 10 * digits_value xs + (ch_code c - 48)"
  by (simp add: digits_value_def)

lemma digits_value_decimal: "digits_value (decimal n) = n"
proof (induction n rule: decimal.induct)
  case (1 n)
  then show ?case
    by (subst decimal.simps) (auto simp: digits_value_append ch_code_digit, simp add: digits_value_def ch_code_digit)
qed

lemma decimal_digits: "c \<in> set (decimal n) \<Longrightarrow> is_digit c"
proof (induction n rule: decimal.induct)
  case (1 n)
  from "1.prems" show ?case
    by (subst (asm) decimal.simps)
      (auto simp: is_digit_def ch_code_digit split: if_splits dest: "1.IH" [unfolded is_digit_def])
qed

lemma decimal_not_Nil [simp]: "decimal n \<noteq> []"
  by (subst decimal.simps) simp

lemma decimal_hd: "10 \<le> n \<Longrightarrow> ch_code (hd (decimal n)) \<noteq> 48"
proof (induction n rule: decimal.induct)
  case (1 n)
  then have e: "decimal n = decimal (n div 10) @ [digit_char (n mod 10)]" by (subst decimal.simps) simp
  show ?case
  proof (cases "n div 10 < 10")
    case True
    then have "decimal (n div 10) = [digit_char (n div 10)]" by (subst decimal.simps) simp
    with True "1.prems" show ?thesis by (simp add: e ch_code_digit)
  next
    case False
    with "1.IH" "1.prems" show ?thesis by (simp add: e)
  qed
qed

lemma decimal_length:
  assumes "n < 256"
  shows "length (decimal n) \<le> 3 \<and> (1 < length (decimal n) \<longrightarrow> 10 \<le> n)"
proof -
  have one: "m < 10 \<Longrightarrow> length (decimal m) = 1" for m by (subst decimal.simps) simp
  have more: "10 \<le> m \<Longrightarrow> length (decimal m) = length (decimal (m div 10)) + 1" for m by (subst decimal.simps) simp
  consider "n < 10" | "10 \<le> n" "n < 100" | "100 \<le> n" "n div 10 < 100" using assms by linarith
  then show ?thesis
    by cases (simp_all add: one more [of n] more [of "n div 10"])
qed

lemma takeWhile_digits:
  assumes "r = [] \<or> \<not> is_digit (hd r)"
  shows "takeWhile is_digit (decimal n @ r) = decimal n"
proof -
  have "takeWhile is_digit (decimal n @ r) = decimal n @ takeWhile is_digit r"
    using decimal_digits by (intro takeWhile_append2) blast
  also have "takeWhile is_digit r = []" using assms by (cases r) auto
  finally show ?thesis by simp
qed

lemma scan_octet_decimal:
  fixes b :: byte
  assumes "r = [] \<or> \<not> is_digit (hd r)"
  shows "scan_octet (decimal (unat b) @ r) = Some (b, r)"
proof -
  have n: "unat b < 256" using unsigned_less [of b, where 'a = nat] by simp
  have z: "1 < length (decimal (unat b)) \<Longrightarrow> hd (decimal (unat b)) \<noteq> CHR ''0''"
    using decimal_length [OF n] decimal_hd [of "unat b"] by (auto simp: ch_code_def)
  show ?thesis
    unfolding scan_octet_def takeWhile_digits [OF assms] Let_def digits_value_decimal
    using decimal_length [OF n] n z by auto
qed

lemma dot_not_digit [simp]: "\<not> is_digit CHR ''.''"
  by (simp add: is_digit_def ch_code_def)

text \<open>The text of an address is read back as the same address, and fits the program's buffers.\<close>

lemma inet_pton_ntop: "inet_pton (inet_ntop w) = Some w"
proof -
  obtain a b c d where w: "w = word32 a b c d" by (metis word32_bytes32)
  show ?thesis
    by (simp add: w inet_ntop_def inet_pton_def numeral_3_eq_3 scan_octet_decimal
        scan_octet_decimal [of "[]", simplified])
qed

lemma digit_not_space: "is_digit c \<Longrightarrow> \<not> is_space c"
  by (auto simp: is_digit_def is_space_def)

lemma chars [simp]: "is_space CHR '' ''" "\<not> is_space CHR ''.''" "\<not> is_digit CHR '' ''" "\<not> is_digit CHR ''-''" "\<not> is_digit CHR ''+''"
  by (simp_all add: is_space_def is_digit_def ch_code_def)

lemma inet_ntop_chars: "c \<in> set (inet_ntop w) \<Longrightarrow> \<not> is_space c \<and> c \<noteq> NUL"
proof -
  have d: "\<not> is_digit NUL" "CHR ''.'' \<noteq> NUL" by (simp_all add: NUL_def is_digit_def ch_code_def)
  have "\<not> is_space c \<and> c \<noteq> NUL" if "c \<in> set (decimal n)" for n
    using decimal_digits [OF that] digit_not_space d(1) by auto
  moreover assume "c \<in> set (inet_ntop w)"
  ultimately show ?thesis using d(2) by (auto simp: inet_ntop_def split: list.splits)
qed

lemma inet_ntop_length: "length (inet_ntop w) < INET_ADDRSTRLEN" and inet_ntop_not_Nil: "inet_ntop w \<noteq> []"
proof -
  obtain a b c d where w: "w = word32 a b c d" by (metis word32_bytes32)
  have l: "length (decimal (unat x)) \<le> 3" for x :: byte
    using decimal_length [of "unat x"] unsigned_less [of x, where 'a = nat] by simp
  show "length (inet_ntop w) < INET_ADDRSTRLEN"
    using l [of a] l [of b] l [of c] l [of d] by (simp add: w inet_ntop_def INET_ADDRSTRLEN_def)
  show "inet_ntop w \<noteq> []" by (simp add: w inet_ntop_def)
qed

lemma scan_word_at:
  assumes "w \<noteq> []" and "\<forall>c \<in> set w. \<not> is_space c" and "r = [] \<or> is_space (hd r)"
  shows "scan_word (w @ r) = Some (w, r)"
proof -
  have "dropWhile is_space (w @ r) = w @ r" using assms(1,2) by (cases w) auto
  moreover have "takeWhile (\<lambda>c. \<not> is_space c) (w @ r) = w"
    using assms(2,3) by (cases r) (auto simp: takeWhile_append)
  ultimately show ?thesis using assms(1) by (simp add: scan_word_def)
qed

lemma scan_word_space: "is_space c \<Longrightarrow> scan_word (c # s) = scan_word s"
  by (simp add: scan_word_def)

lemma scan_int_decimal:
  assumes "r = [] \<or> \<not> is_digit (hd r)"
  shows "scan_int ('' '' @ decimal p @ r) = Some (int p, r)"
proof -
  obtain c ds where d: "decimal p = c # ds" by (metis decimal_not_Nil neq_Nil_conv)
  then have c: "is_digit c" using decimal_digits [of c p] by simp
  then have n: "\<not> is_space c" "c \<noteq> CHR ''-''" "c \<noteq> CHR ''+''" using digit_not_space by auto
  have "scan_digits (decimal p @ r) = Some (p, r)"
    unfolding scan_digits_def takeWhile_digits [OF assms] Let_def digits_value_decimal by simp
  then show ?thesis using n by (simp add: scan_int_def d)
qed

lemma scan_word_shorter:
  assumes "scan_word s = Some (w, r)"
  shows "length r < length s"
proof -
  let ?d = "dropWhile is_space s"
  have w: "0 < length w" "length w \<le> length ?d" "length r = length ?d - length w"
    using assms by (auto simp: scan_word_def Let_def length_takeWhile_le split: if_splits)
  have "length ?d \<le> length s" by (rule length_dropWhile_le)
  with w show ?thesis by linarith
qed

lemma scan_int_shorter: "scan_int s = Some (v, r) \<Longrightarrow> length r \<le> length s"
proof -
  assume a: "scan_int s = Some (v, r)"
  have d: "scan_digits t = Some (x, r) \<Longrightarrow> length r \<le> length t" for t x
    by (auto simp: scan_digits_def Let_def split: if_splits)
  from a obtain c t where t: "dropWhile is_space s = c # t" by (auto simp: scan_int_def split: list.splits)
  then have "length (c # t) \<le> length s" using length_dropWhile_le by metis
  with a t show ?thesis by (auto simp: scan_int_def split: if_splits dest!: d)
qed

end
