(* ===== verification/Commands.thy ===== *)
theory Commands
  imports Node_System C_Lib
begin

text \<open>
  The command line: the loop of \<open>main\<close> and the timer signal handler (\<open>src/node.cc\<close>), the dispatcher of
  \<open>src/Node.hh\<close>, and the command handlers with their parsing (\<open>src/NodeImpl.cc\<close>).  The program is built
  with \<open>READLINE\<close>: a line is the text \<open>readline\<close> allocated, followed by one NUL and nothing that belongs to
  the program.  Messages of \<open>dbg\<close> and \<open>printf\<close> are lines of the console.
\<close>

section \<open>Listings\<close>

fun interface_rows :: "nat \<Rightarrow> link list \<Rightarrow> console_line list" where
  "interface_rows ifid [] = []"
| "interface_rows ifid (l # ifcs) =
     (if \<not> isup l then interface_rows ifid ifcs
      else Interface_Row ifid (inet_ntop (htonl (vip_remote l))) (inet_ntop (htonl (vip_local l)))
             # interface_rows (Suc ifid) ifcs)"

definition print_interfaces :: "node \<Rightarrow> node" where
  "print_interfaces n = prints (Interfaces_Header # interface_rows 0 (interfaces n)) n"

definition print_route_table :: "node \<Rightarrow> node" where
  "print_route_table n = prints (Routes_Header #
     map (\<lambda>(k, ets). Route_Row (cost (ent ets)) (inet_ntop (htonl (address (ent ets))))
                        (inet_ntop (htonl (next_hop ets)))) (rtable n)) n"

text \<open>\<open>print_ip\<close>, without the final newline.\<close>

definition print_ip :: "u32 \<Rightarrow> string" where
  "print_ip ip =
     (let b0 = ip AND 0xFF; b1 = drop_bit 8 ip AND 0xFF; b2 = drop_bit 16 ip AND 0xFF; b3 = drop_bit 24 ip AND 0xFF
      in decimal (unat b3) @ ''.'' @ decimal (unat b2) @ ''.'' @ decimal (unat b1) @ ''.'' @ decimal (unat b0))"

section \<open>Command handlers\<close>

definition interfaces_cmd :: "string \<Rightarrow> node \<Rightarrow> fault + node" where
  "interfaces_cmd mem n = bindE (cstr mem) (\<lambda>line.
     Inr (if line \<noteq> ''interfaces'' \<and> line \<noteq> ''li'' then print Incorrect_Command n else print_interfaces n))"

definition routes_cmd :: "string \<Rightarrow> node \<Rightarrow> fault + node" where
  "routes_cmd mem n = bindE (cstr mem) (\<lambda>line.
     Inr (if line \<noteq> ''routes'' \<and> line \<noteq> ''lr'' then print Incorrect_Command n else print_route_table n))"

text \<open>\<open>sscanf(line, "down %u", &interface)\<close>, and the same with \<open>up\<close>.\<close>

definition scan_interface :: "string \<Rightarrow> string \<Rightarrow> fault + nat option" where
  "scan_interface cmd line =
     (case scan_lit cmd line of
        None \<Rightarrow> Inr None
      | Some r \<Rightarrow>
          (case scan_int r of
             None \<Rightarrow> Inr None
           | Some (v, rest) \<Rightarrow> bindE (to_unsigned 32 v) (\<lambda>u. Inr (Some u))))"

definition down_line :: "string \<Rightarrow> node \<Rightarrow> fault + node" where
  "down_line mem n = bindE (cstr mem) (\<lambda>line. bindE (scan_interface ''down'' line) (\<lambda>r.
     case r of None \<Rightarrow> Inr (print Usage_Down n) | Some interface \<Rightarrow> down_cmd interface n))"

text \<open>What the environment answers during a command: \<open>getaddrinfo\<close> with the socket calls, the clock.\<close>

type_synonym env = "attempt list option \<times> timeval"

definition up_line :: "env \<Rightarrow> string \<Rightarrow> node \<Rightarrow> fault + node" where
  "up_line env mem n = bindE (cstr mem) (\<lambda>line. bindE (scan_interface ''up'' line) (\<lambda>r.
     case r of None \<Rightarrow> Inr (print Usage_Up n) | Some interface \<Rightarrow> up_cmd (fst env) (snd env) interface n))"

text \<open>
  \<open>sscanf(line, "send %s %hhu%n", ...)\<close>: the address text, stored in an array of \<open>INET_ADDRSTRLEN\<close>, the
  protocol and the number of characters consumed.
\<close>

definition scan_send :: "string \<Rightarrow> fault + (string \<times> nat \<times> nat) option" where
  "scan_send line =
     (case scan_lit ''send'' line of
        None \<Rightarrow> Inr None
      | Some r1 \<Rightarrow>
          (case scan_word r1 of
             None \<Rightarrow> Inr None
           | Some (w, r2) \<Rightarrow> bindE (fits INET_ADDRSTRLEN w) (\<lambda>ip_string.
               case scan_int r2 of
                 None \<Rightarrow> Inr None
               | Some (v, r3) \<Rightarrow> bindE (to_unsigned 8 v) (\<lambda>proto.
                   Inr (Some (ip_string, proto, length line - length r3))))))"

definition send_cmd :: "string \<Rightarrow> node \<Rightarrow> fault + node" where
  "send_cmd mem n = bindE (cstr mem) (\<lambda>line. bindE (scan_send line) (\<lambda>r.
     case r of
       None \<Rightarrow> Inr (print Usage_Send n)
     | Some (ip_string, proto, num_consumed) \<Rightarrow>
         (case inet_pton ip_string of
            None \<Rightarrow> Inr (print Malformed_Ip n)
          | Some ip_addr \<Rightarrow> bindE (cstr (drop (num_consumed + 1) mem)) (\<lambda>data.
              if length data < 1 then Inr (print Payload_Unspecified n)
              else transfer_application_to_ip ip_addr (of_nat proto) (map of_char data) (length data) n))))"

section \<open>Dispatch\<close>

text \<open>The result carries \<open>append_hist\<close>.\<close>

definition execute_cmd :: "env \<Rightarrow> string \<Rightarrow> string \<Rightarrow> node \<Rightarrow> fault + bool \<times> node" where
  "execute_cmd env cmd mem n =
     (if cmd = ''help'' \<or> cmd = ''h'' then Inr (True, print Help_Text n)
      else if cmd = ''interfaces'' \<or> cmd = ''li'' then bindE (interfaces_cmd mem n) (\<lambda>n. Inr (True, n))
      else if cmd = ''routes'' \<or> cmd = ''lr'' then bindE (routes_cmd mem n) (\<lambda>n. Inr (True, n))
      else if cmd = ''up'' then bindE (up_line env mem n) (\<lambda>n. Inr (True, n))
      else if cmd = ''down'' then bindE (down_line mem n) (\<lambda>n. Inr (True, n))
      else if cmd = ''send'' then bindE (send_cmd mem n) (\<lambda>n. Inr (True, n))
      else Inr (False, print Help_Text (print No_Valid_Command n)))"

text \<open>The loop of \<open>main\<close> over the lines typed; the second result is the history.\<close>

fun main_loop :: "(nat \<Rightarrow> env) \<Rightarrow> nat \<Rightarrow> string list \<Rightarrow> node \<Rightarrow> string list \<Rightarrow> fault + node \<times> string list" where
  "main_loop env t [] n hist = Inr (n, hist)"
| "main_loop env t (line # lines) n hist =
     (case scan_word line of
        None \<Rightarrow> main_loop env (Suc t) lines n hist
      | Some (w, r) \<Rightarrow> bindE (fits LINE_MAX w) (\<lambda>cmd.
          if cmd = ''q'' then Inr (n, hist)
          else bindE (execute_cmd (env t) cmd (line @ [NUL]) n) (\<lambda>(append_hist, n').
            main_loop env (Suc t) lines n' (if append_hist then hist @ [line] else hist))))"

text \<open>\<open>timerHandler\<close>: the timer that fired and the two timers of the program.\<close>

definition timerHandler :: "'t \<Rightarrow> 't \<Rightarrow> 't \<Rightarrow> node \<Rightarrow> node" where
  "timerHandler tid rip_update_timer rip_refresh_timer n =
     (if tid = rip_update_timer then n\<lparr>timerQueue := timerQueue n @ [UPDATE_TIMER_ID]\<rparr>
      else if tid = rip_refresh_timer then n\<lparr>timerQueue := timerQueue n @ [REFRESH_TIMER_ID]\<rparr>
      else print Invalid_Timer n)"

section \<open>Parsing\<close>

text \<open>The line \<open>send\<close> with an address as the program prints it, a protocol number and a payload.\<close>

definition send_text :: "u32 \<Rightarrow> nat \<Rightarrow> string" where
  "send_text a p = ''send '' @ inet_ntop a @ '' '' @ decimal p"

lemma scan_send_text:
  assumes "p < 256" and "r = [] \<or> \<not> is_digit (hd r)"
  shows "scan_send (send_text a p @ r) = Inr (Some (inet_ntop a, p, length (send_text a p)))"
proof -
  have "scan_word ('' '' @ inet_ntop a @ '' '' @ decimal p @ r) = Some (inet_ntop a, '' '' @ decimal p @ r)"
    using scan_word_at [OF inet_ntop_not_Nil, of a "'' '' @ decimal p @ r"] inet_ntop_chars [of _ a]
    by (simp add: scan_word_space)
  moreover have "scan_lit ''send'' (send_text a p @ r) = Some ('' '' @ inet_ntop a @ '' '' @ decimal p @ r)"
    by (simp add: scan_lit_def send_text_def)
  ultimately show ?thesis
    using assms(1) inet_ntop_length [of a] scan_int_decimal [OF assms(2), of p]
    by (simp add: scan_send_def fits_def to_unsigned_def send_text_def)
qed

lemma send_text_no_NUL: "NUL \<notin> set (send_text a p)"
proof -
  have "\<not> is_digit NUL" by (simp add: NUL_def is_digit_def ch_code_def)
  then show ?thesis using inet_ntop_chars [of NUL a] decimal_digits [of NUL p]
    by (auto simp: send_text_def) (auto simp: NUL_def)
qed

section \<open>Commands keep the invariant of the node\<close>

lemma keeps_refl: "node_inv n \<Longrightarrow> keeps n n"
  by (simp add: keeps_def)

lemma keeps_print [simp]: "keeps n (print x n') = keeps n n'"
  by (simp add: keeps_def statics_def)

lemma keeps_prints [simp]: "keeps n (prints xs n') = keeps n n'"
  by (simp add: keeps_def statics_def node_inv_def prints_def)

lemma cstr_wp [wp]: "(\<And>s. cstr mem = Inr s \<Longrightarrow> Q s) \<Longrightarrow> wpE (cstr mem) Q"
  by (simp add: cstr_def)

lemma scan_interface_wp [wp]: "(\<And>x. Q x) \<Longrightarrow> wpE (scan_interface cmd line) Q"
  by (auto simp: scan_interface_def to_unsigned_def split: option.splits)

lemma scan_send_wp [wp]: "(\<And>x. Q x) \<Longrightarrow> wpE (scan_send line) Q"
  by (auto simp: scan_send_def to_unsigned_def fits_def split: option.splits)

lemma line_wp:
  assumes "node_inv n"
  shows "wpE (interfaces_cmd mem n) (keeps n)" and "wpE (routes_cmd mem n) (keeps n)"
    and "wpE (down_line mem n) (keeps n)" and "wpE (up_line env mem n) (keeps n)"
    and "wpE (send_cmd mem n) (keeps n)"
proof -
  show "wpE (interfaces_cmd mem n) (keeps n)" "wpE (routes_cmd mem n) (keeps n)"
    unfolding interfaces_cmd_def routes_cmd_def wpE_bindE
    by (rule cstr_wp, simp add: print_interfaces_def print_route_table_def keeps_refl assms)+
  show "wpE (down_line mem n) (keeps n)" "wpE (up_line env mem n) (keeps n)"
    unfolding down_line_def up_line_def wpE_bindE
    by (rule cstr_wp, rule scan_interface_wp, auto simp: keeps_refl assms down_cmd_wp up_cmd_wp split: option.split)+
  have t: "wpE (transfer_application_to_ip dest proto data sz n) (keeps n)" for dest proto data sz
    by (rule wpE_keeps) (rule transfer_application_to_ip_wp [OF assms])
  show "wpE (send_cmd mem n) (keeps n)"
    unfolding send_cmd_def wpE_bindE
    by (rule cstr_wp, rule scan_send_wp)
      (auto simp: keeps_refl assms t split: option.split intro!: cstr_wp)
qed

lemma execute_cmd_wp:
  assumes "node_inv n"
  shows "wpE (execute_cmd env cmd mem n) (\<lambda>(h, n'). keeps n n')"
  unfolding execute_cmd_def using line_wp [OF assms] keeps_refl [OF assms] by simp

lemma main_loop_wp: "node_inv n \<Longrightarrow> wpE (main_loop env t lines n hist) (\<lambda>(n', h). keeps n n')"
proof (induction lines arbitrary: t n hist)
  case (Cons line lines)
  show ?case
  proof (cases "scan_word line")
    case None
    with Cons show ?thesis by simp
  next
    case (Some wr)
    obtain w r where wr: "wr = (w, r)" by (cases wr)
    have "wpE (execute_cmd (env t) w (line @ [NUL]) n) (\<lambda>(append_hist, n').
        wpE (main_loop env (Suc t) lines n' (if append_hist then hist @ [line] else hist)) (\<lambda>(n', h). keeps n n'))"
    proof (rule wpE_mono [OF execute_cmd_wp [OF Cons.prems]], clarify)
      fix b n1 assume k: "keeps n n1"
      then have "node_inv n1" by (simp add: keeps_def)
      from Cons.IH [OF this] show "wpE (main_loop env (Suc t) lines n1 (if b then hist @ [line] else hist)) (\<lambda>(n', h). keeps n n')"
        by (rule wpE_mono) (use k in \<open>auto intro: keeps_trans\<close>)
    qed
    then have "wpE (bindE (execute_cmd (env t) w (line @ [NUL]) n) (\<lambda>(append_hist, n').
        main_loop env (Suc t) lines n' (if append_hist then hist @ [line] else hist))) (\<lambda>(n', h). keeps n n')"
      unfolding wpE_bindE by (rule wpE_mono) auto
    then show ?thesis
      using Some wr Cons.prems by (simp add: fits_def keeps_refl del: wpE_bindE)
  qed
qed (simp add: keeps_refl)

section \<open>The numbering of the listing\<close>

lemma interface_rows_filter:
  "interface_rows k ifs = map (\<lambda>(i, l). Interface_Row i (inet_ntop (htonl (vip_remote l))) (inet_ntop (htonl (vip_local l))))
     (zip [k..<k + length (filter isup ifs)] (filter isup ifs))"
proof (induction ifs arbitrary: k)
  case (Cons l ifs)
  show ?case
  proof (cases "isup l")
    case True
    then have "[k..<k + length (filter isup (l # ifs))] = k # [Suc k..<Suc k + length (filter isup ifs)]"
      by (simp add: upt_conv_Cons del: upt_Suc)
    with True Cons.IH [of "Suc k"] show ?thesis by simp
  qed (simp add: Cons.IH)
qed simp

lemma filter_up_ids: "filter isup ifs = map ((!) ifs) (up_ids ifs)"
proof -
  have "filter isup ifs = filter isup (map ((!) ifs) [0..<length ifs])" by (simp add: map_nth)
  then show ?thesis by (simp add: filter_map up_ids_def o_def)
qed

lemma upt_split: "j < n \<Longrightarrow> [0..<n] = [0..<j] @ j # [Suc j..<n]"
  using upt_add_eq_append [of 0 j "n - j"] by (simp add: upt_conv_Cons)

lemma nth_filter_upt:
  assumes "j < length (filter P [0..<n])"
  shows "filter P [0..<n] ! j = j \<longleftrightarrow> (\<forall>k < j. P k) \<and> P j"
proof
  assume e: "filter P [0..<n] ! j = j"
  then have j: "j < n" "P j" using nth_mem [OF assms] by auto
  then have s: "[0..<n] = [0..<j] @ j # [Suc j..<n]"
    by (intro upt_split) simp
  let ?i = "length (filter P [0..<j])"
  have "filter P [0..<n] ! ?i = j" unfolding s using j(2) by (simp add: nth_append)
  moreover have "?i < length (filter P [0..<n])" unfolding s using j(2) by simp
  ultimately have "?i = j" using e assms by (metis distinct_filter distinct_upt nth_eq_iff_index_eq)
  then have "length (filter P [0..<j]) = length [0..<j]" by simp
  then have "\<forall>x \<in> set [0..<j]. P x" by (metis length_filter_less less_irrefl)
  then show "(\<forall>k < j. P k) \<and> P j" using j(2) by simp
next
  assume a: "(\<forall>k < j. P k) \<and> P j"
  have "j < n" using assms length_filter_le [of P "[0..<n]"] by simp
  then have s: "[0..<n] = [0..<j] @ j # [Suc j..<n]"
    by (intro upt_split) simp
  have "filter P [0..<j] = [0..<j]" using a by (simp add: filter_id_conv)
  then show "filter P [0..<n] ! j = j" unfolding s using a by (simp add: nth_append)
qed

section \<open>Properties\<close>

text \<open>
  An address printed in a listing can be typed back.  \<open>send\<close> with the printed address, a protocol
  number and a payload hands exactly that address, number and payload to the network layer; without a
  payload the code reads behind the end of the line instead of reporting the missing payload.
\<close>

theorem send_printed_address:
  assumes "p < 256" and "payload \<noteq> []" and "NUL \<notin> set payload"
  shows "send_cmd (send_text a p @ '' '' @ payload @ [NUL]) n
      = transfer_application_to_ip a (of_nat p) (map of_char payload) (length payload) n
    \<and> send_cmd (send_text a p @ [NUL]) n = Inl Indeterminate"
proof
  have u: "NUL \<notin> set (send_text a p @ '' '' @ payload)"
    using send_text_no_NUL assms(3) by (auto simp: NUL_def)
  have s: "scan_send (send_text a p @ '' '' @ payload) = Inr (Some (inet_ntop a, p, length (send_text a p)))"
    by (rule scan_send_text [OF assms(1)]) simp
  have d: "drop (length (send_text a p) + 1) (send_text a p @ '' '' @ payload @ [NUL]) = payload @ [NUL]" by simp
  from cstr_terminated [OF u, of "[]"] s d cstr_terminated [OF assms(3), of "[]"] assms(2)
  show "send_cmd (send_text a p @ '' '' @ payload @ [NUL]) n
      = transfer_application_to_ip a (of_nat p) (map of_char payload) (length payload) n"
    by (simp add: send_cmd_def inet_pton_ntop Suc_le_eq)
  have "scan_send (send_text a p) = Inr (Some (inet_ntop a, p, length (send_text a p)))"
    using scan_send_text [OF assms(1), of "[]" a] by simp
  with cstr_terminated [OF send_text_no_NUL, of a p "[]"]
  show "send_cmd (send_text a p @ [NUL]) n = Inl Indeterminate"
    by (simp add: send_cmd_def inet_pton_ntop cstr_def)
qed

definition sample_line :: string where
  "sample_line = ''send 10.0.0.10 17 hi''"

theorem send_printed_address_witness:
  "send_cmd (sample_line @ [NUL]) B_node = transfer_application_to_ip 0x0A00000A 17 [104, 105] 2 B_node
   \<and> send_cmd (''send 10.0.0.10 17'' @ [NUL]) B_node = Inl Indeterminate"
proof -
  have d: "decimal 10 = ''10''" "decimal 17 = ''17''" "decimal 0 = ''0''"
    by (simp_all add: decimal.simps digit_chars)
  have a: "inet_ntop 0x0A00000A = ''10.0.0.10''"
    by (simp add: inet_ntop_def bytes32_def d)
  have t: "send_text 0x0A00000A 17 = ''send 10.0.0.10 17''" by (simp add: send_text_def a d)
  have h: "(17::nat) < 256" "''hi'' \<noteq> []" "NUL \<notin> set ''hi''" by (simp_all add: NUL_def)
  from send_printed_address [OF h, of "0x0A00000A" B_node] show ?thesis
    by (simp add: t sample_line_def numeral_2_eq_2)
qed

text \<open>
  \<open>interfaces\<close> numbers its rows 0, 1, 2, ..., one row for each interface that is up.  A row's
  number is the index that \<open>up\<close> and \<open>down\<close> expect exactly when every interface before it is up too.
\<close>

theorem listing_numbers:
  "(let ids = up_ids (interfaces n) in
      print_interfaces n = prints (Interfaces_Header # map (\<lambda>(j, i).
          Interface_Row j (inet_ntop (htonl (vip_remote (interfaces n ! i))))
            (inet_ntop (htonl (vip_local (interfaces n ! i))))) (zip [0..<length ids] ids)) n
      \<and> (\<forall>j < length ids. ids ! j = j \<longleftrightarrow> (\<forall>k \<le> j. isup (interfaces n ! k))))"
proof -
  let ?ids = "up_ids (interfaces n)"
  have "interface_rows 0 (interfaces n) = map (\<lambda>(j, i).
          Interface_Row j (inet_ntop (htonl (vip_remote (interfaces n ! i))))
            (inet_ntop (htonl (vip_local (interfaces n ! i))))) (zip [0..<length ?ids] ?ids)"
    unfolding interface_rows_filter filter_up_ids by (simp add: zip_map2 split_beta o_def)
  moreover have "?ids ! j = j \<longleftrightarrow> (\<forall>k \<le> j. isup (interfaces n ! k))" if "j < length ?ids" for j
    using nth_filter_upt [OF that [unfolded up_ids_def]] by (auto simp: up_ids_def le_less)
  ultimately show ?thesis by (simp add: print_interfaces_def Let_def)
qed

text \<open>With its first interface down, a node lists the second one as number 0.\<close>

theorem listing_numbers_witness:
  "print_interfaces (B_node\<lparr>interfaces := [(B_ifs ! 0)\<lparr>isup := False\<rparr>, B_ifs ! 1]\<rparr>)
     = prints [Interfaces_Header, Interface_Row 0 (inet_ntop (htonl 0x0A00000A)) (inet_ntop (htonl 0x0A000009))]
         (B_node\<lparr>interfaces := [(B_ifs ! 0)\<lparr>isup := False\<rparr>, B_ifs ! 1]\<rparr>)"
proof -
  let ?n = "B_node\<lparr>interfaces := [(B_ifs ! 0)\<lparr>isup := False\<rparr>, B_ifs ! 1]\<rparr>"
  have u: "up_ids (interfaces ?n) = [1]" by (simp add: up_ids_def B_ifs_def link_of_def upt_rec)
  have v: "vip_remote (B_ifs ! Suc 0) = 0x0A00000A" "vip_local (B_ifs ! Suc 0) = 0x0A000009"
    by (simp_all add: B_ifs_def link_of_def)
  from conjunct1 [OF listing_numbers [of ?n, unfolded Let_def u]] show ?thesis
    by (simp only: list.size zip_Cons_Cons upt_rec [of 0] list.map prod.case) (simp add: v)
qed

text \<open>
  Whatever lines are typed at a reachable node, the command loop does not call through a null
  pointer or free a wrong address, and when it ends the invariant of the node holds and its interfaces
  have their addresses and ports.
\<close>

theorem main_loop_safe:
  assumes "reachable ifs n"
  shows "wpE (main_loop env t lines n hist) (\<lambda>(n', hist'). node_inv n' \<and> statics n' = map link_static ifs)"
proof (rule wpE_mono [OF main_loop_wp])
  note k = reachable_keeps [OF assms]
  from k show "node_inv n" ..
  fix x assume "case x of (n', h) \<Rightarrow> keeps n n'"
  with k show "case x of (n', hist') \<Rightarrow> node_inv n' \<and> statics n' = map link_static ifs"
    by (auto simp: keeps_def)
qed

theorem main_loop_safe_witness:
  "wpE (main_loop (\<lambda>_. (None, at_sec 0)) 0 [''li'', ''down 0'', ''q''] A_start [])
     (\<lambda>(n', hist'). node_inv n' \<and> statics n' = map link_static A_ifs)"
  by (rule main_loop_safe) (rule reachable_A)

lemma execute_cmd_cases:
  "execute_cmd env cmd mem n = Inr (b, n') \<Longrightarrow>
     n' = print Help_Text n \<or> n' = print Help_Text (print No_Valid_Command n)
     \<or> interfaces_cmd mem n = Inr n' \<or> routes_cmd mem n = Inr n'
     \<or> up_line env mem n = Inr n' \<or> down_line mem n = Inr n' \<or> send_cmd mem n = Inr n'"
  unfolding execute_cmd_def
  by (split if_split_asm, simp, split if_split_asm, simp add: bindE_Inr_iff,
      split if_split_asm, simp add: bindE_Inr_iff, split if_split_asm, simp add: bindE_Inr_iff,
      split if_split_asm, simp add: bindE_Inr_iff, split if_split_asm, simp add: bindE_Inr_iff, simp)

text \<open>
  A command that returns either only printed something or was one of the command events of the
  node system, so the runs of the system cover everything that can be typed.
\<close>

theorem execute_cmd_is_event:
  assumes "execute_cmd env cmd mem n = Inr (b, n')"
  shows "(\<exists>msgs. n' = prints msgs n)
    \<or> (\<exists>i. node_step (Down_Cmd i) n = Some (Inr n'))
    \<or> (\<exists>i. node_step (Up_Cmd (fst env) (snd env) i) n = Some (Inr n'))
    \<or> (\<exists>dest proto data. node_step (Send_Cmd dest proto data) n = Some (Inr n'))"
proof -
  let ?printed = "\<lambda>n'. \<exists>msgs. n' = prints msgs n"
  have p: "?printed (print x n)" "?printed (print x (print y n))" for x y
    by (intro exI [of _ "[x]"], simp add: print_def prints_def)
      (intro exI [of _ "[y, x]"], simp add: print_def prints_def)
  have i: "interfaces_cmd mem n = Inr n' \<Longrightarrow> ?printed n'" and r: "routes_cmd mem n = Inr n' \<Longrightarrow> ?printed n'"
    using p by (auto simp: interfaces_cmd_def routes_cmd_def print_interfaces_def print_route_table_def split: if_splits)
  have d: "down_line mem n = Inr n' \<Longrightarrow> ?printed n' \<or> (\<exists>i. down_cmd i n = Inr n')"
    using p by (auto simp: down_line_def split: option.splits)
  have u: "up_line env mem n = Inr n' \<Longrightarrow> ?printed n' \<or> (\<exists>i. up_cmd (fst env) (snd env) i n = Inr n')"
    using p by (auto simp: up_line_def split: option.splits)
  have t: "\<exists>dest proto data. transfer_application_to_ip dest proto data (length data) n = Inr n'"
    if "transfer_application_to_ip d q (map of_char s) (length s) n = Inr n'" for d q and s :: string
    using that by (intro exI [of _ d] exI [of _ q] exI [of _ "map of_char s"]) simp
  have s: "?printed n' \<or> (\<exists>dest proto data. transfer_application_to_ip dest proto data (length data) n = Inr n')"
    if "send_cmd mem n = Inr n'"
  proof -
    from that obtain line r where r: "(case r of
         None \<Rightarrow> Inr (print Usage_Send n)
       | Some (ip_string, proto, num_consumed) \<Rightarrow>
           (case inet_pton ip_string of
              None \<Rightarrow> Inr (print Malformed_Ip n)
            | Some ip_addr \<Rightarrow> bindE (cstr (drop (num_consumed + 1) mem)) (\<lambda>data.
                if length data < 1 then Inr (print Payload_Unspecified n)
                else transfer_application_to_ip ip_addr (of_nat proto) (map of_char data) (length data) n))) = Inr n'"
      unfolding send_cmd_def by (elim bindE_InrE)
    show ?thesis
      using r p by (cases r) (auto split: option.splits if_splits simp del: length_map dest!: t)
  qed
  consider "?printed n'" | "interfaces_cmd mem n = Inr n'" | "routes_cmd mem n = Inr n'"
    | "up_line env mem n = Inr n'" | "down_line mem n = Inr n'" | "send_cmd mem n = Inr n'"
    using execute_cmd_cases [OF assms] p by blast
  then show ?thesis
    using i r d u s by cases auto
qed

theorem execute_cmd_is_event_witness:
  "\<exists>n'. execute_cmd (None, at_sec 0) ''help'' (''help'' @ [NUL]) B_node = Inr (True, n') \<and> n' \<noteq> B_node"
proof -
  have e: "execute_cmd (None, at_sec 0) ''help'' (''help'' @ [NUL]) B_node = Inr (True, print Help_Text B_node)"
    by (simp add: execute_cmd_def)
  from execute_cmd_is_event [OF e] have "print Help_Text B_node \<noteq> B_node" by (simp add: print_def B_node_def node_of_def)
  with e show ?thesis by auto
qed

text \<open>
  \<open>up\<close> on an existing interface opens a socket, also when the interface was up already (the old
  descriptor is then neither closed nor kept), marks it up and restores the node's own route for its
  address; no other route changes and, unlike for \<open>down\<close>, no message is sent.
\<close>

theorem up_cmd_restores:
  assumes "node_inv n" and "up_cmd ai now i n = Inr n'"
  shows "i < length (interfaces n) \<and> isup (interfaces n' ! i)
    \<and> (\<exists>fds. create_socket ai = Inr (s_local (interfaces n' ! i), fds))
    \<and> (\<forall>k. map_find (rtable n') k =
         (if k = vip_local (interfaces n ! i) then Some (own_entry now k) else map_find (rtable n) k))
    \<and> incomingqueue n' = incomingqueue n \<and> outgoingqueue n' = outgoingqueue n"
proof -
  from assms(2) obtain fd fds msgs where i: "i < length (interfaces n)" and c: "create_socket ai = Inr (fd, fds)"
    and n': "n' = add_ifc_entry now (vip_local (interfaces n ! i))
      (set_link i ((interfaces n ! i)\<lparr>s_local := fd, isup := True\<rparr>) (prints msgs n))"
    by (auto simp: up_cmd_def interface_at_def link_up_def Let_def split: if_splits prod.splits)
  have "map_invar (rtable n)" using assms(1) by (simp add: node_inv_def rt_inv_def)
  then show ?thesis
    using i c by (auto simp: n' add_ifc_entry_def set_link_def prints_def std_map.lookup_insert)
qed

theorem up_cmd_restores_witness:
  "\<exists>n'. up_cmd (Some [Socket_Fails, Binds 7]) (at_sec 200) 1 B_node = Inr n'
     \<and> map_find (rtable n') 0x0A000009 = Some (own_entry (at_sec 200) 0x0A000009)
     \<and> s_local (interfaces n' ! 1) = 7"
proof -
  have b: "node_inv B_node"
    using rt_inv_B by (simp add: node_inv_def B_node_def node_of_def) (simp add: link_ok_def sample_defs)
  have l: "1 < length (interfaces B_node)" "vip_local (interfaces B_node ! 1) = 0x0A000009"
    by (simp_all add: B_node_def node_of_def B_ifs_def link_of_def)
  then obtain n' where n': "up_cmd (Some [Socket_Fails, Binds 7]) (at_sec 200) 1 B_node = Inr n'"
    by (simp add: up_cmd_def interface_at_def link_up_def create_socket_def Let_def)
  from up_cmd_restores [OF b n'] l n' show ?thesis by (auto simp: create_socket_def)
qed

end
