(* ===== verification/Link_Setup.thy ===== *)
theory Link_Setup
  imports Link_Layer C_Lib
begin

text \<open>
  The constructor of \<open>LinkLayer\<close> (\<open>src/LinkLayer.hh\<close>): the socket of the interface and the address that
  \<open>send_data\<close> sends to.  \<open>getaddrinfo\<close> is an argument, a function of the host and the service text; \<open>None\<close>
  is a failure, after which the code reads a list head that nobody wrote.
\<close>

section \<open>Socket addresses\<close>

text \<open>\<open>sa_data\<close> holds the bytes after the family, as many as the address has.\<close>

record sockaddr =
  sa_family :: u16
  sa_data :: "byte list"

record addrinfo =
  ai_flags :: int
  ai_family :: int
  ai_socktype :: int
  ai_protocol :: int
  ai_addrlen :: nat
  ai_addr :: sockaddr

type_synonym resolver = "string \<Rightarrow> string \<Rightarrow> addrinfo list option"

definition AF_INET :: u16 where "AF_INET = 2"

definition sizeof_sockaddr :: nat where "sizeof_sockaddr = 16"

text \<open>Where \<open>get_in_addr\<close> points: the offset of \<open>sin_addr\<close> or of \<open>sin6_addr\<close>.\<close>

definition get_in_addr :: "sockaddr \<Rightarrow> nat" where
  "get_in_addr sa = (if sa_family sa = AF_INET then 4 else 8)"

definition get_port :: "sockaddr \<Rightarrow> fault + u16" where
  "get_port sa = (if sa_family sa = AF_INET then rd16 (sa_data sa) 0 else rd16 (sa_data sa) 0)"

section \<open>The remote address\<close>

definition set_remote_address :: "resolver \<Rightarrow> string \<Rightarrow> u16 \<Rightarrow> fault + addrinfo" where
  "set_remote_address gai ip port =
     bindE (fits 8 (decimal (unat port))) (\<lambda>service.
       case gai ip service of
         None \<Rightarrow> Inl Indeterminate
       | Some [] \<Rightarrow> Inl Null_Pointer
       | Some (ai # rest) \<Rightarrow>
           bindE (get_bytes (sa_data (ai_addr ai)) 14) (\<lambda>bytes.
             Inr (ai\<lparr>ai_addr := \<lparr>sa_family = sa_family (ai_addr ai), sa_data = bytes\<rparr>\<rparr>)))"

text \<open>The bytes that \<open>sendto\<close> reads as its destination, from an allocation of \<open>sizeof(struct sockaddr)\<close>.\<close>

definition sendto_dest :: "addrinfo \<Rightarrow> fault + byte list" where
  "sendto_dest ra = (if ai_addrlen ra \<le> sizeof_sockaddr
     then Inr (take (ai_addrlen ra) (bytes16 (sa_family (ai_addr ra)) @ sa_data (ai_addr ra))) else Inl Out_Of_Bounds)"

section \<open>The constructor\<close>

definition new_link ::
  "attempt list option \<Rightarrow> resolver \<Rightarrow> string \<Rightarrow> u16 \<Rightarrow> string \<Rightarrow> u16 \<Rightarrow> u32 \<Rightarrow> u32 \<Rightarrow> fault + link \<times> addrinfo" where
  "new_link ai gai lip lport rip rport vip_in vip_out =
     bindE (create_socket ai) (\<lambda>(fd, fds).
     bindE (set_remote_address gai rip rport) (\<lambda>ra.
       Inr (\<lparr>s_local = fd, localip = lip, localport = lport, remoteport = rport, isup = True,
            sbuffer = None, sbufferReady = False, sbuffersz = 0,
            vip_local = ntohl vip_in, vip_remote = ntohl vip_out\<rparr>, ra)))"

text \<open>The text of a port has at most five digits.\<close>

lemma decimal_port_length: "length (decimal (unat (port :: u16))) \<le> 5"
proof -
  have more: "10 \<le> m \<Longrightarrow> length (decimal m) = length (decimal (m div 10)) + 1" for m by (subst decimal.simps) simp
  have one: "m < 10 \<Longrightarrow> length (decimal m) = 1" for m by (subst decimal.simps) simp
  have p: "unat port < 65536" using unsigned_less [of port, where ?'a = nat] by simp
  have two: "length (decimal m) \<le> 2" if "m < 100" for m
    using that more [of m] one [of m] one [of "m div 10"] by (cases "m < 10") simp_all
  have three: "length (decimal m) \<le> 3" if "m < 1000" for m
    using that more [of m] one [of m] two [of "m div 10"] by (cases "m < 10") simp_all
  have four: "length (decimal m) \<le> 4" if "m < 10000" for m
    using that more [of m] one [of m] three [of "m div 10"] by (cases "m < 10") simp_all
  show ?thesis
    using p more [of "unat port"] one [of "unat port"] four [of "unat port div 10"] by (cases "unat port < 10") simp_all
qed

text \<open>
  What the code relies on: for \<open>AF_INET\<close> \<open>getaddrinfo\<close> yields a \<open>struct sockaddr_in\<close> of 16 bytes with the
  port of the service text in network order.
\<close>

definition ipv4_resolver :: "resolver \<Rightarrow> bool" where
  "ipv4_resolver gai \<longleftrightarrow> (\<forall>host port ais. gai host (decimal (unat (port :: u16))) = Some ais \<longrightarrow>
     ais \<noteq> [] \<and> (\<forall>a \<in> set ais. sa_family (ai_addr a) = AF_INET \<and> ai_addrlen a = 16 \<and> length (sa_data (ai_addr a)) = 14
        \<and> get_port (ai_addr a) = Inr (htons port)))"

text \<open>
  An interface sends to the first address that the remote host resolves to, byte for byte, and to the
  remote port of its configuration line, which is the port \<open>recv_data\<close> looks for in a received datagram;
  the text buffer for the port never overflows.  When the host does not resolve, the constructor goes on with
  an address nobody wrote.
\<close>

theorem new_link_remote:
  assumes "ipv4_resolver gai" and "create_socket ai = Inr (fd, fds)"
  shows "case gai rip (decimal (unat rport)) of
      None \<Rightarrow> new_link ai gai lip lport rip rport vin vout = Inl Indeterminate
    | Some ais \<Rightarrow> (\<exists>l ra. new_link ai gai lip lport rip rport vin vout = Inr (l, ra) \<and> remoteport l = rport
        \<and> sendto_dest ra = Inr (bytes16 (sa_family (ai_addr (hd ais))) @ sa_data (ai_addr (hd ais)))
        \<and> get_port (ai_addr ra) = Inr (htons rport))"
proof (cases "gai rip (decimal (unat rport))")
  case None
  with assms(2) decimal_port_length [of rport] show ?thesis
    by (simp add: new_link_def set_remote_address_def fits_def)
next
  case (Some ais)
  with assms(1) have a: "ais \<noteq> []" "\<forall>a \<in> set ais. sa_family (ai_addr a) = AF_INET \<and> ai_addrlen a = 16
      \<and> length (sa_data (ai_addr a)) = 14 \<and> get_port (ai_addr a) = Inr (htons rport)"
    unfolding ipv4_resolver_def by blast+
  then obtain a as where ais: "ais = a # as" by (cases ais) auto
  with a(2) have "sa_family (ai_addr a) = AF_INET" "ai_addrlen a = 16" "length (sa_data (ai_addr a)) = 14"
    "get_port (ai_addr a) = Inr (htons rport)" by simp_all
  with Some assms(2) decimal_port_length [of rport] show ?thesis
    by (simp add: ais new_link_def set_remote_address_def fits_def get_bytes_def sendto_dest_def sizeof_sockaddr_def
        get_port_def bytes16_def)
qed

text \<open>A resolver that knows the loopback host.\<close>

definition digits_port :: "string \<Rightarrow> u16" where
  "digits_port s = of_nat (digits_value s)"

definition loopback :: resolver where
  "loopback host service = (if host = ''localhost'' then Some [\<lparr>ai_flags = 1, ai_family = 2, ai_socktype = 2,
     ai_protocol = 17, ai_addrlen = 16,
     ai_addr = \<lparr>sa_family = AF_INET, sa_data = bytes16 (htons (digits_port service)) @ [127, 0, 0, 1] @ replicate 8 0\<rparr>\<rparr>]
   else None)"

lemma loopback_ipv4: "ipv4_resolver loopback"
  by (simp add: ipv4_resolver_def loopback_def get_port_def rd16_def bytes16_def digits_port_def digits_value_decimal)

lemma new_link_loopback:
  "create_socket ai = Inr (fd, fds) \<Longrightarrow> \<exists>ra. new_link ai loopback lip lport ''localhost'' rport vin vout =
     Inr (\<lparr>s_local = fd, localip = lip, localport = lport, remoteport = rport, isup = True,
          sbuffer = None, sbufferReady = False, sbuffersz = 0, vip_local = ntohl vin, vip_remote = ntohl vout\<rparr>, ra)"
  using decimal_port_length [of rport]
  by (simp add: new_link_def set_remote_address_def fits_def loopback_def get_bytes_def bytes16_def)

theorem new_link_remote_witness:
  "\<exists>l ra. new_link (Some [Binds 3]) loopback ''localhost'' 17000 ''localhost'' 17001 0x0100000A 0x0E00000A = Inr (l, ra)
     \<and> remoteport l = 17001 \<and> get_port (ai_addr ra) = Inr (htons 17001)"
  (is "\<exists>l ra. ?new = _ \<and> _")
proof -
  have c: "create_socket (Some [Binds 3]) = Inr (3, [3])" by (simp add: create_socket_def)
  have g: "\<exists>a. loopback ''localhost'' (decimal (unat (17001 :: u16))) = Some [a]" by (simp add: loopback_def)
  have "case loopback ''localhost'' (decimal (unat (17001 :: u16))) of
      None \<Rightarrow> ?new = Inl Indeterminate
    | Some ais \<Rightarrow> (\<exists>l ra. ?new = Inr (l, ra) \<and> remoteport l = 17001
        \<and> sendto_dest ra = Inr (bytes16 (sa_family (ai_addr (hd ais))) @ sa_data (ai_addr (hd ais)))
        \<and> get_port (ai_addr ra) = Inr (htons 17001))"
    by (rule new_link_remote [OF loopback_ipv4 c])
  with g show ?thesis by auto
qed

end
