(* ===== verification/Parse_Links.thy ===== *)
theory Parse_Links
  imports Commands Link_Setup
begin

text \<open>
  The configuration file: \<open>parse_links\<close> (\<open>src/parselinks.c\<close>) on the text of a \<open>.lnx\<close> file, and the
  construction of the node from it (\<open>Node::add_interfaces\<close>, the constructors of \<open>LinkLayer\<close> and \<open>Node\<close>).
  A successful read leaves \<open>feof\<close> set exactly when it consumed the last character.  \<open>malloc\<close> succeeds.
\<close>

definition HOST_MAX_LENGTH :: nat where "HOST_MAX_LENGTH = 256"

record lnxbody =
  remote_phys_host :: string
  remote_phys_port :: u16
  local_virt_ip :: u32
  remote_virt_ip :: u32

record lnxinfo =
  local_phys_port :: u16
  num_links :: u8
  lnx_body :: "lnxbody list"

section \<open>parse_links\<close>

text \<open>Storing the value of \<open>%d\<close> in an \<open>int\<close>, and the range of a port.\<close>

definition to_int :: "int \<Rightarrow> fault + int" where
  "to_int v = (if - (2 ^ 31) \<le> v \<and> v < 2 ^ 31 then Inr v else Inl Indeterminate)"

definition bad_port :: "int \<Rightarrow> bool" where
  "bad_port port \<longleftrightarrow> port < 0 \<or> port > 0xffff"

text \<open>\<open>fscanf(f, "%s %d %s %s", rhost, &port, lv, rv)\<close>.\<close>

datatype scan4 = Scan_Eof | Scan_Short | Scan_Full string int string string string

definition fscanf_link :: "string \<Rightarrow> fault + scan4" where
  "fscanf_link s =
     (case scan_word s of
        None \<Rightarrow> Inr Scan_Eof
      | Some (w, r1) \<Rightarrow> bindE (fits HOST_MAX_LENGTH w) (\<lambda>rhost.
          case scan_int r1 of
            None \<Rightarrow> Inr Scan_Short
          | Some (v, r2) \<Rightarrow> bindE (to_int v) (\<lambda>port.
              case scan_word r2 of
                None \<Rightarrow> Inr Scan_Short
              | Some (w, r3) \<Rightarrow> bindE (fits INET_ADDRSTRLEN w) (\<lambda>lv.
                  case scan_word r3 of
                    None \<Rightarrow> Inr Scan_Short
                  | Some (w, r4) \<Rightarrow> bindE (fits INET_ADDRSTRLEN w) (\<lambda>rv.
                      Inr (Scan_Full rhost port lv rv r4))))))"

lemma fscanf_link_shorter: "fscanf_link s = Inr (Scan_Full rhost port lv rv r) \<Longrightarrow> length r < length s"
  by (auto simp: fscanf_link_def fits_def split: option.splits if_splits
      dest!: scan_word_shorter scan_int_shorter)

text \<open>The loop \<open>while (!feof(f))\<close>; \<open>None\<close> when the code frees the list and returns \<open>NULL\<close>.\<close>

function link_loop :: "string \<Rightarrow> lnxbody list \<Rightarrow> fault + lnxbody list option" where
  "link_loop f body =
     (if f = [] then Inr (Some body)
      else case fscanf_link f of
        Inl e \<Rightarrow> Inl e
      | Inr Scan_Eof \<Rightarrow> Inr (Some body)
      | Inr Scan_Short \<Rightarrow> Inr None
      | Inr (Scan_Full rhost port lv rv r) \<Rightarrow>
          (if bad_port port then Inr None
           else case inet_pton lv of
             None \<Rightarrow> Inr None
           | Some l \<Rightarrow>
               (case inet_pton rv of
                  None \<Rightarrow> Inr None
                | Some rm \<Rightarrow> link_loop r (body @ [\<lparr>remote_phys_host = rhost, remote_phys_port = of_int port,
                                              local_virt_ip = l, remote_virt_ip = rm\<rparr>]))))"
  by pat_completeness auto
termination
  by (relation "measure (\<lambda>(f, body). length f)") (auto dest: fscanf_link_shorter)

declare link_loop.simps [simp del]

text \<open>The argument is the text of the file, \<open>None\<close> when \<open>fopen\<close> fails; the result is \<open>None\<close> for \<open>NULL\<close>.\<close>

definition parse_links :: "string option \<Rightarrow> fault + lnxinfo option" where
  "parse_links file =
     (case file of
        None \<Rightarrow> Inr None
      | Some f \<Rightarrow>
          (case scan_word f of
             None \<Rightarrow> Inr None
           | Some (w, r1) \<Rightarrow> bindE (fits HOST_MAX_LENGTH w) (\<lambda>lhost.
               case scan_int r1 of
                 None \<Rightarrow> Inr None
               | Some (v, r2) \<Rightarrow> bindE (to_int v) (\<lambda>port.
                   if bad_port port then Inr None
                   else bindE (link_loop r2 []) (\<lambda>res.
                     Inr (map_option (\<lambda>body. \<lparr>local_phys_port = of_int port, num_links = of_nat (length body),
                                               lnx_body = body\<rparr>) res))))))"

section \<open>Construction of the node\<close>

text \<open>\<open>ai i\<close> are the addresses on which the socket of interface \<open>i\<close> is tried, \<open>gai\<close> resolves the remote hosts.\<close>

fun add_links ::
  "(nat \<Rightarrow> attempt list option) \<Rightarrow> resolver \<Rightarrow> nat \<Rightarrow> u16 \<Rightarrow> lnxbody list \<Rightarrow> link list \<Rightarrow> fault + link list" where
  "add_links ai gai i lport [] ifs = Inr ifs"
| "add_links ai gai i lport (b # links) ifs =
     bindE (new_link (ai i) gai ''localhost'' lport (remote_phys_host b) (remote_phys_port b)
         (local_virt_ip b) (remote_virt_ip b)) (\<lambda>(ll, remote_addr).
       add_links ai gai (Suc i) lport links (ifs @ [ll]))"

definition add_interfaces :: "(nat \<Rightarrow> attempt list option) \<Rightarrow> resolver \<Rightarrow> string option \<Rightarrow> fault + link list" where
  "add_interfaces ai gai file =
     bindE (parse_links file) (\<lambda>info.
       case info of
         None \<Rightarrow> Inl (Exit 1)
       | Some info \<Rightarrow> add_links ai gai 0 (local_phys_port info) (lnx_body info) [])"

text \<open>\<open>Node::Node\<close>: the interfaces, the network layer with its empty queues, the RIP layer.\<close>

definition node_ctor ::
  "(nat \<Rightarrow> attempt list option) \<Rightarrow> resolver \<Rightarrow> (nat \<Rightarrow> timeval) \<Rightarrow> string option \<Rightarrow> fault + node" where
  "node_ctor ai gai clock file =
     bindE (add_interfaces ai gai file) (\<lambda>ifs. rip_init clock (fresh_node ifs))"

section \<open>Reading back a configuration\<close>

definition NL :: char where "NL = CHR 0x0A"

definition good_host :: "string \<Rightarrow> bool" where
  "good_host h \<longleftrightarrow> h \<noteq> [] \<and> length h < HOST_MAX_LENGTH \<and> (\<forall>c \<in> set h. \<not> is_space c)"

text \<open>A file in the format of those in \<open>src/nets\<close>: one line for the node, one for each link.\<close>

definition link_text :: "lnxbody \<Rightarrow> string" where
  "link_text b = remote_phys_host b @ '' '' @ decimal (unat (remote_phys_port b)) @ '' ''
     @ inet_ntop (local_virt_ip b) @ '' '' @ inet_ntop (remote_virt_ip b)"

definition lines_text :: "lnxbody list \<Rightarrow> string" where
  "lines_text body = concat (map (\<lambda>b. NL # link_text b) body) @ [NL]"

definition config_text :: "string \<Rightarrow> u16 \<Rightarrow> lnxbody list \<Rightarrow> string" where
  "config_text host port body = host @ '' '' @ decimal (unat port) @ lines_text body"

lemma NL_chars [simp]: "is_space NL" "\<not> is_digit NL"
  by (simp_all add: NL_def is_space_def is_digit_def ch_code_def)

lemma lines_text_simps [simp]:
  "lines_text [] = [NL]" "lines_text (b # body) = NL # link_text b @ lines_text body"
  by (simp_all add: lines_text_def)

lemma lines_text_hd: "\<exists>r. lines_text body = NL # r"
  by (cases body) auto

lemma port_range: "uint p < 65536" "0 \<le> uint p" "\<not> bad_port (uint p)" "to_int (uint p) = Inr (uint p)" for p :: u16
proof -
  have b: "0 \<le> uint p" "uint p < 65536" using uint_bounded [of p] by simp_all
  then show "uint p < 65536" "0 \<le> uint p" "\<not> bad_port (uint p)" by (simp_all add: bad_port_def)
  have "(2::int) ^ 31 = 2147483648" by simp
  with b have "- (2 ^ 31) \<le> uint p \<and> uint p < 2 ^ 31" by linarith
  then show "to_int (uint p) = Inr (uint p)" by (simp add: to_int_def)
qed

lemma fscanf_link_text:
  assumes "good_host (remote_phys_host b)"
  shows "fscanf_link (NL # link_text b @ lines_text body) = Inr (Scan_Full (remote_phys_host b)
    (int (unat (remote_phys_port b))) (inet_ntop (local_virt_ip b)) (inet_ntop (remote_virt_ip b)) (lines_text body))"
proof -
  let ?p = "unat (remote_phys_port b)" and ?l = "inet_ntop (local_virt_ip b)" and ?r = "inet_ntop (remote_virt_ip b)"
  obtain t where t: "lines_text body = NL # t" using lines_text_hd by blast
  have h: "remote_phys_host b \<noteq> []" "\<forall>c \<in> set (remote_phys_host b). \<not> is_space c" "length (remote_phys_host b) < HOST_MAX_LENGTH"
    using assms by (simp_all add: good_host_def)
  have w: "\<And>a r. r = [] \<or> is_space (hd r) \<Longrightarrow> scan_word ('' '' @ inet_ntop a @ r) = Some (inet_ntop a, r)"
    using scan_word_at [OF inet_ntop_not_Nil] inet_ntop_chars by (simp add: scan_word_space)
  show ?thesis
    using scan_word_at [OF h(1,2), of "'' '' @ decimal ?p @ '' '' @ ?l @ '' '' @ ?r @ lines_text body"]
      scan_int_decimal [of "'' '' @ ?l @ '' '' @ ?r @ lines_text body" ?p]
      w [of "'' '' @ ?r @ lines_text body" "local_virt_ip b"] w [of "lines_text body" "remote_virt_ip b"]
      h(3) inet_ntop_length
    by (simp add: fscanf_link_def link_text_def scan_word_space fits_def port_range t)
qed

lemma link_loop_text:
  assumes "\<forall>b \<in> set body. good_host (remote_phys_host b)"
  shows "link_loop (lines_text body) done = Inr (Some (done @ body))"
  using assms
proof (induction body arbitrary: "done")
  case Nil
  then show ?case by (simp add: link_loop.simps [of "[NL]"] fscanf_link_def scan_word_def)
next
  case (Cons b body)
  have "fscanf_link (NL # link_text b @ lines_text body) = Inr (Scan_Full (remote_phys_host b)
    (int (unat (remote_phys_port b))) (inet_ntop (local_virt_ip b)) (inet_ntop (remote_virt_ip b)) (lines_text body))"
    using Cons.prems by (intro fscanf_link_text) simp
  then show ?case
    using Cons by (simp add: link_loop.simps [of "NL # link_text b @ lines_text body"] inet_pton_ntop port_range)
qed

lemma new_link_static:
  "new_link ai gai lip lport rip rport l r = Inr (ll, ra) \<Longrightarrow> fresh_link ll \<and> link_static ll = (ntohl l, ntohl r, rport)"
  by (auto simp: new_link_def fresh_link_def link_static_def)

lemma add_links_static:
  "add_links ai gai i lport links ifs = Inr ifs' \<Longrightarrow> \<forall>l \<in> set ifs. fresh_link l \<Longrightarrow>
     (\<forall>l \<in> set ifs'. fresh_link l) \<and> map link_static ifs' = map link_static ifs
       @ map (\<lambda>b. (ntohl (local_virt_ip b), ntohl (remote_virt_ip b), remote_phys_port b)) links"
proof (induction links arbitrary: i ifs)
  case (Cons b links)
  then obtain ll ra where ll: "new_link (ai i) gai ''localhost'' lport (remote_phys_host b) (remote_phys_port b)
      (local_virt_ip b) (remote_virt_ip b) = Inr (ll, ra)"
    and a: "add_links ai gai (Suc i) lport links (ifs @ [ll]) = Inr ifs'" by auto
  from Cons.IH [OF a] Cons.prems(2) new_link_static [OF ll] show ?case by auto
qed simp

lemma node_ctor_InrD:
  assumes "node_ctor ai gai clock file = Inr n"
  shows "\<exists>ifs info. parse_links file = Inr (Some info) \<and> reachable ifs n \<and> interfaces n = ifs
    \<and> statics n = map (\<lambda>b. (ntohl (local_virt_ip b), ntohl (remote_virt_ip b), remote_phys_port b)) (lnx_body info)"
proof -
  from assms obtain ifs info where p: "parse_links file = Inr (Some info)"
    and a: "add_links ai gai 0 (local_phys_port info) (lnx_body info) [] = Inr ifs"
    and r: "rip_init clock (fresh_node ifs) = Inr n"
    by (auto simp: node_ctor_def add_interfaces_def split: option.splits)
  from add_links_static [OF a] have f: "\<forall>l \<in> set ifs. fresh_link l"
    and s: "map link_static ifs = map (\<lambda>b. (ntohl (local_virt_ip b), ntohl (remote_virt_ip b), remote_phys_port b)) (lnx_body info)"
    by simp_all
  from f r have "reachable ifs n" by (rule reachable.start)
  with rip_init_inv [OF f r] p s show ?thesis by (auto simp: statics_eq)
qed

lemma parse_config_text:
  assumes "good_host host" and "\<forall>b \<in> set body. good_host (remote_phys_host b)"
  shows "parse_links (Some (config_text host port body)) = Inr (Some
    \<lparr>local_phys_port = port, num_links = of_nat (length body), lnx_body = body\<rparr>)"
proof -
  obtain t where t: "lines_text body = NL # t" using lines_text_hd by blast
  have h: "host \<noteq> []" "\<forall>c \<in> set host. \<not> is_space c" "length host < HOST_MAX_LENGTH"
    using assms(1) by (simp_all add: good_host_def)
  have "scan_word (host @ '' '' @ decimal (unat port) @ lines_text body) = Some (host, '' '' @ decimal (unat port) @ lines_text body)"
    by (rule scan_word_at [OF h(1,2)]) simp
  moreover have "scan_int ('' '' @ decimal (unat port) @ lines_text body) = Some (int (unat port), lines_text body)"
    by (rule scan_int_decimal) (simp add: t)
  ultimately show ?thesis
    using h(3) link_loop_text [OF assms(2), of "[]"]
    by (simp add: parse_links_def config_text_def fits_def port_range)
qed

text \<open>The file \<open>src/nets/routeAggregation/tree/A.lnx\<close>.\<close>

definition A_body :: "lnxbody list" where
  "A_body = [\<lparr>remote_phys_host = ''localhost'', remote_phys_port = 17001,
     local_virt_ip = htonl 0x0A000001, remote_virt_ip = htonl 0x0A00000E\<rparr>]"

definition A_lnx :: string where
  "A_lnx = ''localhost 17000'' @ [NL] @ ''localhost 17001 10.0.0.1 10.0.0.14'' @ [NL]"

lemma A_addrs: "inet_ntop (htonl 0x0A000001) = ''10.0.0.1''" "inet_ntop (htonl 0x0A00000E) = ''10.0.0.14''"
proof -
  have d: "decimal 10 = ''10''" "decimal 0 = ''0''" "decimal (Suc 0) = ''1''" "decimal 14 = ''14''"
    by (simp_all add: decimal.simps digit_chars)
  have h: "htonl 0x0A000001 = word32 10 0 0 1" "htonl 0x0A00000E = word32 10 0 0 14"
    by (simp_all add: htonl_def bswap32_def word32_def)
  show "inet_ntop (htonl 0x0A000001) = ''10.0.0.1''" "inet_ntop (htonl 0x0A00000E) = ''10.0.0.14''"
    by (simp_all add: h inet_ntop_def d)
qed

lemma A_lnx_text: "config_text ''localhost'' 17000 A_body = A_lnx"
proof -
  have d: "decimal 17000 = ''17000''" "decimal 17001 = ''17001''"
    by (simp_all add: decimal.simps digit_chars)
  show ?thesis by (simp add: config_text_def A_body_def A_lnx_def link_text_def d A_addrs)
qed

lemma good_localhost: "good_host ''localhost''"
  by (simp add: good_host_def HOST_MAX_LENGTH_def is_space_def ch_code_def)

lemma parse_A_lnx:
  "parse_links (Some A_lnx) = Inr (Some \<lparr>local_phys_port = 17000, num_links = 1, lnx_body = A_body\<rparr>)"
  unfolding A_lnx_text [symmetric]
  by (subst parse_config_text) (simp_all add: good_localhost A_body_def)

lemma new_link_A:
  "\<exists>ra. new_link (Some [Binds 3]) loopback ''localhost'' 17000 ''localhost'' 17001 (htonl 0x0A000001) (htonl 0x0A00000E)
     = Inr (A_ifs ! 0, ra)"
proof -
  have "create_socket (Some [Binds 3]) = Inr (3, [3])" by (simp add: create_socket_def)
  from new_link_loopback [OF this, where lip = "''localhost''" and lport = 17000 and rport = 17001
      and vin = "htonl 0x0A000001" and vout = "htonl 0x0A00000E"]
  show ?thesis by (simp add: A_ifs_def link_of_def)
qed

lemma node_ctor_A:
  "node_ctor (\<lambda>_. Some [Binds 3]) loopback (\<lambda>_. at_sec 100) (Some A_lnx) = Inr A_start"
proof -
  have "add_interfaces (\<lambda>_. Some [Binds 3]) loopback (Some A_lnx) = Inr A_ifs"
    using new_link_A by (auto simp: add_interfaces_def parse_A_lnx A_body_def) (simp_all add: A_ifs_def)
  then show ?thesis by (simp add: node_ctor_def rip_init_A)
qed

section \<open>Properties\<close>

text \<open>
  C35: a configuration written in the format of the \<open>.lnx\<close> files is read back exactly: the port of the
  node and, in order, every link with its host, port and both addresses; the link count is kept modulo 256.
\<close>

theorem parse_links_config:
  assumes "good_host host" and "\<forall>b \<in> set body. good_host (remote_phys_host b)"
  shows "parse_links (Some (config_text host port body)) = Inr (Some
    \<lparr>local_phys_port = port, num_links = of_nat (length body), lnx_body = body\<rparr>)"
  using assms by (rule parse_config_text)

theorem parse_links_config_witness:
  "parse_links (Some A_lnx) = Inr (Some \<lparr>local_phys_port = 17000, num_links = 1, lnx_body = A_body\<rparr>)"
proof -
  have "\<forall>b \<in> set A_body. good_host (remote_phys_host b)" using good_localhost by (simp add: A_body_def)
  from parse_links_config [OF good_localhost this, of 17000] show ?thesis
    unfolding A_lnx_text by (simp add: A_body_def)
qed

text \<open>
  When the constructor of the node returns, the configuration file parsed, the node is a start state
  of the node system, and its interfaces have the addresses (in host order) and ports of the file, in order;
  without a parsable file the process exits.
\<close>

theorem node_ctor_reachable:
  assumes "node_ctor ai gai clock file = r"
  shows "case r of
      Inr n \<Rightarrow> (\<exists>ifs info. parse_links file = Inr (Some info) \<and> reachable ifs n \<and> interfaces n = ifs
        \<and> statics n = map (\<lambda>b. (ntohl (local_virt_ip b), ntohl (remote_virt_ip b), remote_phys_port b)) (lnx_body info))
    | Inl f \<Rightarrow> parse_links file = Inr None \<longrightarrow> f = Exit 1"
proof (cases r)
  case (Inl f)
  with assms show ?thesis by (auto simp: node_ctor_def add_interfaces_def)
next
  case (Inr n)
  with assms have "node_ctor ai gai clock file = Inr n" by simp
  from node_ctor_InrD [OF this] Inr show ?thesis by simp
qed

theorem node_ctor_reachable_witness:
  "node_ctor (\<lambda>_. Some [Binds 3]) loopback (\<lambda>_. at_sec 100) (Some A_lnx) = Inr A_start
   \<and> statics A_start = [(0x0A000001, 0x0A00000E, 17001)]"
proof -
  from node_ctor_reachable [OF node_ctor_A] parse_A_lnx node_ctor_A show ?thesis by (auto simp: A_body_def)
qed

end
