(* ===== verification/Startup.thy ===== *)
theory Startup
  imports Parse_Links
begin

text \<open>
  The construction of the node beside the threads it starts (\<open>Node::Node\<close> and \<open>Node::add_interfaces\<close> in
  \<open>src/NodeImpl.cc\<close>, the constructors in \<open>src/LinkLayer.hh\<close>, \<open>src/NetworkLayer.cc\<close> and \<open>src/RipLayer.cc\<close>).
  The constructor of a link starts the link's thread before \<open>set_parent\<close> stores \<open>_parent\<close>, before
  \<open>_interfaces\<close> holds the link and before \<open>_iplayer\<close> and \<open>_riplayer\<close> are assigned; until then these
  pointers are uninitialised.  The main thread and the others interleave step by step.
\<close>

section \<open>The state during construction\<close>

datatype stage = Make_Links "lnxbody list" | Make_Rip | Assign_Rip | Started

text \<open>
  \<open>unlisted\<close> is the link whose constructor has returned and that \<open>_interfaces\<close> does not hold yet, with
  whether its \<open>_parent\<close> is set; \<open>iplayer\<close> and \<open>riplayer\<close> tell whether the two pointers are assigned.
\<close>

record boot =
  stage :: stage
  bnode :: node
  unlisted :: "(link \<times> bool) option"
  iplayer :: bool
  riplayer :: bool

definition boot_start :: "lnxinfo \<Rightarrow> boot" where
  "boot_start info = \<lparr>stage = Make_Links (lnx_body info), bnode = fresh_node [], unlisted = None,
     iplayer = False, riplayer = False\<rparr>"

text \<open>The constructor \<open>NetworkLayer::NetworkLayer\<close>: two empty queues; its threads belong to the steps below.\<close>

definition network_layer_ctor :: "node \<Rightarrow> node" where
  "network_layer_ctor n = n\<lparr>incomingqueue := [], outgoingqueue := []\<rparr>"

text \<open>
  The main thread.  \<open>network\<close> is \<open>_iplayer = new NetworkLayer(this)\<close>: its threads wait on empty queues
  until the pointer is assigned, so it is one step.
\<close>

inductive main_step ::
  "(nat \<Rightarrow> attempt list option) \<Rightarrow> resolver \<Rightarrow> (nat \<Rightarrow> timeval) \<Rightarrow> u16 \<Rightarrow> boot \<Rightarrow> boot \<Rightarrow> bool"
  for ai gai clock lport where
  construct: "stage b = Make_Links (x # xs) \<Longrightarrow> unlisted b = None
    \<Longrightarrow> new_link (ai (length (interfaces (bnode b)))) gai ''localhost'' lport (remote_phys_host x) (remote_phys_port x)
          (local_virt_ip x) (remote_virt_ip x) = Inr (ll, ra)
    \<Longrightarrow> main_step ai gai clock lport b (b\<lparr>stage := Make_Links xs, unlisted := Some (ll, False)\<rparr>)"
| set_parent: "unlisted b = Some (ll, False) \<Longrightarrow> main_step ai gai clock lport b (b\<lparr>unlisted := Some (ll, True)\<rparr>)"
| push_back: "unlisted b = Some (ll, True) \<Longrightarrow> main_step ai gai clock lport b
    (b\<lparr>unlisted := None, bnode := (bnode b)\<lparr>interfaces := interfaces (bnode b) @ [ll]\<rparr>\<rparr>)"
| network: "stage b = Make_Links [] \<Longrightarrow> unlisted b = None
    \<Longrightarrow> main_step ai gai clock lport b (b\<lparr>stage := Make_Rip, iplayer := True, bnode := network_layer_ctor (bnode b)\<rparr>)"
| rip: "stage b = Make_Rip \<Longrightarrow> rip_init clock (bnode b) = Inr n
    \<Longrightarrow> main_step ai gai clock lport b (b\<lparr>stage := Assign_Rip, bnode := n\<rparr>)"
| assign: "stage b = Assign_Rip \<Longrightarrow> main_step ai gai clock lport b (b\<lparr>stage := Started, riplayer := True\<rparr>)"

section \<open>The other threads\<close>

text \<open>Whether \<open>_parent\<close> of link \<open>i\<close> is set; \<open>None\<close> when there is no such link.\<close>

definition link_parent :: "nat \<Rightarrow> boot \<Rightarrow> bool option" where
  "link_parent i b = (if i < length (interfaces (bnode b)) then Some True
     else if i = length (interfaces (bnode b)) then map_option snd (unlisted b) else None)"

text \<open>
  \<open>recv_data\<close> on the thread of link \<open>i\<close>: the receive loop, then \<open>_parent\<close>, \<open>_interfaces\<close> and \<open>_iplayer\<close>.
\<close>

definition boot_recv :: "nat \<Rightarrow> recv_result list \<Rightarrow> boot \<Rightarrow> (fault + boot) option" where
  "boot_recv i rs b =
     (case link_parent i b of
        None \<Rightarrow> None
      | Some parent \<Rightarrow>
          (case recv_loop rs [] 0 0 None of
             Inl f \<Rightarrow> Some (Inl f)
           | Inr None \<Rightarrow> None
           | Inr (Some received) \<Rightarrow>
               Some (if \<not> parent then Inl Indeterminate
                     else bindE (recv_data rs (bnode b)) (\<lambda>res.
                       case res of
                         None \<Rightarrow> Inr b
                       | Some (n', rs') \<Rightarrow>
                           if iplayer b then Inr (b\<lparr>bnode := n'\<rparr>) else Inl Indeterminate))))"

text \<open>Whether \<open>transfer_data\<close> comes to \<open>_parent->get_rip_layer()->...\<close>.\<close>

definition asks_rip_layer :: "byte list \<Rightarrow> u32 \<Rightarrow> link list \<Rightarrow> fault + bool" where
  "asks_rip_layer data next ifs =
     bindE (rd32 data 16) (\<lambda>da. bindE (rd8 data 9) (\<lambda>proto. bindE (rd16 data 10) (\<lambda>orig_sum.
     bindE (put sizeof_packet data CSUM_OFFSET (bytes16 0)) (\<lambda>data.
     bindE (ip_sum data (int sizeof_iphdr)) (\<lambda>cur_sum.
       Inr (orig_sum = cur_sum
         \<and> (if proto = RIP_PROTO then (case get_interface ifs next of None \<Rightarrow> False | Some i \<Rightarrow> isup (ifs ! i))
            else \<not> is_destined_to_me ifs (ntohl da))))))))"

text \<open>One round of \<open>process_out_queue\<close>.\<close>

definition boot_out :: "(nat \<Rightarrow> timeval) \<Rightarrow> boot \<Rightarrow> (fault + boot) option" where
  "boot_out clock b =
     (case outgoingqueue (bnode b) of
        [] \<Rightarrow> None
      | msg # q \<Rightarrow>
          map_option (\<lambda>r. bindE (get_bytes (ippkt msg) (datalen msg)) (\<lambda>pkt.
              bindE (asks_rip_layer pkt (rnext msg) (interfaces (bnode b))) (\<lambda>asks.
                if asks \<and> \<not> riplayer b then Inl Indeterminate
                else bindE r (\<lambda>n'. Inr (b\<lparr>bnode := n'\<rparr>)))))
            (process_out_step clock (bnode b)))"

inductive thread_step :: "boot \<Rightarrow> boot \<Rightarrow> bool" where
  receives: "boot_recv i rs b = Some (Inr b') \<Longrightarrow> thread_step b b'"
| sends: "i < length (interfaces (bnode b)) \<Longrightarrow> send_part i wr (bnode b) = Some (Inr n')
    \<Longrightarrow> thread_step b (b\<lparr>bnode := n'\<rparr>)"
| in_round: "iplayer b \<Longrightarrow> process_in_step (bnode b) = Some (Inr n') \<Longrightarrow> thread_step b (b\<lparr>bnode := n'\<rparr>)"
| out_round: "iplayer b \<Longrightarrow> boot_out clock b = Some (Inr b') \<Longrightarrow> thread_step b b'"
| rip_round: "stage b \<in> {Assign_Rip, Started} \<Longrightarrow> rip_timer_step now (bnode b) = Some (Inr n')
    \<Longrightarrow> thread_step b (b\<lparr>bnode := n'\<rparr>)"

text \<open>The states during construction, for a parsed configuration.\<close>

inductive starting ::
  "(nat \<Rightarrow> attempt list option) \<Rightarrow> resolver \<Rightarrow> (nat \<Rightarrow> timeval) \<Rightarrow> lnxinfo \<Rightarrow> boot \<Rightarrow> bool"
  for ai gai clock info where
  begins: "starting ai gai clock info (boot_start info)"
| by_main: "starting ai gai clock info b \<Longrightarrow> main_step ai gai clock (local_phys_port info) b b'
    \<Longrightarrow> starting ai gai clock info b'"
| by_thread: "starting ai gai clock info b \<Longrightarrow> thread_step b b' \<Longrightarrow> starting ai gai clock info b'"

section \<open>The invariant\<close>

definition configured :: "lnxbody \<Rightarrow> u32 \<times> u32 \<times> u16" where
  "configured x = (ntohl (local_virt_ip x), ntohl (remote_virt_ip x), remote_phys_port x)"

fun to_make :: "stage \<Rightarrow> lnxbody list" where
  "to_make (Make_Links xs) = xs"
| "to_make st = []"

definition boot_inv :: "lnxinfo \<Rightarrow> boot \<Rightarrow> bool" where
  "boot_inv info b \<longleftrightarrow> node_inv (bnode b)
     \<and> (iplayer b \<longleftrightarrow> (\<forall>xs. stage b \<noteq> Make_Links xs))
     \<and> (iplayer b \<longrightarrow> unlisted b = None)
     \<and> (\<not> iplayer b \<longrightarrow> incomingqueue (bnode b) = [] \<and> outgoingqueue (bnode b) = [] \<and> rtable (bnode b) = [])
     \<and> (riplayer b \<longleftrightarrow> stage b = Started)
     \<and> (case unlisted b of None \<Rightarrow> True | Some (ll, p) \<Rightarrow> fresh_link ll)
     \<and> statics (bnode b) @ (case unlisted b of None \<Rightarrow> [] | Some (ll, p) \<Rightarrow> [link_static ll])
         @ map configured (to_make (stage b)) = map configured (lnx_body info)"

lemma network_layer_ctor_empty: "incomingqueue n = [] \<Longrightarrow> outgoingqueue n = [] \<Longrightarrow> network_layer_ctor n = n"
  by (simp add: network_layer_ctor_def)

lemma network_layer_ctor_fresh [simp]: "network_layer_ctor (fresh_node ifs) = fresh_node ifs"
  by (simp add: network_layer_ctor_def fresh_node_def)

lemma boot_inv_start: "boot_inv info (boot_start info)"
  by (simp add: boot_inv_def boot_start_def fresh_node_def node_inv_def rt_inv_empty statics_def)

lemma node_inv_add_link:
  assumes "node_inv n" and "fresh_link ll" and "incomingqueue n = []" and "outgoingqueue n = []" and "rtable n = []"
  shows "node_inv (n\<lparr>interfaces := interfaces n @ [ll]\<rparr>)"
  using assms by (simp add: node_inv_def rt_inv_empty fresh_link_def link_ok_def)

lemma rip_init_keeps:
  assumes "node_inv n" and "rip_init clock n = Inr n'"
  shows "keeps n n'"
proof -
  have "node_inv (n\<lparr>rtable := init_loop clock 0 (interfaces n) []\<rparr>)"
    using assms(1) init_loop_inv [OF rt_inv_empty, of "interfaces n" "interfaces n" clock 0] by (simp add: node_inv_def)
  from prepare_msg_wp [OF this, of 1] assms(2) show ?thesis
    by (simp add: rip_init_def wpE_def same_ifs_def keeps_def statics_def)
qed

lemma main_step_inv: "main_step ai gai clock lport b b' \<Longrightarrow> boot_inv info b \<Longrightarrow> boot_inv info b'"
proof (induction rule: main_step.induct)
  case (construct b x xs ll ra)
  then show ?case using new_link_static [OF construct(3)] by (auto simp: boot_inv_def configured_def)
next
  case (push_back b ll)
  then show ?case by (auto simp: boot_inv_def node_inv_add_link statics_eq)
next
  case (rip b n)
  then show ?case using rip_init_keeps [of "bnode b" clock n] by (auto simp: boot_inv_def keeps_def)
next
  case (network b)
  then show ?case using network_layer_ctor_empty [of "bnode b"] by (auto simp: boot_inv_def)
qed (auto simp: boot_inv_def)

lemma send_part_keeps:
  assumes "node_inv n" and "i < length (interfaces n)" and "send_part i wr n = Some (Inr n')"
  shows "keeps n n'" and "incomingqueue n' = incomingqueue n" and "outgoingqueue n' = outgoingqueue n"
    and "rtable n' = rtable n"
  using send_part_good [OF assms] assms(3) by (auto simp: send_part_def set_link_def split: option.splits if_splits)

text \<open>A step of another thread changes the node only, and before \<open>_iplayer\<close> is assigned not even its queues.\<close>

lemma thread_step_node:
  assumes "thread_step b b'" and inv: "node_inv (bnode b)"
  shows "\<exists>n'. b' = b\<lparr>bnode := n'\<rparr> \<and> keeps (bnode b) n' \<and> (iplayer b \<or> stage b \<in> {Assign_Rip, Started}
    \<or> incomingqueue n' = incomingqueue (bnode b) \<and> outgoingqueue n' = outgoingqueue (bnode b) \<and> rtable n' = rtable (bnode b))"
  using assms(1)
proof cases
  case (receives i rs)
  then consider "b' = b" | n' rs' where "recv_data rs (bnode b) = Inr (Some (n', rs'))" "b' = b\<lparr>bnode := n'\<rparr>" "iplayer b"
    by (auto simp: boot_recv_def split: option.splits sum.splits if_splits)
  then show ?thesis
  proof cases
    case 1
    with inv show ?thesis by (intro exI [of _ "bnode b"]) (simp add: keeps_def)
  next
    case (2 n' rs')
    with recv_data_wp [OF inv, of rs] same_ifs_keeps show ?thesis by (intro exI [of _ n']) (simp add: wpE_def)
  qed
next
  case (sends i wr n')
  then show ?thesis using send_part_keeps [OF inv sends(2,3)] by auto
next
  case (in_round n')
  then show ?thesis using process_in_step_wp [OF inv] by auto
next
  case (out_round clock)
  then obtain n' where "process_out_step clock (bnode b) = Some (Inr n')" "b' = b\<lparr>bnode := n'\<rparr>" "iplayer b"
    by (auto simp: boot_out_def split: list.splits if_splits)
  with process_out_step_wp [OF inv] same_ifs_keeps show ?thesis by (intro exI [of _ n']) fastforce
next
  case (rip_round now n')
  then show ?thesis using rip_timer_step_wp [OF inv] same_ifs_keeps by (intro exI [of _ n']) fastforce
qed

lemma starting_inv: "starting ai gai clock info b \<Longrightarrow> boot_inv info b"
proof (induction rule: starting.induct)
  case (by_thread b b')
  then show ?case using thread_step_node [OF by_thread(2)] by (auto simp: boot_inv_def keeps_def)
qed (auto simp: boot_inv_start main_step_inv)

section \<open>Construction without interference\<close>

text \<open>What the main thread alone has done agrees with the constructor as a function.\<close>

definition ctor_state ::
  "(nat \<Rightarrow> attempt list option) \<Rightarrow> resolver \<Rightarrow> (nat \<Rightarrow> timeval) \<Rightarrow> lnxinfo \<Rightarrow> boot \<Rightarrow> bool" where
  "ctor_state ai gai clock info b \<longleftrightarrow>
     (let made = add_links ai gai 0 (local_phys_port info) (lnx_body info) [];
          ifs = interfaces (bnode b)
      in case stage b of
        Make_Links xs \<Rightarrow> bnode b = fresh_node ifs \<and> made = (case unlisted b of
            None \<Rightarrow> add_links ai gai (length ifs) (local_phys_port info) xs ifs
          | Some (ll, p) \<Rightarrow> add_links ai gai (Suc (length ifs)) (local_phys_port info) xs (ifs @ [ll]))
      | Make_Rip \<Rightarrow> unlisted b = None \<and> bnode b = fresh_node ifs \<and> made = Inr ifs
      | _ \<Rightarrow> unlisted b = None \<and> bindE made (\<lambda>ifs. rip_init clock (fresh_node ifs)) = Inr (bnode b))"

lemma fresh_node_add: "n = fresh_node ifs \<Longrightarrow> n\<lparr>interfaces := ifs @ [ll]\<rparr> = fresh_node (ifs @ [ll])"
  by (simp add: fresh_node_def)

lemma main_step_ctor:
  "main_step ai gai clock (local_phys_port info) b b' \<Longrightarrow> ctor_state ai gai clock info b \<Longrightarrow> ctor_state ai gai clock info b'"
proof (induction rule: main_step.induct)
  case (network b)
  then have "bnode b = fresh_node (interfaces (bnode b))" by (simp add: ctor_state_def Let_def)
  then have "network_layer_ctor (bnode b) = bnode b" by (metis network_layer_ctor_fresh)
  with network show ?case by (simp add: ctor_state_def Let_def)
qed (auto simp: ctor_state_def Let_def fresh_node_add split: stage.splits option.splits)

lemma main_alone_ctor:
  assumes "(main_step ai gai clock (local_phys_port info))\<^sup>*\<^sup>* (boot_start info) b"
  shows "ctor_state ai gai clock info b"
  using assms
proof (induction rule: rtranclp_induct)
  case base
  show ?case by (simp add: ctor_state_def boot_start_def fresh_node_def)
next
  case (step b b')
  then show ?case by (blast intro: main_step_ctor)
qed

definition making :: "lnxbody list \<Rightarrow> link list \<Rightarrow> boot" where
  "making xs ifs = \<lparr>stage = Make_Links xs, bnode = fresh_node ifs, unlisted = None, iplayer = False, riplayer = False\<rparr>"

lemma main_makes_link:
  assumes "new_link (ai (length ifs)) gai ''localhost'' lport (remote_phys_host x) (remote_phys_port x)
    (local_virt_ip x) (remote_virt_ip x) = Inr (ll, ra)"
  shows "(main_step ai gai clock lport)\<^sup>*\<^sup>* (making (x # xs) ifs) (making xs (ifs @ [ll]))"
proof -
  let ?step = "main_step ai gai clock lport"
  define b0 where "b0 = making (x # xs) ifs"
  define b1 where "b1 = b0\<lparr>stage := Make_Links xs, unlisted := Some (ll, False)\<rparr>"
  define b2 where "b2 = b1\<lparr>unlisted := Some (ll, True)\<rparr>"
  have "?step b0 b1" unfolding b1_def
    by (rule construct) (use assms in \<open>simp_all add: b0_def making_def fresh_node_def\<close>)
  moreover have "?step b1 b2" unfolding b2_def by (rule set_parent) (simp add: b1_def)
  moreover have "?step b2 (b2\<lparr>unlisted := None, bnode := (bnode b2)\<lparr>interfaces := interfaces (bnode b2) @ [ll]\<rparr>\<rparr>)"
    by (rule push_back) (simp add: b2_def)
  moreover have "b2\<lparr>unlisted := None, bnode := (bnode b2)\<lparr>interfaces := interfaces (bnode b2) @ [ll]\<rparr>\<rparr>
      = making xs (ifs @ [ll])"
    by (simp add: b2_def b1_def b0_def making_def fresh_node_def)
  ultimately show ?thesis by (auto simp: b0_def)
qed

lemma main_makes_links:
  "add_links ai gai (length ifs) lport xs ifs = Inr ifs'
    \<Longrightarrow> (main_step ai gai clock lport)\<^sup>*\<^sup>* (making xs ifs) (making [] ifs')"
proof (induction xs arbitrary: ifs)
  case (Cons x xs)
  then obtain ll ra where ll: "new_link (ai (length ifs)) gai ''localhost'' lport (remote_phys_host x) (remote_phys_port x)
      (local_virt_ip x) (remote_virt_ip x) = Inr (ll, ra)"
    and r: "add_links ai gai (length (ifs @ [ll])) lport xs (ifs @ [ll]) = Inr ifs'" by auto
  from main_makes_link [of ai ifs gai lport x ll ra clock xs, OF ll] Cons.IH [OF r] show ?case by (rule rtranclp_trans)
qed simp

section \<open>Received datagrams\<close>

lemma first_index_map: "first_index P (map f xs) = first_index (\<lambda>x. P (f x)) xs"
  by (induction xs) simp_all

lemma configured_index:
  assumes "map link_static ifs = map configured body"
  shows "first_index (\<lambda>l. remoteport l = p) ifs = first_index (\<lambda>x. remote_phys_port x = p) body"
    and "i < length ifs \<Longrightarrow> vip_local (ifs ! i) = ntohl (local_virt_ip (body ! i))"
proof -
  have "first_index (\<lambda>l. remoteport l = p) ifs = first_index (\<lambda>(a, b, port). port = p) (map link_static ifs)"
    by (simp add: first_index_map link_static_def)
  then show "first_index (\<lambda>l. remoteport l = p) ifs = first_index (\<lambda>x. remote_phys_port x = p) body"
    by (simp add: assms first_index_map configured_def)
  assume i: "i < length ifs"
  have l: "length body = length ifs" using arg_cong [OF assms, of length] by simp
  from arg_cong [OF assms, of "\<lambda>xs. xs ! i"] i l show "vip_local (ifs ! i) = ntohl (local_virt_ip (body ! i))"
    by (simp add: link_static_def configured_def)
qed

text \<open>A whole frame in one datagram.\<close>

definition whole_frame :: "byte list \<Rightarrow> bool" where
  "whole_frame d \<longleftrightarrow> 4 \<le> length d \<and> length d \<le> MAXBUFF \<and> unat (ntohs (word16 (d ! 2) (d ! 3))) \<le> length d"

lemma whole_frame_header:
  assumes "whole_frame d"
  shows "length d \<le> MAXBUFF" and "rd16 d 2 = Inr (htons (ntohs (word16 (d ! 2) (d ! 3))))"
    and "unat (ntohs (word16 (d ! 2) (d ! 3))) \<le> length d"
  using assms by (simp_all add: whole_frame_def rd16_def eval_nat_numeral)

lemma recv_whole_frame:
  assumes "whole_frame d"
  shows "recv_data (Datagram d p # rs) n =
    (case first_index (\<lambda>l. remoteport l = p) (interfaces n) of
       None \<Rightarrow> Inl Out_Of_Bounds
     | Some i \<Rightarrow> Inr (Some (n\<lparr>outgoingqueue := outgoingqueue n
         @ [\<lparr>datalen = length d, rnext = vip_local (interfaces n ! i), ippkt = d\<rparr>]\<rparr>, rs)))"
proof (cases "first_index (\<lambda>l. remoteport l = p) (interfaces n)")
  case None
  then have "p \<notin> remoteport ` set (interfaces n)" by (auto simp: first_index_None)
  from recv_data_unknown_port [OF recv_loop_whole [OF whole_frame_header [OF assms]] this] None
  show ?thesis by simp
next
  case (Some i)
  with recv_data_whole [OF whole_frame_header [OF assms], of n p i rs] first_index_SomeD [OF Some]
  show ?thesis by (simp add: get_interfaceid_with_port_def)
qed

lemma boot_recv_whole:
  assumes "whole_frame d" and "link_parent i b = Some parent"
  shows "boot_recv i (Datagram d p # rs) b = Some (if \<not> parent then Inl Indeterminate
    else bindE (recv_data (Datagram d p # rs) (bnode b)) (\<lambda>res.
      case res of None \<Rightarrow> Inr b
      | Some (n', rs') \<Rightarrow> if iplayer b then Inr (b\<lparr>bnode := n'\<rparr>) else Inl Indeterminate))"
  using recv_loop_whole [OF whole_frame_header [OF assms(1)], of p rs] assms(2) by (simp add: boot_recv_def)

lemma recv_before_network:
  assumes "whole_frame d" and "link_parent i b = Some parent" and "\<not> iplayer b"
  shows "\<exists>f. boot_recv i (Datagram d p # rs) b = Some (Inl f) \<and> f \<in> {Indeterminate, Out_Of_Bounds}"
  using boot_recv_whole [OF assms(1,2), of p rs] recv_whole_frame [OF assms(1), of p rs "bnode b"] assms(3)
  by (auto split: option.splits)

lemma boot_inv_configured:
  assumes "boot_inv info b" and "iplayer b"
  shows "map link_static (interfaces (bnode b)) = map configured (lnx_body info)" and "unlisted b = None"
proof -
  from assms show "unlisted b = None" by (simp add: boot_inv_def)
  moreover have "to_make (stage b) = []" using assms by (cases "stage b") (auto simp: boot_inv_def)
  ultimately show "map link_static (interfaces (bnode b)) = map configured (lnx_body info)"
    using assms by (simp add: boot_inv_def statics_eq)
qed

lemma boot_inv_started:
  assumes "boot_inv info b" and "stage b = Started"
  shows "node_inv (bnode b)" and "statics (bnode b) = map configured (lnx_body info)"
proof -
  from assms have "iplayer b" by (simp add: boot_inv_def)
  from boot_inv_configured [OF assms(1) this] show "statics (bnode b) = map configured (lnx_body info)"
    by (simp add: statics_eq)
  from assms(1) show "node_inv (bnode b)" by (simp add: boot_inv_def)
qed

lemma recv_after_network:
  assumes "boot_inv info b" and "whole_frame d" and "link_parent i b = Some parent" and "iplayer b"
  shows "boot_recv i (Datagram d p # rs) b =
      Some (case first_index (\<lambda>x. remote_phys_port x = p) (lnx_body info) of
        None \<Rightarrow> Inl Out_Of_Bounds
      | Some j \<Rightarrow> Inr (b\<lparr>bnode := (bnode b)\<lparr>outgoingqueue := outgoingqueue (bnode b)
          @ [\<lparr>datalen = length d, rnext = ntohl (local_virt_ip (lnx_body info ! j)), ippkt = d\<rparr>]\<rparr>\<rparr>))"
proof -
  note c = boot_inv_configured [OF assms(1,4)]
  from assms(3) c(2) have "parent" by (auto simp: link_parent_def split: if_splits)
  with boot_recv_whole [OF assms(2,3), of p rs] recv_whole_frame [OF assms(2), of p rs "bnode b"] assms(4)
    configured_index [OF c(1)] first_index_SomeD [of "\<lambda>l. remoteport l = p" "interfaces (bnode b)"]
  show ?thesis by (auto split: option.splits)
qed

text \<open>The message at the head of the outgoing queue is a valid RIP packet that came in on interface \<open>k\<close>.\<close>

definition rip_at_head :: "node \<Rightarrow> bool" where
  "rip_at_head n \<longleftrightarrow> (\<exists>h body k q. outgoingqueue n =
       \<lparr>datalen = 20 + length body, rnext = vip_local (interfaces n ! k), ippkt = iphdr_bytes h @ body\<rparr> # q
     \<and> length body \<le> packet_data_cap \<and> check h = header_sum h \<and> protocol h = RIP_PROTO
     \<and> get_interface (interfaces n) (vip_local (interfaces n ! k)) = Some k \<and> isup (interfaces n ! k))"

lemma out_before_rip:
  "rip_at_head (bnode b) \<Longrightarrow> \<not> riplayer b \<Longrightarrow> boot_out clock b = Some (Inl Indeterminate)"
  by (auto simp: rip_at_head_def boot_out_def process_out_step_def get_bytes_def asks_rip_layer_def rd32_header rd8_header
      rd16_header CSUM_OFFSET_def put_check ip_sum_cleared)

lemma main_alone_complete:
  assumes "add_links ai gai 0 (local_phys_port info) (lnx_body info) [] = Inr ifs"
    and "rip_init clock (fresh_node ifs) = Inr n"
  shows "(main_step ai gai clock (local_phys_port info))\<^sup>*\<^sup>* (boot_start info)
    \<lparr>stage = Started, bnode = n, unlisted = None, iplayer = True, riplayer = True\<rparr>" (is "?step\<^sup>*\<^sup>* _ _")
proof -
  let ?b = "\<lambda>s n r. \<lparr>stage = s, bnode = n, unlisted = None, iplayer = True, riplayer = r\<rparr>"
  have "?step\<^sup>*\<^sup>* (boot_start info) (making [] ifs)"
    using main_makes_links [of ai gai "[]" "local_phys_port info" "lnx_body info" ifs clock] assms(1)
    by (simp add: making_def boot_start_def)
  also have "?step (making [] ifs) (?b Make_Rip (fresh_node ifs) False)"
    using network [of "making [] ifs" ai gai clock] by (simp add: making_def)
  also have "?step (?b Make_Rip (fresh_node ifs) False) (?b Assign_Rip n False)"
    using rip [of "?b Make_Rip (fresh_node ifs) False" clock n ai gai] assms(2) by simp
  also have "?step (?b Assign_Rip n False) (?b Started n True)"
    using assign [of "?b Assign_Rip n False" ai gai clock] by simp
  finally show ?thesis .
qed

section \<open>Properties\<close>

text \<open>
  C33: without datagrams in between, the construction step by step ends in the node that the
  constructor as a function returns, and in no other; and however the threads interleave, a construction
  that comes to its end leaves a node that satisfies the invariant, with the interfaces of the file.
\<close>

theorem startup_is_node_ctor:
  assumes "parse_links file = Inr (Some info)"
  shows "(\<forall>n. (\<exists>b. (main_step ai gai clock (local_phys_port info))\<^sup>*\<^sup>* (boot_start info) b \<and> stage b = Started \<and> bnode b = n)
        \<longleftrightarrow> node_ctor ai gai clock file = Inr n)
    \<and> (\<forall>b. starting ai gai clock info b \<and> stage b = Started \<longrightarrow>
        node_inv (bnode b) \<and> statics (bnode b) = map configured (lnx_body info))"
proof (intro conjI allI iffI impI)
  have e: "node_ctor ai gai clock file = bindE (add_links ai gai 0 (local_phys_port info) (lnx_body info) [])
      (\<lambda>ifs. rip_init clock (fresh_node ifs))"
    using assms by (simp add: node_ctor_def add_interfaces_def)
  fix n
  let ?step = "main_step ai gai clock (local_phys_port info)"
  { assume "\<exists>b. ?step\<^sup>*\<^sup>* (boot_start info) b \<and> stage b = Started \<and> bnode b = n"
    then obtain b where "ctor_state ai gai clock info b" "stage b = Started" "bnode b = n" using main_alone_ctor by blast
    then show "node_ctor ai gai clock file = Inr n" by (simp add: ctor_state_def e Let_def) }
  assume "node_ctor ai gai clock file = Inr n"
  then obtain ifs where "add_links ai gai 0 (local_phys_port info) (lnx_body info) [] = Inr ifs"
    and "rip_init clock (fresh_node ifs) = Inr n" by (auto simp: e)
  from main_alone_complete [OF this] show "\<exists>b. ?step\<^sup>*\<^sup>* (boot_start info) b \<and> stage b = Started \<and> bnode b = n"
    by (intro exI [of _ "\<lparr>stage = Started, bnode = n, unlisted = None, iplayer = True, riplayer = True\<rparr>"]) simp
next
  fix b assume "starting ai gai clock info b \<and> stage b = Started"
  then have "boot_inv info b" "stage b = Started" by (auto dest: starting_inv)
  then show "node_inv (bnode b)" "statics (bnode b) = map configured (lnx_body info)" by (rule boot_inv_started)+
qed

text \<open>
  A whole frame that arrives before \<open>_iplayer\<close> is assigned, on any thread of a link, makes the program
  go through an uninitialised pointer or index \<open>_interfaces\<close> with -1, and a valid RIP message processed before
  \<open>_riplayer\<close> is assigned goes through an uninitialised pointer too.  Once \<open>_iplayer\<close> is assigned every
  interface of the file is in place, and the frame is attributed as in the finished node.
\<close>

theorem startup_receive:
  assumes "starting ai gai clock info b" and "link_parent i b = Some parent" and "whole_frame d"
  shows "(\<not> iplayer b \<longrightarrow> (\<exists>f. boot_recv i (Datagram d p # rs) b = Some (Inl f) \<and> f \<in> {Indeterminate, Out_Of_Bounds}))
    \<and> (iplayer b \<longrightarrow> boot_recv i (Datagram d p # rs) b =
        Some (case first_index (\<lambda>x. remote_phys_port x = p) (lnx_body info) of
          None \<Rightarrow> Inl Out_Of_Bounds
        | Some j \<Rightarrow> Inr (b\<lparr>bnode := (bnode b)\<lparr>outgoingqueue := outgoingqueue (bnode b)
            @ [\<lparr>datalen = length d, rnext = ntohl (local_virt_ip (lnx_body info ! j)), ippkt = d\<rparr>]\<rparr>\<rparr>)))
    \<and> (rip_at_head (bnode b) \<and> \<not> riplayer b \<longrightarrow> boot_out clock' b = Some (Inl Indeterminate))"
  using recv_before_network [OF assms(3,2)] recv_after_network [OF starting_inv [OF assms(1)] assms(3,2)] out_before_rip
  by (intro conjI impI) simp_all

text \<open>Node A: no link made yet, its only link made but without \<open>_parent\<close>, and the finished node.\<close>

definition A_info :: lnxinfo where
  "A_info = \<lparr>local_phys_port = 17000, num_links = 1, lnx_body = A_body\<rparr>"

definition A_boot :: boot where
  "A_boot = (boot_start A_info)\<lparr>stage := Make_Links [], unlisted := Some (A_ifs ! 0, False)\<rparr>"

lemma starting_A: "starting (\<lambda>_. Some [Binds 3]) loopback (\<lambda>_. at_sec 100) A_info A_boot"
proof -
  obtain ra where "new_link (Some [Binds 3]) loopback ''localhost'' 17000 ''localhost'' 17001 (htonl 0x0A000001) (htonl 0x0A00000E)
      = Inr (A_ifs ! 0, ra)"
    using new_link_A by blast
  then have "main_step (\<lambda>_. Some [Binds 3]) loopback (\<lambda>_. at_sec 100) (local_phys_port A_info) (boot_start A_info) A_boot"
    using construct [of "boot_start A_info" "A_body ! 0" "[]" "\<lambda>_. Some [Binds 3]" loopback 17000 "A_ifs ! 0" ra "\<lambda>_. at_sec 100"]
    by (simp add: boot_start_def A_info_def A_body_def A_boot_def)
  with starting.begins show ?thesis by (rule starting.by_main)
qed

theorem startup_is_node_ctor_witness:
  "\<exists>b. (main_step (\<lambda>_. Some [Binds 3]) loopback (\<lambda>_. at_sec 100) 17000)\<^sup>*\<^sup>* (boot_start A_info) b
     \<and> stage b = Started \<and> bnode b = A_start"
proof -
  have p: "parse_links (Some A_lnx) = Inr (Some A_info)" by (simp add: parse_A_lnx A_info_def)
  from startup_is_node_ctor [OF p, of "\<lambda>_. Some [Binds 3]" loopback "\<lambda>_. at_sec 100"] node_ctor_A show ?thesis
    by (simp add: A_info_def)
qed

theorem startup_receive_witness:
  "\<exists>f. boot_recv 0 [Datagram [0x45, 0, 0, 4] 17001] A_boot = Some (Inl f) \<and> f \<in> {Indeterminate, Out_Of_Bounds}"
proof -
  have p: "link_parent 0 A_boot = Some False" by (simp add: link_parent_def A_boot_def boot_start_def fresh_node_def)
  have w: "whole_frame [0x45, 0, 0, 4]"
    by (simp add: whole_frame_def MAXBUFF_def ntohs_def) (simp add: word16_nat)
  have i: "\<not> iplayer A_boot" by (simp add: A_boot_def boot_start_def)
  from startup_receive [OF starting_A p w, of 17001 "[]"] i show ?thesis by blast
qed

end
