(* ===== verification/Deployment.thy ===== *)
theory Deployment
  imports End_To_End Startup
begin

text \<open>
  From the configuration files to a delivered packet: the nodes of a set of \<open>.lnx\<close> files as
  \<open>Node::Node\<close> constructs them, one process each, form a network of \<open>Rip_Network\<close>; when the files fit together
  the network comes to know every address and carries packets to it.  The conditions are on the text of
  the files and on what the sockets and the resolver return.
\<close>

section \<open>Files that fit together\<close>

definition file_addrs :: "lnxinfo \<Rightarrow> u32 list" where
  "file_addrs c = map (\<lambda>b. ntohl (local_virt_ip b)) (lnx_body c)"

text \<open>The link of file \<open>c\<close> to the node of file \<open>c'\<close>, which the code finds by the port alone.\<close>

definition names :: "lnxinfo \<Rightarrow> lnxinfo \<Rightarrow> bool" where
  "names c c' \<longleftrightarrow> list_ex (\<lambda>b. remote_phys_port b = local_phys_port c') (lnx_body c)"

definition consistent :: "lnxinfo list \<Rightarrow> bool" where
  "consistent cs \<longleftrightarrow> distinct (map local_phys_port cs)
     \<and> list_all (\<lambda>c. distinct (file_addrs c)) cs
     \<and> list_all (\<lambda>c. list_all (\<lambda>c'. names c c' \<longrightarrow> names c' c) cs) cs
     \<and> length (remdups (concat (map file_addrs cs))) \<le> MAX_ENTRIES"

text \<open>Address \<open>a\<close> belongs to a node at most \<open>r\<close> links away from node \<open>i\<close>.\<close>

fun within :: "nat \<Rightarrow> lnxinfo list \<Rightarrow> nat \<Rightarrow> u32 \<Rightarrow> bool" where
  "within 0 cs i a \<longleftrightarrow> a \<in> set (file_addrs (cs ! i))"
| "within (Suc r) cs i a \<longleftrightarrow> a \<in> set (file_addrs (cs ! i))
     \<or> list_ex (\<lambda>j. names (cs ! i) (cs ! j) \<and> within r cs j a) [0..<length cs]"

section \<open>Construction\<close>

text \<open>What the constructor of the node relies on: the socket of every link opens, every remote host resolves.\<close>

definition opens :: "attempt list option \<Rightarrow> bool" where
  "opens a \<longleftrightarrow> (case create_socket a of Inr (fd, fds) \<Rightarrow> fd \<noteq> -1 | Inl f \<Rightarrow> False)"

definition resolves :: "resolver \<Rightarrow> lnxbody \<Rightarrow> bool" where
  "resolves gai b \<longleftrightarrow> gai (remote_phys_host b) (decimal (unat (remote_phys_port b))) \<noteq> None"

lemma new_link_ok:
  assumes "opens a" and "ipv4_resolver gai" and "resolves gai b"
  shows "\<exists>l ra. new_link a gai lip lport (remote_phys_host b) (remote_phys_port b) (local_virt_ip b) (remote_virt_ip b)
    = Inr (l, ra) \<and> fresh_link l \<and> idle_link l \<and> link_static l = configured b"
proof -
  obtain fd fds where c: "create_socket a = Inr (fd, fds)" "fd \<noteq> -1"
    using assms(1) by (auto simp: opens_def split: sum.splits)
  let ?gs = "gai (remote_phys_host b) (decimal (unat (remote_phys_port b)))"
  obtain ais where g: "?gs = Some ais" using assms(3) by (auto simp: resolves_def)
  then have a: "ais \<noteq> []" "\<forall>a \<in> set ais. length (sa_data (ai_addr a)) = 14"
    using assms(2) unfolding ipv4_resolver_def by blast+
  then obtain x xs where ais: "ais = x # xs" "length (sa_data (ai_addr x)) = 14" by (cases ais) auto
  show ?thesis
    using c g ais decimal_port_length [of "remote_phys_port b"]
    by (simp add: new_link_def set_remote_address_def fits_def get_bytes_def fresh_link_def idle_link_def link_static_def
        configured_def)
qed

lemma add_links_ok:
  assumes "ipv4_resolver gai" and "\<forall>k < length links. opens (ai (i + k)) \<and> resolves gai (links ! k)"
  shows "\<exists>ls. add_links ai gai i lport links ifs = Inr (ifs @ ls) \<and> list_all fresh_link ls \<and> list_all idle_link ls
    \<and> map link_static ls = map configured links"
  using assms(2)
proof (induction links arbitrary: i ifs)
  case (Cons b links)
  have b: "opens (ai i)" "resolves gai b" using Cons.prems [rule_format, of 0] by simp_all
  from new_link_ok [OF b(1) assms(1) b(2)] obtain l ra where
    l: "new_link (ai i) gai ''localhost'' lport (remote_phys_host b) (remote_phys_port b) (local_virt_ip b) (remote_virt_ip b)
      = Inr (l, ra)" "fresh_link l" "idle_link l" "link_static l = configured b" by blast
  have "\<forall>k < length links. opens (ai (Suc i + k)) \<and> resolves gai (links ! k)"
    using Cons.prems by (metis Suc_less_eq add_Suc_shift length_Cons nth_Cons_Suc)
  from Cons.IH [OF this, of "ifs @ [l]"] obtain ls where
    "add_links ai gai (Suc i) lport links (ifs @ [l]) = Inr (ifs @ l # ls)" "list_all fresh_link ls" "list_all idle_link ls"
    "map link_static ls = map configured links" by auto
  with l show ?case by (intro exI [of _ "l # ls"]) simp
qed simp

lemma my_addrs_file:
  assumes "map link_static ifs = map configured (lnx_body c)"
  shows "my_addrs ifs = set (file_addrs c)" and "map vip_local ifs = file_addrs c"
proof -
  have a: "map vip_local ifs = map fst (map link_static ifs)" by (simp add: link_static_def)
  have b: "file_addrs c = map fst (map configured (lnx_body c))" by (simp add: file_addrs_def configured_def)
  show v: "map vip_local ifs = file_addrs c" unfolding a b assms ..
  have "my_addrs ifs = set (map vip_local ifs)" by (simp add: my_addrs_def)
  then show "my_addrs ifs = set (file_addrs c)" unfolding v .
qed

lemma init_loop_addrs: "fst ` set (init_loop clock t ls rt) \<subseteq> my_addrs ls \<union> fst ` set rt"
proof (induction ls arbitrary: t rt)
  case (Cons l ls)
  let ?rt = "map_assign (vip_local l) (own_entry (clock t) (vip_local l)) rt"
  have "fst ` set ?rt \<subseteq> insert (vip_local l) (fst ` set rt)"
    using image_mono [OF set_map_assign, of fst] by simp
  with Cons.IH [of "Suc t" ?rt] show ?case by (simp add: my_addrs_def) blast
qed simp

lemma rip_init_ok:
  assumes "card (my_addrs ifs) \<le> MAX_ENTRIES"
  shows "\<exists>n. rip_init clock (fresh_node ifs) = Inr n \<and> interfaces n = ifs \<and> outgoingqueue n = [] \<and> timerQueue n = []
    \<and> console n = []"
proof -
  let ?rt = "init_loop clock 0 ifs []"
  have "rt_inv ifs ?rt" by (rule init_loop_inv [OF rt_inv_empty subset_refl])
  then have "distinct (map fst ?rt)" by (simp add: rt_inv_def map_invar_def)
  then have "length ?rt = card (fst ` set ?rt)" by (metis distinct_card length_map set_map)
  also have "\<dots> \<le> card (my_addrs ifs)"
    using init_loop_addrs [of clock 0 ifs "[]"] by (intro card_mono) (simp_all add: my_addrs_def)
  finally have "length ?rt \<le> MAX_ENTRIES" using assms by simp
  then show ?thesis by (simp add: rip_init_def fresh_node_def prepare_msg_eq)
qed

text \<open>The node of one file.\<close>

definition made_from :: "(nat \<Rightarrow> timeval) \<Rightarrow> lnxinfo \<Rightarrow> node \<Rightarrow> bool" where
  "made_from clock c n \<longleftrightarrow> rip_init clock (fresh_node (interfaces n)) = Inr n
     \<and> list_all fresh_link (interfaces n) \<and> list_all idle_link (interfaces n)
     \<and> map link_static (interfaces n) = map configured (lnx_body c)
     \<and> outgoingqueue n = [] \<and> timerQueue n = [] \<and> console n = []"

lemma node_ctor_ok:
  assumes "parse_links file = Inr (Some c)" and "ipv4_resolver gai"
    and "\<forall>k < length (lnx_body c). opens (ai k) \<and> resolves gai (lnx_body c ! k)"
    and "card (set (file_addrs c)) \<le> MAX_ENTRIES"
  shows "\<exists>n. node_ctor ai gai clock file = Inr n \<and> made_from clock c n"
proof -
  from add_links_ok [OF assms(2), of "lnx_body c" ai 0 "local_phys_port c" "[]"] assms(3) obtain ls where
    ls: "add_links ai gai 0 (local_phys_port c) (lnx_body c) [] = Inr ls" "list_all fresh_link ls" "list_all idle_link ls"
      "map link_static ls = map configured (lnx_body c)" by auto
  have "card (my_addrs ls) \<le> MAX_ENTRIES" using assms(4) my_addrs_file(1) [OF ls(4)] by simp
  from rip_init_ok [OF this, of clock] ls assms(1) show ?thesis
    by (auto simp: node_ctor_def add_interfaces_def made_from_def)
qed

section \<open>The network of a set of files\<close>

definition topology_of :: "lnxinfo list \<Rightarrow> node list \<Rightarrow> topology" where
  "topology_of cs ns = zip (map local_phys_port cs) (map interfaces ns)"

definition deployed :: "(nat \<Rightarrow> nat \<Rightarrow> timeval) \<Rightarrow> lnxinfo list \<Rightarrow> node list \<Rightarrow> bool" where
  "deployed clocks cs ns \<longleftrightarrow> length ns = length cs \<and> (\<forall>i < length cs. made_from (clocks i) (cs ! i) (ns ! i))"

lemma topology_of_nth:
  assumes "deployed clocks cs ns"
  shows "length (topology_of cs ns) = length cs"
    and "i < length cs \<Longrightarrow> topology_of cs ns ! i = (local_phys_port (cs ! i), interfaces (ns ! i))"
    and "map fst (topology_of cs ns) = map local_phys_port cs"
    and "i < length cs \<Longrightarrow> my_addrs (snd (topology_of cs ns ! i)) = set (file_addrs (cs ! i))"
    and "i < length cs \<Longrightarrow> map vip_local (snd (topology_of cs ns ! i)) = file_addrs (cs ! i)"
proof -
  show l: "length (topology_of cs ns) = length cs" and t: "i < length cs \<Longrightarrow>
      topology_of cs ns ! i = (local_phys_port (cs ! i), interfaces (ns ! i))" for i
    using assms by (simp_all add: deployed_def topology_of_def)
  show "map fst (topology_of cs ns) = map local_phys_port cs"
    using assms by (simp add: deployed_def topology_of_def)
  show "i < length cs \<Longrightarrow> my_addrs (snd (topology_of cs ns ! i)) = set (file_addrs (cs ! i))"
    "i < length cs \<Longrightarrow> map vip_local (snd (topology_of cs ns ! i)) = file_addrs (cs ! i)"
    using assms my_addrs_file t by (simp_all add: deployed_def made_from_def)
qed

lemma names_ports: "names c c' \<longleftrightarrow> local_phys_port c' \<in> set (map (snd \<circ> snd) (map configured (lnx_body c)))"
  by (force simp: names_def list_ex_iff configured_def)

lemma faces_file:
  assumes "deployed clocks cs ns" and "i < length cs"
  shows "(\<exists>x. faces (topology_of cs ns) i x j) \<longleftrightarrow> j < length cs \<and> names (cs ! i) (cs ! j)"
proof -
  have "map link_static (interfaces (ns ! i)) = map configured (lnx_body (cs ! i))"
    using assms by (simp add: deployed_def made_from_def)
  then have "names (cs ! i) (cs ! j) \<longleftrightarrow> local_phys_port (cs ! j) \<in> set (map (snd \<circ> snd) (map link_static (interfaces (ns ! i))))"
    by (simp only: names_ports)
  moreover have "set (map (snd \<circ> snd) (map link_static ls)) = remoteport ` set ls" for ls
    by (simp add: link_static_def comp_def)
  ultimately have "names (cs ! i) (cs ! j) \<longleftrightarrow> local_phys_port (cs ! j) \<in> remoteport ` set (interfaces (ns ! i))"
    by (simp only:)
  also have "\<dots> \<longleftrightarrow> (\<exists>l \<in> set (interfaces (ns ! i)). remoteport l = local_phys_port (cs ! j))"
    by (auto simp: image_iff intro: sym)
  finally have n: "names (cs ! i) (cs ! j) \<longleftrightarrow> (\<exists>l \<in> set (interfaces (ns ! i)). remoteport l = local_phys_port (cs ! j))" .
  have "(\<exists>x. faces (topology_of cs ns) i x j)
    \<longleftrightarrow> j < length cs \<and> (\<exists>l \<in> set (interfaces (ns ! i)). remoteport l = fst (topology_of cs ns ! j))"
    using topology_of_nth(1,2) [OF assms(1)] assms(2) unfolding faces_def by auto
  then show ?thesis using n topology_of_nth(2) [OF assms(1), of j] by auto
qed

lemma within_path:
  assumes "deployed clocks cs ns"
  shows "i < length cs \<Longrightarrow> within r cs i a \<Longrightarrow> \<exists>c \<le> r. path (topology_of cs ns) i a c"
proof (induction r arbitrary: i)
  case 0
  with topology_of_nth(1,4) [OF assms] show ?case by (auto intro: path_own)
next
  case (Suc r)
  note t = topology_of_nth(1,4) [OF assms]
  show ?case
  proof (cases "a \<in> set (file_addrs (cs ! i))")
    case True
    with Suc.prems(1) t have "path (topology_of cs ns) i a 0" by (auto intro: path_own)
    then show ?thesis by blast
  next
    case False
    with Suc.prems(2) obtain j where j: "j < length cs" "names (cs ! i) (cs ! j)" "within r cs j a"
      by (auto simp: list_ex_iff)
    from Suc.IH [OF j(1,3)] obtain c where "c \<le> r" "path (topology_of cs ns) j a c" by blast
    moreover obtain x where "faces (topology_of cs ns) i x j" using faces_file [OF assms Suc.prems(1)] j by blast
    ultimately show ?thesis using path_hop [of i "topology_of cs ns" x j a c] Suc.prems(1) t(1) by auto
  qed
qed

lemma consistent_wired:
  assumes "deployed clocks cs ns" and "consistent cs"
  shows "well_wired (topology_of cs ns)"
proof -
  let ?topo = "topology_of cs ns"
  note t = topology_of_nth [OF assms(1)]
  have m: "\<exists>i < length cs. p = ?topo ! i" if "p \<in> set ?topo" for p using that t(1) by (metis in_set_conv_nth)
  have "distinct (map vip_local (snd p)) \<and> (\<forall>l \<in> set (snd p). fresh_link l)" if p: "p \<in> set ?topo" for p
  proof -
    from m [OF p] obtain i where i: "i < length cs" "p = ?topo ! i" by blast
    moreover have "distinct (file_addrs (cs ! i))" using assms(2) i(1) by (simp add: consistent_def list_all_length)
    moreover have "\<forall>l \<in> set (interfaces (ns ! i)). fresh_link l"
      using assms(1) i(1) by (simp add: deployed_def made_from_def list_all_iff)
    ultimately show ?thesis using t(2,5) by simp
  qed
  moreover have "\<exists>y. faces ?topo j y i" if i: "i < length ?topo" "faces ?topo i x j" for i x j
  proof -
    from i t(1) faces_file [OF assms(1)] have "i < length cs" "j < length cs" "names (cs ! i) (cs ! j)" by auto
    then show ?thesis using faces_file [OF assms(1)] assms(2) by (auto simp: consistent_def list_all_length)
  qed
  moreover have "card (all_addrs ?topo) \<le> MAX_ENTRIES"
  proof -
    have "my_addrs (snd p) \<subseteq> set (concat (map file_addrs cs))" if "p \<in> set ?topo" for p
      using m [OF that] t(4) by fastforce
    then have "all_addrs ?topo \<subseteq> set (remdups (concat (map file_addrs cs)))" by (fastforce simp: all_addrs_def)
    then have "card (all_addrs ?topo) \<le> card (set (remdups (concat (map file_addrs cs))))" by (rule card_mono [rotated]) simp
    also have "\<dots> \<le> length (remdups (concat (map file_addrs cs)))" by (rule card_length)
    finally show ?thesis using assms(2) by (simp add: consistent_def)
  qed
  ultimately show ?thesis using t(3) assms(2) unfolding well_wired_def by (simp add: consistent_def)
qed

section \<open>A complete round\<close>

text \<open>All hops of a network, in the order of their sender.\<close>

definition all_hops :: "topology \<Rightarrow> hop list" where
  "all_hops topo = (let nodes = [0..<length topo]; links = [0..<sum_list (map (\<lambda>p. length (snd p)) topo)]
     in filter (wired topo) (List.product nodes (List.product links (List.product nodes links))))"

lemma all_hops_wired: "h \<in> set (all_hops topo) \<longleftrightarrow> wired topo h"
proof
  assume h: "wired topo h"
  obtain j k i m where x: "h = (j, k, i, m)" by (metis prod_cases3)
  have "length (snd (topo ! j)) \<le> sum_list (map (\<lambda>p. length (snd p)) topo)" if "j < length topo" for j
    using that member_le_sum_list [of "length (snd (topo ! j))" "map (\<lambda>p. length (snd p)) topo"] by simp
  from less_le_trans [OF _ this] h have
    "k < sum_list (map (\<lambda>p. length (snd p)) topo)" "m < sum_list (map (\<lambda>p. length (snd p)) topo)" by (auto simp: x)
  with h show "h \<in> set (all_hops topo)" unfolding all_hops_def Let_def x by simp
qed (simp add: all_hops_def Let_def)

lemma all_hops_complete: "well_wired topo \<Longrightarrow> complete_round topo (all_hops topo)"
  using faces_wired all_hops_wired unfolding complete_round_def by blast

lemma deliverable:
  assumes "well_wired topo" and "net_run S topo N" and "resting topo N"
    and "\<forall>n \<in> set (net_nodes N). list_all isup (interfaces n)"
    and "(i, dest, proto, data) \<in> S" and "proto \<noteq> RIP_PROTO" and "length data \<le> 1004" and "0 \<notin> set data"
    and "path topo i (ntohl dest) c" and "c \<le> 16" and "ntohl dest \<notin> my_addrs (snd (topo ! i))"
  shows "\<exists>N' t iid s p ls. (net_step S topo)\<^sup>*\<^sup>* N N' \<and> t < length topo \<and> ntohl dest \<in> my_addrs (snd (topo ! t))
    \<and> s \<in> my_addrs (snd (topo ! i)) \<and> p \<in> {proto, 255}
    \<and> console (net_nodes N' ! t) = ls @ [Received_Packet iid (htonl s) dest p (int (length data)) data]"
proof -
  define c0 where "c0 = (LEAST c. path topo i (ntohl dest) c)"
  have p: "path topo i (ntohl dest) c0" "\<forall>c'. path topo i (ntohl dest) c' \<longrightarrow> c0 \<le> c'"
    unfolding c0_def using assms(9) by (blast intro: LeastI Least_le)+
  then have "c0 \<le> 16" using assms(9,10) by force
  moreover have "0 < c0" using p(1) assms(11) by (cases c0) (auto elim: path_0E)
  moreover have "\<forall>hs \<in> set (replicate 16 (all_hops topo)). complete_round topo hs"
    using all_hops_complete [OF assms(1)] by simp
  ultimately obtain N1 N2 t iid s where "(net_step S topo)\<^sup>*\<^sup>* N N1" "(net_step S topo)\<^sup>*\<^sup>* N1 N2" "t < length topo"
    "ntohl dest \<in> my_addrs (snd (topo ! t))" "s \<in> my_addrs (snd (topo ! i))"
    "console (net_nodes N2 ! t) = console (net_nodes N1 ! t)
        @ [Received_Packet iid (htonl s) dest (if c0 = 1 then proto else 255) (int (length data)) data]"
    using rounds_deliver [OF assms(1-4) _ assms(5-8) p, of "replicate 16 (all_hops topo)" "\<lambda>_ _. at_sec 0"] by auto
  moreover have "(if c0 = 1 then proto else 255) \<in> {proto, 255}" by simp
  moreover note rtranclp_trans [OF calculation(1,2)]
  ultimately show ?thesis by blast
qed

section \<open>From the files to the first delivery\<close>

lemma files_make_nodes:
  assumes "consistent cs" and "ipv4_resolver gai"
    and "\<forall>i < length cs. parse_links (files i) = Inr (Some (cs ! i))"
    and "\<forall>i < length cs. \<forall>k < length (lnx_body (cs ! i)). opens (ai i k) \<and> resolves gai (lnx_body (cs ! i) ! k)"
  shows "\<exists>ns. (\<forall>i < length cs. node_ctor (ai i) gai (clocks i) (files i) = Inr (ns ! i)) \<and> deployed clocks cs ns"
proof -
  have "\<exists>n. node_ctor (ai i) gai (clocks i) (files i) = Inr n \<and> made_from (clocks i) (cs ! i) n" if i: "i < length cs" for i
  proof (rule node_ctor_ok)
    have "set (file_addrs (cs ! i)) \<subseteq> set (remdups (concat (map file_addrs cs)))" using nth_mem [OF i] by auto
    then have "card (set (file_addrs (cs ! i))) \<le> card (set (remdups (concat (map file_addrs cs))))"
      by (rule card_mono [rotated]) simp
    also have "\<dots> \<le> length (remdups (concat (map file_addrs cs)))" by (rule card_length)
    finally show "card (set (file_addrs (cs ! i))) \<le> MAX_ENTRIES" using assms(1) by (simp add: consistent_def)
  qed (use assms i in auto)
  then obtain f where f: "\<And>i. i < length cs \<Longrightarrow> node_ctor (ai i) gai (clocks i) (files i) = Inr (f i)
      \<and> made_from (clocks i) (cs ! i) (f i)" by metis
  then show ?thesis by (intro exI [of _ "map f [0..<length cs]"]) (simp add: deployed_def)
qed

lemma deployed_starts:
  assumes "deployed clocks cs ns"
  shows "net_run S (topology_of cs ns) \<lparr>net_nodes = ns, net_sent = []\<rparr>"
    and "draining (topology_of cs ns) \<lparr>net_nodes = ns, net_sent = []\<rparr>"
    and "\<forall>n \<in> set ns. list_all isup (interfaces n)"
proof -
  note t = topology_of_nth(1,2) [OF assms]
  have m: "made_from (clocks i) (cs ! i) (ns ! i)" if "i < length cs" for i using assms that by (simp add: deployed_def)
  have l: "length ns = length cs" using assms by (simp add: deployed_def)
  have n: "\<exists>i < length cs. n = ns ! i" if "n \<in> set ns" for n using that l by (metis in_set_conv_nth)
  have "\<forall>l \<in> set (snd p). fresh_link l" if "p \<in> set (topology_of cs ns)" for p
  proof -
    from that t(1) obtain i where "i < length cs" "p = topology_of cs ns ! i" by (metis in_set_conv_nth)
    with t(2) m [of i] show ?thesis by (simp add: made_from_def list_all_iff)
  qed
  then have "\<forall>p \<in> set (topology_of cs ns). \<forall>l \<in> set (snd p). fresh_link l" by blast
  then show "net_run S (topology_of cs ns) \<lparr>net_nodes = ns, net_sent = []\<rparr>"
    by (rule net_start [where clocks = clocks]) (use t l m in \<open>simp_all add: made_from_def\<close>)
  show "draining (topology_of cs ns) \<lparr>net_nodes = ns, net_sent = []\<rparr>"
    using t m by (simp add: draining_def made_from_def)
  show "\<forall>n \<in> set ns. list_all isup (interfaces n)"
    using n m by (fastforce simp: made_from_def list_all_iff fresh_link_def)
qed

section \<open>Properties\<close>

text \<open>
  C1: from the files to a delivery.  For a set of files that parse and fit together (distinct ports, distinct addresses
  within a file, links named at both ends, at most 64 addresses), on hosts where the sockets open and the names
  resolve, every process constructs its node, the nodes form a start state of the network, and from it the
  threads can take a payload of a user (at most 1004 bytes, no NUL among them, protocol not 200) to any address, not one
  of the sender's own, at most 16 links away, whose owner prints it.
\<close>

theorem files_to_delivery:
  assumes "consistent cs" and "ipv4_resolver gai"
    and "\<forall>i < length cs. parse_links (files i) = Inr (Some (cs ! i))"
    and "\<forall>i < length cs. \<forall>k < length (lnx_body (cs ! i)). opens (ai i k) \<and> resolves gai (lnx_body (cs ! i) ! k)"
    and "i < length cs" and "(i, dest, proto, data) \<in> S" and "proto \<noteq> RIP_PROTO" and "length data \<le> 1004" and "0 \<notin> set data"
    and "within 16 cs i (ntohl dest)" and "ntohl dest \<notin> set (file_addrs (cs ! i))"
  shows "\<exists>ns N t iid s p ls. (\<forall>j < length cs. node_ctor (ai j) gai (clocks j) (files j) = Inr (ns ! j))
    \<and> net_run S (topology_of cs ns) \<lparr>net_nodes = ns, net_sent = []\<rparr>
    \<and> (net_step S (topology_of cs ns))\<^sup>*\<^sup>* \<lparr>net_nodes = ns, net_sent = []\<rparr> N
    \<and> t < length cs \<and> ntohl dest \<in> set (file_addrs (cs ! t)) \<and> s \<in> set (file_addrs (cs ! i)) \<and> p \<in> {proto, 255}
    \<and> console (net_nodes N ! t) = ls @ [Received_Packet iid (htonl s) dest p (int (length data)) data]"
proof -
  obtain ns where ns: "\<forall>j < length cs. node_ctor (ai j) gai (clocks j) (files j) = Inr (ns ! j)" and d: "deployed clocks cs ns"
    using files_make_nodes [OF assms(1-4)] by blast
  let ?topo = "topology_of cs ns" and ?N = "\<lparr>net_nodes = ns, net_sent = []\<rparr>"
  note t = topology_of_nth [OF d]
  note st = deployed_starts [OF d]
  obtain N1 where N1: "(net_step S ?topo)\<^sup>*\<^sup>* ?N N1" "net_run S ?topo N1" "resting ?topo N1"
    "\<forall>n \<in> set (net_nodes N1). list_all isup (interfaces n)"
    using drain_up [OF st(1) [of S] st(2)] st(3) by auto
  obtain c where c: "c \<le> 16" "path ?topo i (ntohl dest) c" using within_path [OF d assms(5,10)] by blast
  have o: "ntohl dest \<notin> my_addrs (snd (?topo ! i))" using t(4) assms(5,11) by simp
  from deliverable [OF consistent_wired [OF d assms(1)] N1(2-4) assms(6-9) c(2,1) o] obtain N2 u iid s p ls where
    "(net_step S ?topo)\<^sup>*\<^sup>* N1 N2" "u < length cs" "ntohl dest \<in> set (file_addrs (cs ! u))"
    "s \<in> set (file_addrs (cs ! i))" "p \<in> {proto, 255}"
    "console (net_nodes N2 ! u) = ls @ [Received_Packet iid (htonl s) dest p (int (length data)) data]"
    unfolding t(1) using t(4) assms(5) by metis
  with rtranclp_trans [OF N1(1)] ns st(1) show ?thesis by blast
qed

section \<open>The files of \<open>src/nets/routeAggregation/tree\<close>\<close>

definition local_link :: "u16 \<Rightarrow> u32 \<Rightarrow> u32 \<Rightarrow> lnxbody" where
  "local_link port lv rv = \<lparr>remote_phys_host = ''localhost'', remote_phys_port = port, local_virt_ip = lv,
     remote_virt_ip = rv\<rparr>"

definition local_file :: "u16 \<Rightarrow> lnxbody list \<Rightarrow> lnxinfo" where
  "local_file port body = \<lparr>local_phys_port = port, num_links = of_nat (length body), lnx_body = body\<rparr>"

definition tree_cs :: "lnxinfo list" where
  "tree_cs =
    [local_file 17000 [local_link 17001 (word32 10 0 0 1) (word32 10 0 0 14)],
     local_file 17001 [local_link 17000 (word32 10 0 0 14) (word32 10 0 0 1), local_link 17002 (word32 10 0 0 9) (word32 10 0 0 10)],
     local_file 17002 [local_link 17001 (word32 10 0 0 10) (word32 10 0 0 9), local_link 17003 (word32 10 0 1 1) (word32 10 0 1 2),
       local_link 17004 (word32 10 0 0 6) (word32 10 0 0 5)],
     local_file 17003 [local_link 17002 (word32 10 0 0 80) (word32 10 0 0 79)],
     local_file 17004 [local_link 17002 (word32 10 0 0 5) (word32 10 0 0 6)]]"

definition tree_lnx :: "string list" where
  "tree_lnx = map (\<lambda>ls. concat (map (\<lambda>l. l @ [NL]) ls))
    [[''localhost 17000'', ''localhost 17001 10.0.0.1 10.0.0.14''],
     [''localhost 17001'', ''localhost 17000 10.0.0.14 10.0.0.1'', ''localhost 17002 10.0.0.9 10.0.0.10''],
     [''localhost 17002'', ''localhost 17001 10.0.0.10 10.0.0.9'', ''localhost 17003 10.0.1.1 10.0.1.2'',
      ''localhost 17004 10.0.0.6 10.0.0.5''],
     [''localhost 17003'', ''localhost 17002 10.0.0.80 10.0.0.79''],
     [''localhost 17004'', ''localhost 17002 10.0.0.5 10.0.0.6'']]"

lemma inet_ntop_word32: "inet_ntop (word32 a b c d)
    = decimal (unat a) @ ''.'' @ decimal (unat b) @ ''.'' @ decimal (unat c) @ ''.'' @ decimal (unat d)"
  by (simp add: inet_ntop_def)

lemma tree_lnx_text: "map (\<lambda>c. config_text ''localhost'' (local_phys_port c) (lnx_body c)) tree_cs = tree_lnx"
proof -
  have p: "decimal 17000 = ''17000''" "decimal 17001 = ''17001''" "decimal 17002 = ''17002''" "decimal 17003 = ''17003''"
    "decimal 17004 = ''17004''"
    by (simp_all add: decimal.simps digit_chars)
  have d: "decimal 0 = ''0''" "decimal (Suc 0) = ''1''" "decimal 2 = ''2''" "decimal 5 = ''5''" "decimal 6 = ''6''"
    "decimal 9 = ''9''" "decimal 10 = ''10''" "decimal 14 = ''14''" "decimal 79 = ''79''" "decimal 80 = ''80''"
    by (simp_all add: decimal.simps digit_chars)
  show ?thesis
    by (simp add: tree_cs_def tree_lnx_def local_file_def local_link_def config_text_def link_text_def inet_ntop_word32 p d)
qed

lemma parse_tree:
  assumes "i < length tree_cs"
  shows "parse_links (Some (tree_lnx ! i)) = Inr (Some (tree_cs ! i))"
proof -
  have g: "\<forall>c \<in> set tree_cs. c = local_file (local_phys_port c) (lnx_body c) \<and> (\<forall>b \<in> set (lnx_body c). good_host (remote_phys_host b))"
    using good_localhost by (simp add: tree_cs_def local_file_def local_link_def)
  have "tree_lnx ! i = config_text ''localhost'' (local_phys_port (tree_cs ! i)) (lnx_body (tree_cs ! i))"
    using assms by (simp flip: tree_lnx_text)
  with g nth_mem [OF assms] parse_config_text [OF good_localhost] show ?thesis by (metis local_file_def)
qed

lemma tree_addrs:
  "map file_addrs tree_cs = [[0x0A000001], [0x0A00000E, 0x0A000009], [0x0A00000A, 0x0A000101, 0x0A000006], [0x0A000050], [0x0A000005]]"
proof -
  have n: "ntohl (word32 10 0 0 1) = 0x0A000001" "ntohl (word32 10 0 0 14) = 0x0A00000E" "ntohl (word32 10 0 0 9) = 0x0A000009"
    "ntohl (word32 10 0 0 10) = 0x0A00000A" "ntohl (word32 10 0 1 1) = 0x0A000101" "ntohl (word32 10 0 0 6) = 0x0A000006"
    "ntohl (word32 10 0 0 80) = 0x0A000050" "ntohl (word32 10 0 0 5) = 0x0A000005"
    by (simp_all add: ntohl_def bswap32_def) (simp_all add: word32_def)
  show ?thesis by (simp add: tree_cs_def local_file_def local_link_def file_addrs_def n)
qed

lemma tree_sel:
  "length tree_cs = 5" "map local_phys_port tree_cs = [17000, 17001, 17002, 17003, 17004]"
  "map (\<lambda>c. map remote_phys_port (lnx_body c)) tree_cs = [[17001], [17000, 17002], [17001, 17003, 17004], [17002], [17002]]"
  by (simp_all add: tree_cs_def local_file_def local_link_def)

lemma below_five: "t < 5 \<Longrightarrow> t = 0 \<or> t = 1 \<or> t = 2 \<or> t = 3 \<or> t = (4 :: nat)"
  by linarith

lemma tree_names:
  assumes "j < 5" and "k < 5"
  shows "names (tree_cs ! j) (tree_cs ! k) \<longleftrightarrow> (j, k) \<in> {(0, 1), (1, 0), (1, 2), (2, 1), (2, 3), (2, 4), (3, 2), (4, 2)}"
proof -
  have "names c c' \<longleftrightarrow> local_phys_port c' \<in> set (map remote_phys_port (lnx_body c))" for c c'
    by (auto simp: names_def list_ex_iff image_iff intro: sym)
  then have "names (tree_cs ! j) (tree_cs ! k) \<longleftrightarrow> map local_phys_port tree_cs ! k
      \<in> set (map (\<lambda>c. map remote_phys_port (lnx_body c)) tree_cs ! j)"
    using assms tree_sel(1) by simp
  then show ?thesis
    using below_five [OF assms(1)] below_five [OF assms(2)] unfolding tree_sel(2,3) by (elim disjE) simp_all
qed

lemma tree_consistent: "consistent tree_cs"
proof -
  have "list_all (\<lambda>xs. distinct xs) (map file_addrs tree_cs)" unfolding tree_addrs by simp
  then have d: "list_all (\<lambda>c. distinct (file_addrs c)) tree_cs" by (simp add: list.pred_map comp_def)
  have m: "length (remdups (concat (map file_addrs tree_cs))) \<le> MAX_ENTRIES" unfolding tree_addrs by (simp add: MAX_ENTRIES_def)
  have "names (tree_cs ! k) (tree_cs ! j)" if "j < 5" "k < 5" "names (tree_cs ! j) (tree_cs ! k)" for j k
    using that tree_names by auto
  then have "list_all (\<lambda>c. list_all (\<lambda>c'. names c c' \<longrightarrow> names c' c) tree_cs) tree_cs" by (simp add: list_all_length tree_sel(1))
  with d m show ?thesis unfolding consistent_def tree_sel(2) by simp
qed

lemma within_Suc: "within r cs i a \<Longrightarrow> within (Suc r) cs i a"
proof (induction r arbitrary: i)
  case (Suc r)
  show ?case
  proof (cases "a \<in> set (file_addrs (cs ! i))")
    case False
    with Suc.prems obtain j where "j < length cs" "names (cs ! i) (cs ! j)" "within r cs j a" by (auto simp: list_ex_iff)
    with Suc.IH [OF this(3)] show ?thesis unfolding within.simps(2) [of "Suc r"] list_ex_iff by auto
  qed simp
qed simp

lemma within_mono: "r \<le> r' \<Longrightarrow> within r cs i a \<Longrightarrow> within r' cs i a"
proof (induction rule: dec_induct)
  case (step n)
  from step(3) [OF step(4)] show ?case by (rule within_Suc)
qed

lemma tree_within: "within 16 tree_cs 0 0x0A000050"
proof -
  have step: "within (Suc r) tree_cs j a" if "within r tree_cs k a" "j < 5" "k < 5" "names (tree_cs ! j) (tree_cs ! k)" for r j k a
    using that by (auto simp: list_ex_iff tree_sel(1))
  have "map file_addrs tree_cs ! 3 = [0x0A000050]" unfolding tree_addrs by simp
  then have "within 0 tree_cs 3 0x0A000050" by (simp add: tree_sel(1))
  then have "within (Suc 0) tree_cs 2 0x0A000050" by (rule step) (simp_all add: tree_names)
  then have "within (Suc (Suc 0)) tree_cs 1 0x0A000050" by (rule step) (simp_all add: tree_names)
  then have "within (Suc (Suc (Suc 0))) tree_cs 0 0x0A000050" by (rule step) (simp_all add: tree_names)
  then show ?thesis by (rule within_mono [rotated]) simp
qed

text \<open>A user of node A sends to the address of node D, three links away.\<close>

definition tree_sends :: sends where
  "tree_sends = {(0, word32 10 0 0 80, 17, [72, 105])}"

definition tree_node :: "nat \<Rightarrow> fault + node" where
  "tree_node i = node_ctor (\<lambda>_. Some [Binds 3]) loopback (\<lambda>_. at_sec 100) (Some (tree_lnx ! i))"

theorem files_to_delivery_witness:
  "\<exists>ns N iid s p ls. (\<forall>j < 5. tree_node j = Inr (ns ! j))
    \<and> (net_step tree_sends (topology_of tree_cs ns))\<^sup>*\<^sup>* \<lparr>net_nodes = ns, net_sent = []\<rparr> N
    \<and> console (net_nodes N ! 3) = ls @ [Received_Packet iid (htonl s) (word32 10 0 0 80) p 2 [72, 105]]"
proof -
  have "opens (Some [Binds 3])" by (simp add: opens_def create_socket_def)
  moreover have "\<forall>c \<in> set tree_cs. \<forall>b \<in> set (lnx_body c). resolves loopback b"
    by (simp add: tree_cs_def local_file_def local_link_def resolves_def loopback_def)
  ultimately have o: "\<forall>i < length tree_cs. \<forall>k < length (lnx_body (tree_cs ! i)).
      opens (Some [Binds 3]) \<and> resolves loopback (lnx_body (tree_cs ! i) ! k)" by (meson nth_mem)
  have p: "\<forall>i < length tree_cs. parse_links (Some (tree_lnx ! i)) = Inr (Some (tree_cs ! i))" using parse_tree by blast
  have n: "ntohl (word32 10 0 0 80) = 0x0A000050" by (simp add: ntohl_def bswap32_def) (simp add: word32_def)
  have a: "file_addrs (tree_cs ! t) = [[0x0A000001], [0x0A00000E, 0x0A000009], [0x0A00000A, 0x0A000101, 0x0A000006],
      [0x0A000050], [0x0A000005]] ! t" if "t < 5" for t
    using that tree_sel(1) by (simp flip: tree_addrs)
  have u: "t = 3" if "t < 5" "0x0A000050 \<in> set (file_addrs (tree_cs ! t))" for t
    using below_five [OF that(1)] that a [OF that(1)] by auto
  have s: "(0, word32 10 0 0 80, 17, [72, 105]) \<in> tree_sends" "17 \<noteq> RIP_PROTO" "length [72, 105 :: byte] \<le> 1004"
    "0 \<notin> set [72, 105 :: byte]" "0 < length tree_cs" by (simp_all add: tree_sends_def RIP_PROTO_def tree_sel(1))
  have w: "within 16 tree_cs 0 (ntohl (word32 10 0 0 80))" "ntohl (word32 10 0 0 80) \<notin> set (file_addrs (tree_cs ! 0))"
    unfolding n using tree_within a [of 0] by simp_all
  from files_to_delivery [OF tree_consistent loopback_ipv4 p o s(5,1-4) w, of "\<lambda>_ _. at_sec 100"] show ?thesis
    unfolding n tree_sel(1) tree_node_def using u by (simp del: within.simps) blast
qed

end
