(* ===== verification/Msg_Queue.thy ===== *)
theory Msg_Queue
  imports Prelude
begin

text \<open>
  \<open>src/MessageQueue.hh\<close> at the grain of its mutex and condition variable.  A thread is at one of the
  points between two accesses to the shared state; a step moves one thread past one access.  The order
  in which items entered and left the \<open>std::queue\<close> is recorded next to it.
\<close>

section \<open>The interface of a channel\<close>

text \<open>
  What the layers rely on: a step of the channel leaves its contents alone, appends one item, or takes
  the first one.  The clients' conclusion is that items come out in the order they went in, each once.
\<close>

locale fifo_channel =
  fixes step :: "'s \<Rightarrow> 's \<Rightarrow> bool"
    and contents :: "'s \<Rightarrow> 'a list"
    and accepted :: "'s \<Rightarrow> 'a list"
    and delivered :: "'s \<Rightarrow> 'a list"
    and sane :: "'s \<Rightarrow> bool"
  assumes sane_step: "step s s' \<Longrightarrow> sane s \<Longrightarrow> sane s'"
    and fifo_step: "step s s' \<Longrightarrow> sane s \<Longrightarrow>
      (contents s' = contents s \<and> accepted s' = accepted s \<and> delivered s' = delivered s)
      \<or> (\<exists>x. contents s' = contents s @ [x] \<and> accepted s' = accepted s @ [x] \<and> delivered s' = delivered s)
      \<or> (\<exists>x. contents s = x # contents s' \<and> accepted s' = accepted s \<and> delivered s' = delivered s @ [x])"
begin

definition balanced :: "'s \<Rightarrow> bool" where
  "balanced s \<longleftrightarrow> delivered s @ contents s = accepted s"

lemma balanced_step: "step s s' \<Longrightarrow> sane s \<Longrightarrow> balanced s \<Longrightarrow> balanced s'"
  using fifo_step [of s s'] by (auto simp: balanced_def)

lemma run_balanced:
  "step\<^sup>*\<^sup>* s s' \<Longrightarrow> sane s \<Longrightarrow> balanced s \<Longrightarrow> sane s' \<and> delivered s' @ contents s' = accepted s'"
  by (induction rule: rtranclp_induct) (auto simp: balanced_def dest: sane_step balanced_step)

end

section \<open>push and pop\<close>

datatype 'a mq_pc =
    Outside
  | Push_Lock 'a | Push_Item 'a | Push_Signal | Push_Unlock
  | Pop_Lock | Pop_Test | Pop_Waiting | Pop_Relock | Pop_Front | Pop_Unlock 'a

record 'a mq =
  mq_items :: "'a list"
  mq_owner :: "nat option"
  mq_pc :: "nat \<Rightarrow> 'a mq_pc"
  mq_pushed :: "'a list"
  mq_popped :: "'a list"
  mq_returned :: "nat \<Rightarrow> 'a list"

definition at :: "nat \<Rightarrow> 'a mq_pc \<Rightarrow> 'a mq \<Rightarrow> 'a mq" where
  "at t p s = s\<lparr>mq_pc := (mq_pc s)(t := p)\<rparr>"

text \<open>
  The steps of thread \<open>t\<close> inside \<open>push\<close> and \<open>pop\<close>.  \<open>pthread_cond_signal\<close> releases one waiting thread
  when there is one; \<open>pthread_cond_wait\<close> gives the mutex back and sleeps in one step and takes the mutex
  again before it returns.
\<close>

inductive mq_inside :: "nat \<Rightarrow> 'a mq \<Rightarrow> 'a mq \<Rightarrow> bool" for t where
  push_lock: "mq_pc s t = Push_Lock x \<Longrightarrow> mq_owner s = None
    \<Longrightarrow> mq_inside t s (at t (Push_Item x) (s\<lparr>mq_owner := Some t\<rparr>))"
| push_item: "mq_pc s t = Push_Item x
    \<Longrightarrow> mq_inside t s (at t Push_Signal (s\<lparr>mq_items := mq_items s @ [x], mq_pushed := mq_pushed s @ [x]\<rparr>))"
| push_wakes: "mq_pc s t = Push_Signal \<Longrightarrow> mq_pc s w = Pop_Waiting
    \<Longrightarrow> mq_inside t s (at t Push_Unlock (at w Pop_Relock s))"
| push_nobody: "mq_pc s t = Push_Signal \<Longrightarrow> \<forall>w. mq_pc s w \<noteq> Pop_Waiting
    \<Longrightarrow> mq_inside t s (at t Push_Unlock s)"
| push_unlock: "mq_pc s t = Push_Unlock
    \<Longrightarrow> mq_inside t s (at t Outside (s\<lparr>mq_owner := None\<rparr>))"
| pop_lock: "mq_pc s t = Pop_Lock \<Longrightarrow> mq_owner s = None
    \<Longrightarrow> mq_inside t s (at t Pop_Test (s\<lparr>mq_owner := Some t\<rparr>))"
| pop_empty: "mq_pc s t = Pop_Test \<Longrightarrow> mq_items s = []
    \<Longrightarrow> mq_inside t s (at t Pop_Waiting (s\<lparr>mq_owner := None\<rparr>))"
| pop_nonempty: "mq_pc s t = Pop_Test \<Longrightarrow> mq_items s \<noteq> []
    \<Longrightarrow> mq_inside t s (at t Pop_Front s)"
| pop_relock: "mq_pc s t = Pop_Relock \<Longrightarrow> mq_owner s = None
    \<Longrightarrow> mq_inside t s (at t Pop_Test (s\<lparr>mq_owner := Some t\<rparr>))"
| pop_front: "mq_pc s t = Pop_Front \<Longrightarrow> mq_items s = x # xs
    \<Longrightarrow> mq_inside t s (at t (Pop_Unlock x) (s\<lparr>mq_items := xs, mq_popped := mq_popped s @ [x]\<rparr>))"
| pop_unlock: "mq_pc s t = Pop_Unlock x
    \<Longrightarrow> mq_inside t s (at t Outside (s\<lparr>mq_owner := None,
          mq_returned := (mq_returned s)(t := mq_returned s t @ [x])\<rparr>))"

text \<open>
  All steps: threads enter \<open>push\<close> at will, the one thread that serves the queue enters \<open>pop\<close>, and a
  waiting thread may wake without a signal.
\<close>

inductive mq_step :: "nat \<Rightarrow> nat \<Rightarrow> 'a mq \<Rightarrow> 'a mq \<Rightarrow> bool" for c t where
  inside: "mq_inside t s s' \<Longrightarrow> mq_step c t s s'"
| enter_push: "mq_pc s t = Outside \<Longrightarrow> mq_step c t s (at t (Push_Lock x) s)"
| enter_pop: "mq_pc s t = Outside \<Longrightarrow> t = c \<Longrightarrow> mq_step c t s (at t Pop_Lock s)"
| spurious: "mq_pc s t = Pop_Waiting \<Longrightarrow> mq_step c t s (at t Pop_Relock s)"

definition mq_any :: "nat \<Rightarrow> 'a mq \<Rightarrow> 'a mq \<Rightarrow> bool" where
  "mq_any c s s' \<longleftrightarrow> (\<exists>t. mq_step c t s s')"

definition mq_init :: "'a mq" where
  "mq_init = \<lparr>mq_items = [], mq_owner = None, mq_pc = (\<lambda>t. Outside), mq_pushed = [], mq_popped = [],
     mq_returned = (\<lambda>t. [])\<rparr>"

lemma at_sel [simp]:
  "mq_items (at t p s) = mq_items s" "mq_owner (at t p s) = mq_owner s"
  "mq_pc (at t p s) = (mq_pc s)(t := p)" "mq_pushed (at t p s) = mq_pushed s"
  "mq_popped (at t p s) = mq_popped s" "mq_returned (at t p s) = mq_returned s"
  by (simp_all add: at_def)

section \<open>The invariant\<close>

fun holds_lock :: "'a mq_pc \<Rightarrow> bool" where
  "holds_lock (Push_Item x) = True"
| "holds_lock Push_Signal = True"
| "holds_lock Push_Unlock = True"
| "holds_lock Pop_Test = True"
| "holds_lock Pop_Front = True"
| "holds_lock (Pop_Unlock x) = True"
| "holds_lock p = False"

fun in_pop :: "'a mq_pc \<Rightarrow> bool" where
  "in_pop Pop_Lock = True"
| "in_pop Pop_Test = True"
| "in_pop Pop_Waiting = True"
| "in_pop Pop_Relock = True"
| "in_pop Pop_Front = True"
| "in_pop (Pop_Unlock x) = True"
| "in_pop p = False"

definition lock_inv :: "'a mq \<Rightarrow> bool" where
  "lock_inv s \<longleftrightarrow> (\<forall>t. holds_lock (mq_pc s t) \<longleftrightarrow> mq_owner s = Some t)"

definition serve_inv :: "nat \<Rightarrow> 'a mq \<Rightarrow> bool" where
  "serve_inv c s \<longleftrightarrow> (\<forall>t. in_pop (mq_pc s t) \<longrightarrow> t = c)"

definition front_inv :: "nat \<Rightarrow> 'a mq \<Rightarrow> bool" where
  "front_inv c s \<longleftrightarrow> (mq_pc s c = Pop_Front \<longrightarrow> mq_items s \<noteq> [])"

definition wake_inv :: "nat \<Rightarrow> 'a mq \<Rightarrow> bool" where
  "wake_inv c s \<longleftrightarrow> (mq_pc s c = Pop_Waiting \<and> mq_items s \<noteq> [] \<longrightarrow> (\<exists>t. mq_pc s t = Push_Signal))"

definition mq_inv :: "nat \<Rightarrow> 'a mq \<Rightarrow> bool" where
  "mq_inv c s \<longleftrightarrow> lock_inv s \<and> serve_inv c s \<and> front_inv c s \<and> wake_inv c s"

lemma lock_at: "lock_inv s \<Longrightarrow> mq_pc s t = p \<Longrightarrow> mq_owner s = Some t \<longleftrightarrow> holds_lock p"
  by (auto simp: lock_inv_def)

lemma serve_at: "serve_inv c s \<Longrightarrow> mq_pc s t = p \<Longrightarrow> in_pop p \<Longrightarrow> t = c"
  by (auto simp: serve_inv_def)

lemma lock_keep: "lock_inv s \<Longrightarrow> holds_lock p = holds_lock (mq_pc s t) \<Longrightarrow> lock_inv (at t p s)"
  by (auto simp: lock_inv_def)

lemma lock_step: "mq_step c t s s' \<Longrightarrow> lock_inv s \<Longrightarrow> lock_inv s'"
proof (induction rule: mq_step.induct)
  case (inside s s')
  then show ?case
  proof (cases rule: mq_inside.cases)
    case (push_wakes w)
    with inside.prems show ?thesis using lock_at [of s t] lock_at [of s w]
      by (auto simp: lock_inv_def)
  qed (use inside.prems lock_at [of s t] in \<open>auto simp: lock_inv_def\<close>)
qed (simp_all add: lock_keep)

lemma serve_step: "mq_step c t s s' \<Longrightarrow> serve_inv c s \<Longrightarrow> serve_inv c s'"
proof (induction rule: mq_step.induct)
  case (inside s s')
  then show ?case
  proof (cases rule: mq_inside.cases)
    case (push_wakes w)
    with inside.prems show ?thesis using serve_at [of c s w] by (auto simp: serve_inv_def)
  qed (use inside.prems serve_at [of c s t] in \<open>auto simp: serve_inv_def\<close>)
next
  case (spurious s)
  then show ?case using serve_at [of c s t] by (auto simp: serve_inv_def)
qed (auto simp: serve_inv_def)

lemma front_step: "mq_step c t s s' \<Longrightarrow> mq_inv c s \<Longrightarrow> front_inv c s'"
proof (induction rule: mq_step.induct)
  case (inside s s')
  then have l: "lock_inv s" "front_inv c s" "serve_inv c s" by (simp_all add: mq_inv_def)
  from inside.hyps show ?case
  proof (cases rule: mq_inside.cases)
    case (pop_front x xs)
    with l show ?thesis using serve_at [of c s t] by (auto simp: front_inv_def)
  qed (use l in \<open>auto simp: front_inv_def\<close>)
qed (auto simp: front_inv_def mq_inv_def)

lemma wake_step: "mq_step c t s s' \<Longrightarrow> mq_inv c s \<Longrightarrow> wake_inv c s'"
proof (induction rule: mq_step.induct)
  case (inside s s')
  then have l: "lock_inv s" "wake_inv c s" "serve_inv c s" by (simp_all add: mq_inv_def)
  have h: "mq_pc s u = Push_Signal \<Longrightarrow> mq_owner s = Some u" for u using lock_at [OF l(1)] by simp
  from inside.hyps show ?case
  proof (cases rule: mq_inside.cases)
    case (push_item x)
    then show ?thesis by (auto simp: wake_inv_def)
  next
    case (push_wakes w)
    with l(3) have "w = c" using serve_at by fastforce
    with push_wakes show ?thesis by (auto simp: wake_inv_def)
  next
    case push_nobody
    then show ?thesis by (auto simp: wake_inv_def)
  next
    case push_unlock
    with lock_at [OF l(1) push_unlock(2)] h l(2) show ?thesis by (fastforce simp: wake_inv_def)
  next
    case (pop_unlock x)
    with serve_at [OF l(3) pop_unlock(2)] show ?thesis by (auto simp: wake_inv_def)
  next
    case (pop_front x xs)
    with serve_at [OF l(3) pop_front(2)] show ?thesis by (auto simp: wake_inv_def)
  next
    case pop_empty
    with serve_at [OF l(3) pop_empty(2)] show ?thesis by (auto simp: wake_inv_def)
  next
    case pop_nonempty
    with serve_at [OF l(3) pop_nonempty(2)] show ?thesis by (auto simp: wake_inv_def)
  next
    case pop_lock
    with serve_at [OF l(3) pop_lock(2)] show ?thesis by (auto simp: wake_inv_def)
  next
    case pop_relock
    with serve_at [OF l(3) pop_relock(2)] show ?thesis by (auto simp: wake_inv_def)
  next
    case (push_lock x)
    with l(2) h show ?thesis by (fastforce simp: wake_inv_def)
  qed
next
  case (enter_push s x)
  then have w: "wake_inv c s" by (simp add: mq_inv_def)
  have "mq_pc s u = Push_Signal \<Longrightarrow> mq_pc (at t (Push_Lock x) s) u = Push_Signal" for u
    using enter_push(1) by auto
  moreover have "mq_pc (at t (Push_Lock x) s) c = Pop_Waiting \<Longrightarrow> mq_pc s c = Pop_Waiting"
    by (simp split: if_splits)
  ultimately show ?case using w unfolding wake_inv_def by (metis at_sel(1))
next
  case (enter_pop s)
  then show ?case by (auto simp: wake_inv_def)
next
  case (spurious s)
  then have "serve_inv c s" by (simp add: mq_inv_def)
  with serve_at [OF this spurious(1)] show ?case by (auto simp: wake_inv_def)
qed

lemma mq_inv_step: "mq_step c t s s' \<Longrightarrow> mq_inv c s \<Longrightarrow> mq_inv c s'"
  using lock_step serve_step front_step wake_step unfolding mq_inv_def by blast

lemma mq_inv_init: "mq_inv c mq_init"
  by (simp add: mq_inv_def lock_inv_def serve_inv_def front_inv_def wake_inv_def mq_init_def)

text \<open>The queue as a channel.\<close>

lemma mq_fifo_step:
  assumes "mq_step c t s s'"
  shows "(mq_items s' = mq_items s \<and> mq_pushed s' = mq_pushed s \<and> mq_popped s' = mq_popped s)
    \<or> (\<exists>x. mq_items s' = mq_items s @ [x] \<and> mq_pushed s' = mq_pushed s @ [x] \<and> mq_popped s' = mq_popped s)
    \<or> (\<exists>x. mq_items s = x # mq_items s' \<and> mq_pushed s' = mq_pushed s \<and> mq_popped s' = mq_popped s @ [x])"
  using assms
proof (induction rule: mq_step.induct)
  case (inside s s')
  then show ?case by (cases rule: mq_inside.cases) auto
qed auto

interpretation mq: fifo_channel "mq_any c" mq_items mq_pushed mq_popped "mq_inv c"
  by unfold_locales (auto simp: mq_any_def dest: mq_inv_step mq_fifo_step)

lemma mq_reach:
  assumes "(mq_any c)\<^sup>*\<^sup>* mq_init s"
  shows "mq_inv c s" and "mq_popped s @ mq_items s = mq_pushed s"
  using mq.run_balanced [OF assms mq_inv_init] by (simp_all add: mq.balanced_def mq_init_def)

text \<open>What \<open>pop\<close> returned is what it took out, but for the item it is about to return.\<close>

fun returning :: "'a mq_pc \<Rightarrow> 'a list" where
  "returning (Pop_Unlock x) = [x]"
| "returning p = []"

definition ret_inv :: "nat \<Rightarrow> 'a mq \<Rightarrow> bool" where
  "ret_inv c s \<longleftrightarrow> mq_popped s = mq_returned s c @ returning (mq_pc s c)"

lemma ret_step: "mq_step c t s s' \<Longrightarrow> serve_inv c s \<Longrightarrow> ret_inv c s \<Longrightarrow> ret_inv c s'"
proof (induction rule: mq_step.induct)
  case (inside s s')
  note sv = serve_at [OF inside.prems(1)]
  from inside.hyps show ?case
  proof (cases rule: mq_inside.cases)
    case (push_wakes w)
    with inside.prems show ?thesis using sv [OF push_wakes(3)] by (auto simp: ret_inv_def)
  next
    case (pop_front x xs)
    with inside.prems show ?thesis using sv [OF pop_front(2)] by (auto simp: ret_inv_def)
  next
    case (pop_unlock x)
    with inside.prems show ?thesis using sv [OF pop_unlock(2)] by (auto simp: ret_inv_def)
  qed (use inside.prems in \<open>auto simp: ret_inv_def\<close>)
qed (auto simp: ret_inv_def)

lemma mq_reach_returned: "(mq_any c)\<^sup>*\<^sup>* mq_init s \<Longrightarrow> ret_inv c s"
proof (induction rule: rtranclp_induct)
  case base
  show ?case by (simp add: ret_inv_def mq_init_def)
next
  case (step s s')
  from mq_reach(1) [OF step(1)] have "serve_inv c s" by (simp add: mq_inv_def)
  with step(2,3) show ?case using ret_step unfolding mq_any_def by blast
qed

section \<open>A signal handler that pushes\<close>

text \<open>
  \<open>timerHandler\<close> (\<open>src/node.cc\<close>) calls \<open>_timerQueue.push\<close> on whatever thread the signal interrupts.  The
  handler's frame is the extra thread \<open>h\<close>; while it is active the interrupted thread \<open>v\<close> does not move.
\<close>

type_synonym 'a sig_state = "'a mq \<times> nat option"

inductive sig_step :: "nat \<Rightarrow> nat \<Rightarrow> 'a sig_state \<Rightarrow> 'a sig_state \<Rightarrow> bool" for c h where
  sig_run: "mq_step c t s s' \<Longrightarrow> t \<noteq> h \<Longrightarrow> sig_step c h (s, None) (s', None)"
| sig_deliver: "mq_pc s h = Outside \<Longrightarrow> v \<noteq> h \<Longrightarrow> sig_step c h (s, None) (at h (Push_Lock x) s, Some v)"
| sig_others: "mq_step c t s s' \<Longrightarrow> t \<noteq> h \<Longrightarrow> t \<noteq> v \<Longrightarrow> sig_step c h (s, Some v) (s', Some v)"
| sig_handler: "mq_inside h s s' \<Longrightarrow> sig_step c h (s, Some v) (s', Some v)"
| sig_return: "mq_pc s h = Outside \<Longrightarrow> sig_step c h (s, Some v) (s, None)"

text \<open>While a thread holds the mutex nothing moves but threads outside and threads that wake up.\<close>

lemma owner_keeps:
  assumes "mq_step c t s s'" and "lock_inv s" and "mq_owner s = Some v" and "t \<noteq> v"
  shows "mq_owner s' = Some v \<and> mq_items s' = mq_items s \<and> (\<forall>u. u \<noteq> t \<longrightarrow> mq_pc s' u = mq_pc s u)"
proof -
  have "\<not> mq_inside t s s'"
  proof
    assume "mq_inside t s s'"
    then show False using assms(3,4) lock_at [OF assms(2), of t] by cases auto
  qed
  with assms(1) show ?thesis using assms(3) by cases auto
qed

definition stuck :: "nat \<Rightarrow> nat \<Rightarrow> 'a \<Rightarrow> 'a list \<Rightarrow> 'a sig_state \<Rightarrow> bool" where
  "stuck h v x q st \<longleftrightarrow> (case st of (s, f) \<Rightarrow> f = Some v \<and> lock_inv s \<and> mq_owner s = Some v
     \<and> mq_pc s h = Push_Lock x \<and> mq_items s = q)"

lemma stuck_step: "sig_step c h st st' \<Longrightarrow> stuck h v x q st \<Longrightarrow> stuck h v x q st'"
proof (induction rule: sig_step.induct)
  case (sig_others t s s' v')
  then have "mq_owner s' = Some v \<and> mq_items s' = mq_items s \<and> mq_pc s' h = mq_pc s h"
    using owner_keeps [OF sig_others(1)] by (auto simp: stuck_def)
  moreover have "lock_inv s'" using lock_step [OF sig_others(1)] sig_others by (auto simp: stuck_def)
  ultimately show ?case using sig_others by (auto simp: stuck_def)
next
  case (sig_handler s s' v')
  from sig_handler(1) show ?case using sig_handler(2) by cases (auto simp: stuck_def)
qed (auto simp: stuck_def)

lemma stuck_run: "(sig_step c h)\<^sup>*\<^sup>* st st' \<Longrightarrow> stuck h v x q st \<Longrightarrow> stuck h v x q st'"
  by (induction rule: rtranclp_induct) (auto dest: stuck_step)

section \<open>Properties\<close>

lemma mq_progress:
  assumes "mq_inv c s" and "mq_pc s t \<noteq> Outside" and "mq_pc s t = Pop_Waiting \<Longrightarrow> mq_items s \<noteq> []"
  shows "\<exists>u s'. mq_inside u s s'"
proof (cases "mq_owner s")
  case None
  have "\<not> holds_lock (mq_pc s u)" for u using assms(1) None by (simp add: mq_inv_def lock_inv_def)
  then have "\<not> holds_lock (mq_pc s t)" "\<And>u. mq_pc s u \<noteq> Push_Signal" by (blast, metis holds_lock.simps(2))
  moreover have "mq_pc s t \<noteq> Pop_Waiting"
    using assms(1,3) calculation(2) serve_at [of c s t] by (auto simp: mq_inv_def wake_inv_def)
  ultimately show ?thesis
    using None assms(2) by (cases "mq_pc s t") (auto intro: mq_inside.intros)
next
  case (Some u)
  then have h: "holds_lock (mq_pc s u)" using assms(1) by (simp add: mq_inv_def lock_inv_def)
  show ?thesis
  proof (cases "mq_pc s u")
    case Push_Signal
    then show ?thesis by (metis push_wakes push_nobody)
  next
    case Pop_Test
    then show ?thesis by (metis pop_empty pop_nonempty)
  next
    case Pop_Front
    with assms(1) serve_at [of c s u] obtain x xs where "mq_items s = x # xs"
      by (auto simp: mq_inv_def front_inv_def neq_Nil_conv)
    with Pop_Front show ?thesis by (metis pop_front)
  qed (use h in \<open>auto intro: mq_inside.intros\<close>)
qed

text \<open>
  C21: the items that \<open>pop\<close> has returned, the one it is about to return and the ones still queued are,
  in this order, exactly the items pushed, in the order of their \<open>push\<close>; for any number of pushing
  threads and any interleaving.
\<close>

theorem pop_returns_in_order:
  assumes "(mq_any c)\<^sup>*\<^sup>* mq_init s"
  shows "mq_returned s c @ returning (mq_pc s c) @ mq_items s = mq_pushed s"
  using mq_reach(2) [OF assms] mq_reach_returned [OF assms] by (simp add: ret_inv_def)

definition mq_sample :: "nat mq" where
  "mq_sample = at 1 Push_Signal ((at 1 (Push_Item 7) ((at 1 (Push_Lock 7) mq_init)\<lparr>mq_owner := Some 1\<rparr>))
     \<lparr>mq_items := [7], mq_pushed := [7]\<rparr>)"

lemma mq_sample_reachable: "(mq_any 0)\<^sup>*\<^sup>* mq_init mq_sample"
proof -
  let ?a = "at 1 (Push_Lock 7) mq_init :: nat mq" and ?b = "at 1 (Push_Item 7) ((at 1 (Push_Lock 7) mq_init)\<lparr>mq_owner := Some 1\<rparr>) :: nat mq"
  have a: "mq_any 0 mq_init ?a" unfolding mq_any_def by (intro exI [of _ 1] enter_push) (simp add: mq_init_def)
  have b: "mq_any 0 ?a ?b" unfolding mq_any_def by (intro exI [of _ 1] inside push_lock) (simp_all add: mq_init_def)
  have "mq_any 0 ?b mq_sample"
    unfolding mq_any_def mq_sample_def using mq_step.inside [OF push_item [of ?b 1 7], of 0]
    by (intro exI [of _ 1]) (simp add: mq_init_def at_def)
  with a b show ?thesis by (meson converse_rtranclp_into_rtranclp rtranclp.rtrancl_refl)
qed

theorem pop_returns_in_order_witness:
  "mq_returned mq_sample 0 @ returning (mq_pc mq_sample 0) @ mq_items mq_sample = [7]"
  using pop_returns_in_order [OF mq_sample_reachable] by (simp add: mq_sample_def)

text \<open>
  C22: in every reachable state at most one thread is between lock and unlock, \<open>front()\<close> is only
  called on a non-empty queue, and no wake-up is lost: as long as some thread is inside \<open>push\<close> or \<open>pop\<close>,
  other than waiting on an empty queue, some thread inside can move without relying on a spurious wake-up.
\<close>

theorem queue_safe_and_live:
  assumes "(mq_any c)\<^sup>*\<^sup>* mq_init s"
  shows "(\<forall>t u. holds_lock (mq_pc s t) \<and> holds_lock (mq_pc s u) \<longrightarrow> t = u)
    \<and> (\<forall>t. mq_pc s t = Pop_Front \<longrightarrow> mq_items s \<noteq> [])
    \<and> ((\<exists>t. mq_pc s t \<noteq> Outside \<and> (mq_pc s t = Pop_Waiting \<longrightarrow> mq_items s \<noteq> []))
        \<longrightarrow> (\<exists>u s'. mq_inside u s s'))"
proof (intro conjI)
  note inv = mq_reach(1) [OF assms]
  show "\<forall>t u. holds_lock (mq_pc s t) \<and> holds_lock (mq_pc s u) \<longrightarrow> t = u"
    using inv by (auto simp: mq_inv_def lock_inv_def)
  show "\<forall>t. mq_pc s t = Pop_Front \<longrightarrow> mq_items s \<noteq> []"
    using inv serve_at [of c s] by (fastforce simp: mq_inv_def front_inv_def)
  show "(\<exists>t. mq_pc s t \<noteq> Outside \<and> (mq_pc s t = Pop_Waiting \<longrightarrow> mq_items s \<noteq> []))
    \<longrightarrow> (\<exists>u s'. mq_inside u s s')"
    using mq_progress [OF inv] by blast
qed

theorem queue_safe_and_live_witness:
  "\<exists>u s'. mq_inside u mq_sample s'"
proof -
  have "mq_pc mq_sample 1 \<noteq> Outside \<and> (mq_pc mq_sample 1 = Pop_Waiting \<longrightarrow> mq_items mq_sample \<noteq> [])"
    by (simp add: mq_sample_def)
  then show ?thesis using queue_safe_and_live [OF mq_sample_reachable] by blast
qed

text \<open>The RIP thread in \<open>pop\<close>, about to test whether the queue is empty.\<close>

definition mq_popping :: "int mq" where
  "mq_popping = at 0 Pop_Test ((at 0 Pop_Lock mq_init)\<lparr>mq_owner := Some 0\<rparr>)"

lemma mq_popping_reachable: "(mq_any 0)\<^sup>*\<^sup>* mq_init mq_popping"
proof -
  let ?a = "at 0 Pop_Lock mq_init :: int mq"
  have a: "mq_any 0 mq_init ?a" unfolding mq_any_def by (intro exI [of _ 0] enter_pop) (simp_all add: mq_init_def)
  have "mq_any 0 ?a mq_popping"
    unfolding mq_any_def mq_popping_def by (intro exI [of _ 0] inside pop_lock) (simp_all add: mq_init_def)
  with a show ?thesis by (meson converse_rtranclp_into_rtranclp rtranclp.rtrancl_refl)
qed

text \<open>
  C25: when the timer signal is handled on a thread that is inside \<open>push\<close> or \<open>pop\<close> with the mutex
  held, the handler never gets the mutex: in every continuation the interrupted thread stays suspended,
  the handler stays before its lock, and the queue never changes again.
\<close>

theorem timer_handler_deadlock:
  assumes "(mq_any c)\<^sup>*\<^sup>* mq_init s" and "mq_owner s = Some v" and "mq_pc s h = Outside"
    and "(sig_step c h)\<^sup>*\<^sup>* (at h (Push_Lock x) s, Some v) (s', f)"
  shows "f = Some v \<and> mq_owner s' = Some v \<and> mq_pc s' h = Push_Lock x \<and> mq_items s' = mq_items s"
proof -
  have "lock_inv s" using mq_reach(1) [OF assms(1)] by (simp add: mq_inv_def)
  then have "stuck h v x (mq_items s) (at h (Push_Lock x) s, Some v)"
    using assms(2,3) by (simp add: stuck_def lock_keep)
  from stuck_run [OF assms(4) this] show ?thesis by (simp add: stuck_def)
qed

text \<open>Another thread arrives at the queue while the handler waits.\<close>

definition mq_deadlocked :: "int mq" where
  "mq_deadlocked = at 3 (Push_Lock 2) (at 2 (Push_Lock 1) mq_popping)"

theorem timer_handler_deadlock_witness:
  "sig_step 0 2 (mq_popping, None) (at 2 (Push_Lock 1) mq_popping, Some 0)
   \<and> sig_step 0 2 (at 2 (Push_Lock 1) mq_popping, Some 0) (mq_deadlocked, Some 0)
   \<and> mq_owner mq_deadlocked = Some 0 \<and> mq_pc mq_deadlocked 2 = Push_Lock 1 \<and> mq_items mq_deadlocked = []"
proof -
  have h: "mq_owner mq_popping = Some 0" "mq_pc mq_popping 2 = Outside"
    by (simp_all add: mq_popping_def mq_init_def)
  have d: "sig_step 0 2 (mq_popping, None) (at 2 (Push_Lock 1) mq_popping, Some 0)"
    by (rule sig_deliver) (simp_all add: h)
  have o: "sig_step 0 2 (at 2 (Push_Lock 1) mq_popping, Some 0) (mq_deadlocked, Some 0)"
    unfolding mq_deadlocked_def
    by (rule sig_others [OF enter_push]) (simp_all add: mq_popping_def mq_init_def)
  from o have r: "(sig_step 0 2)\<^sup>*\<^sup>* (at 2 (Push_Lock 1) mq_popping, Some 0) (mq_deadlocked, Some 0)"
    by (rule r_into_rtranclp)
  have "mq_items mq_popping = []" by (simp add: mq_popping_def mq_init_def)
  with timer_handler_deadlock [OF mq_popping_reachable h r] d o
  show ?thesis by simp
qed

end
