(* ===== verification/Slot_Protocol.thy ===== *)
theory Slot_Protocol
  imports Msg_Queue
begin

text \<open>
  The hand-over between \<open>LinkLayer::send_frame\<close>, run by the thread of \<open>process_in_queue\<close>, and
  \<open>send_and_receive\<close> with \<open>LinkLayer::send_data\<close>, run by the thread of the link (\<open>src/LinkLayer.cc\<close>), one access
  to the shared fields \<open>_sbuffer\<close>, \<open>_sbufferReady\<close>, \<open>_bufferlck\<close>, \<open>_cv\<close> and \<open>s_local\<close> at a time.  \<open>send_frame\<close> works
  under the mutex; \<open>send_data\<close> takes no mutex.  The commands \<open>down\<close> and \<open>up\<close> close and open the socket at any
  moment.  A \<open>sendto\<close> takes the whole datagram or fails.
\<close>

section \<open>Steps\<close>

text \<open>
  The sender: \<open>S_Call\<close> is before the test of \<open>s_local\<close>, \<open>S_Wait\<close> after the test of \<open>_sbufferReady\<close> and before
  \<open>pthread_cond_wait\<close>.  The link: \<open>R_Round\<close> is after its test of \<open>s_local\<close> (also while \<open>select\<close> waits, or
  \<open>recvfrom\<close> for a datagram that can still arrive), \<open>R_Hung\<close> in a call that nothing ends because the socket was closed
  meanwhile, \<open>R_Fault\<close> after an access with undefined behaviour.
\<close>

datatype 'a snd_pc =
    S_Idle | S_Call 'a | S_Lock 'a | S_Test 'a | S_Wait 'a | S_Asleep 'a | S_Relock 'a | S_Fill 'a | S_Publish | S_Unlock

datatype rcv_pc = R_Poll | R_Round | R_Send | R_Clear | R_Unready | R_Signal | R_Hung | R_Fault

record 'a slot =
  sl_buf :: "'a option"
  sl_ready :: bool
  sl_locked :: bool
  sl_open :: bool
  sl_snd :: "'a snd_pc"
  sl_rcv :: rcv_pc
  sl_accepted :: "'a list"
  sl_sent :: "'a list"

definition slot_init :: "'a slot" where
  "slot_init = \<lparr>sl_buf = None, sl_ready = False, sl_locked = False, sl_open = True, sl_snd = S_Idle, sl_rcv = R_Poll,
     sl_accepted = [], sl_sent = []\<rparr>"

text \<open>\<open>send_frame\<close>; with the socket closed the frame is dropped.\<close>

inductive snd_step :: "'a slot \<Rightarrow> 'a slot \<Rightarrow> bool" where
  snd_closed: "sl_snd s = S_Call x \<Longrightarrow> \<not> sl_open s \<Longrightarrow> snd_step s (s\<lparr>sl_snd := S_Idle\<rparr>)"
| snd_opened: "sl_snd s = S_Call x \<Longrightarrow> sl_open s \<Longrightarrow> snd_step s (s\<lparr>sl_snd := S_Lock x\<rparr>)"
| snd_lock: "sl_snd s = S_Lock x \<Longrightarrow> \<not> sl_locked s \<Longrightarrow> snd_step s (s\<lparr>sl_locked := True, sl_snd := S_Test x\<rparr>)"
| snd_busy: "sl_snd s = S_Test x \<Longrightarrow> sl_ready s \<Longrightarrow> snd_step s (s\<lparr>sl_snd := S_Wait x\<rparr>)"
| snd_free: "sl_snd s = S_Test x \<Longrightarrow> \<not> sl_ready s \<Longrightarrow> snd_step s (s\<lparr>sl_snd := S_Fill x\<rparr>)"
| snd_sleep: "sl_snd s = S_Wait x \<Longrightarrow> snd_step s (s\<lparr>sl_locked := False, sl_snd := S_Asleep x\<rparr>)"
| snd_relock: "sl_snd s = S_Relock x \<Longrightarrow> \<not> sl_locked s \<Longrightarrow> snd_step s (s\<lparr>sl_locked := True, sl_snd := S_Test x\<rparr>)"
| snd_fill: "sl_snd s = S_Fill x
    \<Longrightarrow> snd_step s (s\<lparr>sl_buf := Some x, sl_accepted := sl_accepted s @ [x], sl_snd := S_Publish\<rparr>)"
| snd_publish: "sl_snd s = S_Publish \<Longrightarrow> snd_step s (s\<lparr>sl_ready := True, sl_snd := S_Unlock\<rparr>)"
| snd_unlock: "sl_snd s = S_Unlock \<Longrightarrow> snd_step s (s\<lparr>sl_locked := False, sl_snd := S_Idle\<rparr>)"

text \<open>\<open>pthread_cond_signal\<close>: wakes the sender when it sleeps, and is lost otherwise.\<close>

fun signalled :: "'a snd_pc \<Rightarrow> 'a snd_pc" where
  "signalled (S_Asleep x) = S_Relock x"
| "signalled p = p"

text \<open>
  A round of \<open>send_and_receive\<close>.  A test that finds \<open>s_local\<close> \<open>-1\<close> is repeated (no step).  A round may end without
  \<open>send_data\<close>: the flag is clear, or the socket not writable or not the one in the set.  In it a descriptor-set
  operation or \<open>recv_data\<close> may fail, and after a \<open>down\<close> the thread may wait for ever, in \<open>select(0, ...)\<close> or on the closed
  socket (\<open>Socket_Race\<close> has these accesses).  A failed \<open>sendto\<close>
  leaves the loop of \<open>send_data\<close> with the pointer not advanced, so that the \<open>free\<close> after it has a wrong address.
\<close>

inductive rcv_step :: "'a slot \<Rightarrow> 'a slot \<Rightarrow> bool" where
  rcv_poll: "sl_rcv s = R_Poll \<Longrightarrow> sl_open s \<Longrightarrow> rcv_step s (s\<lparr>sl_rcv := R_Round\<rparr>)"
| rcv_ready: "sl_rcv s = R_Round \<Longrightarrow> sl_ready s \<Longrightarrow> sl_open s \<Longrightarrow> rcv_step s (s\<lparr>sl_rcv := R_Send\<rparr>)"
| rcv_none: "sl_rcv s = R_Round \<Longrightarrow> rcv_step s (s\<lparr>sl_rcv := R_Poll\<rparr>)"
| rcv_fault: "sl_rcv s = R_Round \<Longrightarrow> rcv_step s (s\<lparr>sl_rcv := R_Fault\<rparr>)"
| rcv_hang: "sl_rcv s = R_Round \<Longrightarrow> \<not> sl_open s \<Longrightarrow> rcv_step s (s\<lparr>sl_rcv := R_Hung\<rparr>)"
| rcv_send: "sl_rcv s = R_Send \<Longrightarrow> sl_open s \<Longrightarrow> sl_buf s = Some x
    \<Longrightarrow> rcv_step s (s\<lparr>sl_sent := sl_sent s @ [x], sl_rcv := R_Clear\<rparr>)"
| rcv_send_fails: "sl_rcv s = R_Send \<Longrightarrow> rcv_step s (s\<lparr>sl_rcv := R_Fault\<rparr>)"
| rcv_clear: "sl_rcv s = R_Clear \<Longrightarrow> rcv_step s (s\<lparr>sl_buf := None, sl_rcv := R_Unready\<rparr>)"
| rcv_unready: "sl_rcv s = R_Unready \<Longrightarrow> rcv_step s (s\<lparr>sl_ready := False, sl_rcv := R_Signal\<rparr>)"
| rcv_signal: "sl_rcv s = R_Signal \<Longrightarrow> rcv_step s (s\<lparr>sl_snd := signalled (sl_snd s), sl_rcv := R_Poll\<rparr>)"

text \<open>All steps of the two threads; the sender may also start with a frame, and wake without a signal.\<close>

inductive slot_step :: "'a slot \<Rightarrow> 'a slot \<Rightarrow> bool" where
  by_sender: "snd_step s s' \<Longrightarrow> slot_step s s'"
| by_link: "rcv_step s s' \<Longrightarrow> slot_step s s'"
| start: "sl_snd s = S_Idle \<Longrightarrow> slot_step s (s\<lparr>sl_snd := S_Call x\<rparr>)"
| wakes: "sl_snd s = S_Asleep x \<Longrightarrow> slot_step s (s\<lparr>sl_snd := S_Relock x\<rparr>)"

text \<open>With the command thread.\<close>

inductive slot_any :: "'a slot \<Rightarrow> 'a slot \<Rightarrow> bool" where
  by_threads: "slot_step s s' \<Longrightarrow> slot_any s s'"
| by_down: "slot_any s (s\<lparr>sl_open := False\<rparr>)"
| by_up: "slot_any s (s\<lparr>sl_open := True\<rparr>)"

section \<open>The invariant\<close>

fun snd_holds :: "'a snd_pc \<Rightarrow> bool" where
  "snd_holds S_Idle = False"
| "snd_holds (S_Call x) = False"
| "snd_holds (S_Lock x) = False"
| "snd_holds (S_Asleep x) = False"
| "snd_holds (S_Relock x) = False"
| "snd_holds p = True"

fun filling :: "'a snd_pc \<Rightarrow> bool" where
  "filling (S_Fill x) = True"
| "filling S_Publish = True"
| "filling p = False"

text \<open>The frame accepted but not yet transmitted.\<close>

definition slot_contents :: "'a slot \<Rightarrow> 'a list" where
  "slot_contents s = (case sl_buf s of None \<Rightarrow> [] | Some x \<Rightarrow> if sl_rcv s = R_Clear then [] else [x])"

definition slot_inv :: "'a slot \<Rightarrow> bool" where
  "slot_inv s \<longleftrightarrow> sl_locked s = snd_holds (sl_snd s)
     \<and> (sl_rcv s \<in> {R_Send, R_Clear, R_Unready} \<longrightarrow> sl_ready s)
     \<and> (filling (sl_snd s) \<longrightarrow> \<not> sl_ready s)
     \<and> (sl_buf s \<noteq> None \<longleftrightarrow> sl_snd s = S_Publish \<or> sl_ready s \<and> sl_rcv s \<noteq> R_Unready)"

lemma slot_inv_init: "slot_inv slot_init"
  by (simp add: slot_inv_def slot_init_def)

lemma snd_step_inv: "snd_step s s' \<Longrightarrow> slot_inv s \<Longrightarrow> slot_inv s'"
  by (induction rule: snd_step.induct) (auto simp: slot_inv_def)

lemma rcv_step_inv: "rcv_step s s' \<Longrightarrow> slot_inv s \<Longrightarrow> slot_inv s'"
proof (induction rule: rcv_step.induct)
  case (rcv_signal s)
  then show ?case by (cases "sl_snd s") (auto simp: slot_inv_def)
qed (auto simp: slot_inv_def)

lemma slot_step_inv: "slot_step s s' \<Longrightarrow> slot_inv s \<Longrightarrow> slot_inv s'"
  by (induction rule: slot_step.induct) (auto simp: snd_step_inv rcv_step_inv, auto simp: slot_inv_def)

lemma slot_fifo_step:
  assumes "slot_step s s'" and "slot_inv s"
  shows "(slot_contents s' = slot_contents s \<and> sl_accepted s' = sl_accepted s \<and> sl_sent s' = sl_sent s)
    \<or> (\<exists>x. slot_contents s' = slot_contents s @ [x] \<and> sl_accepted s' = sl_accepted s @ [x] \<and> sl_sent s' = sl_sent s)
    \<or> (\<exists>x. slot_contents s = x # slot_contents s' \<and> sl_accepted s' = sl_accepted s \<and> sl_sent s' = sl_sent s @ [x])"
  using assms(1)
proof cases
  case by_sender
  then show ?thesis using assms(2)
    by cases (auto simp: slot_contents_def slot_inv_def split: option.splits)
next
  case by_link
  then show ?thesis using assms(2)
    by cases (auto simp: slot_contents_def slot_inv_def split: option.splits)
qed (auto simp: slot_contents_def split: option.splits)

lemma slot_any_inv: "slot_any s s' \<Longrightarrow> slot_inv s \<Longrightarrow> slot_inv s'"
  by (induction rule: slot_any.induct) (auto simp: slot_step_inv, auto simp: slot_inv_def)

lemma slot_any_fifo:
  assumes "slot_any s s'" and "slot_inv s"
  shows "(slot_contents s' = slot_contents s \<and> sl_accepted s' = sl_accepted s \<and> sl_sent s' = sl_sent s)
    \<or> (\<exists>x. slot_contents s' = slot_contents s @ [x] \<and> sl_accepted s' = sl_accepted s @ [x] \<and> sl_sent s' = sl_sent s)
    \<or> (\<exists>x. slot_contents s = x # slot_contents s' \<and> sl_accepted s' = sl_accepted s \<and> sl_sent s' = sl_sent s @ [x])"
  using assms(1)
proof cases
  case by_threads
  then show ?thesis using assms(2) by (rule slot_fifo_step)
qed (simp_all add: slot_contents_def split: option.split)

text \<open>The send buffer is a channel of capacity one, whatever the commands do with the socket.\<close>

interpretation slot: fifo_channel slot_any slot_contents sl_accepted sl_sent slot_inv
  by unfold_locales (blast intro: slot_any_inv, erule (1) slot_any_fifo)

lemma slot_reach:
  assumes "slot_any\<^sup>*\<^sup>* slot_init s"
  shows "slot_inv s" and "sl_sent s @ slot_contents s = sl_accepted s"
  using slot.run_balanced [OF assms slot_inv_init] by (simp_all add: slot.balanced_def slot_init_def slot_contents_def)

lemma slot_threads_reach: "slot_step\<^sup>*\<^sup>* s s' \<Longrightarrow> slot_any\<^sup>*\<^sup>* s s'"
  by (rule rtranclp_mono [THEN predicate2D, of slot_step]) (auto intro: by_threads)

section \<open>A sender that nothing moves\<close>

text \<open>No run of the two threads, whatever is received, moves the sender: only a spurious wake-up or a command may.\<close>

definition slot_thread :: "'a slot \<Rightarrow> 'a slot \<Rightarrow> bool" where
  "slot_thread s s' \<longleftrightarrow> snd_step s s' \<or> rcv_step s s'"

definition sender_stuck :: "'a slot \<Rightarrow> bool" where
  "sender_stuck s \<longleftrightarrow> (\<forall>s'. slot_thread\<^sup>*\<^sup>* s s' \<longrightarrow> sl_snd s' = sl_snd s)"

text \<open>The states in which the sender sleeps for ever.\<close>

definition lost_signal :: "'a slot \<Rightarrow> bool" where
  "lost_signal s \<longleftrightarrow> \<not> sl_ready s \<and> sl_buf s = None \<and> sl_rcv s \<in> {R_Poll, R_Round}"

definition closed_full :: "'a slot \<Rightarrow> bool" where
  "closed_full s \<longleftrightarrow> \<not> sl_open s \<and> sl_ready s \<and> sl_buf s \<noteq> None \<and> sl_rcv s \<in> {R_Poll, R_Round, R_Send}"

definition sleeps_forever :: "'a slot \<Rightarrow> bool" where
  "sleeps_forever s \<longleftrightarrow> (\<exists>x. sl_snd s = S_Asleep x) \<and> (lost_signal s \<or> closed_full s \<or> sl_rcv s \<in> {R_Hung, R_Fault})"

lemmas sleep_defs = sleeps_forever_def lost_signal_def closed_full_def

lemma sleeps_forever_step:
  assumes "slot_thread s s'" and "sleeps_forever s"
  shows "sleeps_forever s' \<and> sl_snd s' = sl_snd s"
proof -
  have "\<not> snd_step s s'" using assms(2) by (auto simp: sleeps_forever_def elim: snd_step.cases)
  then have "rcv_step s s'" using assms(1) by (simp add: slot_thread_def)
  then show ?thesis using assms(2) by cases (auto simp: sleep_defs)
qed

lemma sleeps_forever_stuck:
  assumes "sleeps_forever s"
  shows "sender_stuck s"
proof -
  have "sleeps_forever s' \<and> sl_snd s' = sl_snd s" if "slot_thread\<^sup>*\<^sup>* s s'" for s'
    using that
  proof (induction rule: rtranclp_induct)
    case (step s1 s2)
    then show ?case using sleeps_forever_step by metis
  qed (use assms in simp)
  then show ?thesis unfolding sender_stuck_def by blast
qed

lemma stuck_sender: "sender_stuck s \<Longrightarrow> snd_step s s' \<Longrightarrow> sl_snd s' = sl_snd s"
  unfolding sender_stuck_def slot_thread_def by (blast intro: r_into_rtranclp)

lemma stuck_link:
  assumes "sender_stuck s" and "rcv_step s s'"
  shows "sl_snd s' = sl_snd s \<and> sender_stuck s'"
proof -
  have st: "slot_thread s s'" using assms(2) by (simp add: slot_thread_def)
  have all: "\<forall>t. slot_thread\<^sup>*\<^sup>* s t \<longrightarrow> sl_snd t = sl_snd s" using assms(1) unfolding sender_stuck_def .
  then have e: "sl_snd s' = sl_snd s" using r_into_rtranclp [of slot_thread s s', OF st] by blast
  have "\<forall>t. slot_thread\<^sup>*\<^sup>* s' t \<longrightarrow> sl_snd t = sl_snd s" using all converse_rtranclp_into_rtranclp [of slot_thread s s', OF st] by blast
  then show ?thesis unfolding sender_stuck_def e by blast
qed

text \<open>A stuck sender sleeps, since it can go on at every other point.\<close>

lemma stuck_asleep:
  assumes "sender_stuck s" and "slot_inv s" and "sl_snd s \<noteq> S_Idle"
  shows "\<exists>x. sl_snd s = S_Asleep x"
  using assms(2,3) stuck_sender [OF assms(1) snd_closed] stuck_sender [OF assms(1) snd_opened]
    stuck_sender [OF assms(1) snd_lock] stuck_sender [OF assms(1) snd_busy] stuck_sender [OF assms(1) snd_free]
    stuck_sender [OF assms(1) snd_sleep] stuck_sender [OF assms(1) snd_relock] stuck_sender [OF assms(1) snd_fill]
    stuck_sender [OF assms(1) snd_publish] stuck_sender [OF assms(1) snd_unlock]
  by (cases "sl_snd s") (auto simp: slot_inv_def)

text \<open>When the link is on its way to the signal, the sender is not stuck.\<close>

lemma not_stuck_signal:
  assumes "sl_snd s = S_Asleep x"
  shows "sl_rcv s = R_Signal \<Longrightarrow> \<not> sender_stuck s"
    and "sl_rcv s = R_Unready \<Longrightarrow> \<not> sender_stuck s"
    and "sl_rcv s = R_Clear \<Longrightarrow> \<not> sender_stuck s"
proof -
  have sig: "\<not> sender_stuck t" if "sl_snd t = S_Asleep x" "sl_rcv t = R_Signal" for t :: "'a slot"
    using stuck_link [OF _ rcv_signal [OF that(2)]] that(1) by auto
  have unr: "\<not> sender_stuck t" if "sl_snd t = S_Asleep x" "sl_rcv t = R_Unready" for t :: "'a slot"
    using stuck_link [OF _ rcv_unready [OF that(2)]] sig that(1) by auto
  have clr: "\<not> sender_stuck t" if "sl_snd t = S_Asleep x" "sl_rcv t = R_Clear" for t :: "'a slot"
    using stuck_link [OF _ rcv_clear [OF that(2)]] unr that(1) by auto
  show "sl_rcv s = R_Signal \<Longrightarrow> \<not> sender_stuck s" "sl_rcv s = R_Unready \<Longrightarrow> \<not> sender_stuck s" "sl_rcv s = R_Clear \<Longrightarrow> \<not> sender_stuck s"
    using sig unr clr assms by blast+
qed

text \<open>Nor when the buffer is full and the socket open: the link gets to its \<open>sendto\<close>.\<close>

lemma not_stuck_open:
  assumes "sl_snd s = S_Asleep x" and "sl_open s" and "sl_ready s" and "sl_buf s = Some y"
    and "sl_rcv s \<in> {R_Poll, R_Round, R_Send}"
  shows "\<not> sender_stuck s"
proof -
  have snd: "\<not> sender_stuck t" if "sl_snd t = S_Asleep x" "sl_open t" "sl_buf t = Some y" "sl_rcv t = R_Send" for t :: "'a slot"
    using stuck_link [OF _ rcv_send [OF that(4) that(2) that(3)]] that(1)
      not_stuck_signal(3) [of "t\<lparr>sl_sent := sl_sent t @ [y], sl_rcv := R_Clear\<rparr>" x] by auto
  have rnd: "\<not> sender_stuck t" if "sl_snd t = S_Asleep x" "sl_open t" "sl_ready t" "sl_buf t = Some y" "sl_rcv t = R_Round"
    for t :: "'a slot"
    using stuck_link [OF _ rcv_ready [OF that(5) that(3) that(2)]] snd that(1,2,4) by auto
  have "\<not> sender_stuck t" if "sl_snd t = S_Asleep x" "sl_open t" "sl_ready t" "sl_buf t = Some y" "sl_rcv t = R_Poll"
    for t :: "'a slot"
    using stuck_link [OF _ rcv_poll [OF that(5) that(2)]] rnd that(1-4) by auto
  with snd rnd assms show ?thesis by blast
qed

lemma stuck_sleeps_forever:
  assumes "sender_stuck s" and inv: "slot_inv s" and "sl_snd s \<noteq> S_Idle"
  shows "sleeps_forever s"
proof -
  obtain x where x: "sl_snd s = S_Asleep x" using stuck_asleep [OF assms] by blast
  have r: "sl_rcv s \<in> {R_Poll, R_Round, R_Send, R_Hung, R_Fault}"
    using not_stuck_signal [OF x] assms(1) by (cases "sl_rcv s") simp_all
  have c: "\<not> sl_open s \<or> sl_rcv s \<in> {R_Hung, R_Fault}" if "sl_ready s"
    using not_stuck_open [OF x _ that] assms(1) inv r x that by (cases "sl_buf s") (auto simp: slot_inv_def)
  show ?thesis
    using inv x r c by (cases "sl_ready s") (auto simp: sleep_defs slot_inv_def)
qed

section \<open>Properties\<close>

text \<open>
  C23: in every reachable state, whatever the commands do with the socket, the frames transmitted, followed by the
  one in the buffer, are exactly the frames accepted, in order; \<open>send_data\<close> never finds the buffer null, \<open>send_frame\<close>
  never overwrites a frame, and it writes only while the link does not use the buffer.
\<close>

theorem slot_handover:
  assumes "slot_any\<^sup>*\<^sup>* slot_init s"
  shows "sl_sent s @ slot_contents s = sl_accepted s
    \<and> (sl_rcv s = R_Send \<longrightarrow> sl_buf s \<noteq> None)
    \<and> (\<forall>x. sl_snd s = S_Fill x \<longrightarrow> sl_buf s = None \<and> sl_rcv s \<notin> {R_Send, R_Clear, R_Unready})"
  using slot_reach [OF assms] by (auto simp: slot_inv_def)

text \<open>One frame handed over, and the schedules that leave a sender asleep.\<close>

definition slot_at :: "bool \<Rightarrow> nat option \<Rightarrow> bool \<Rightarrow> nat snd_pc \<Rightarrow> rcv_pc \<Rightarrow> nat list \<Rightarrow> nat list \<Rightarrow> nat slot" where
  "slot_at op b r p c acc sent = \<lparr>sl_buf = b, sl_ready = r, sl_locked = snd_holds p, sl_open = op, sl_snd = p, sl_rcv = c,
     sl_accepted = acc, sl_sent = sent\<rparr>"

lemma slot_at_sender:
  "slot_step (slot_at op b r S_Idle c acc sent) (slot_at op b r (S_Call x) c acc sent)"
  "slot_step (slot_at True b r (S_Call x) c acc sent) (slot_at True b r (S_Lock x) c acc sent)"
  "slot_step (slot_at op b r (S_Lock x) c acc sent) (slot_at op b r (S_Test x) c acc sent)"
  "slot_step (slot_at op b False (S_Test x) c acc sent) (slot_at op b False (S_Fill x) c acc sent)"
  "slot_step (slot_at op b True (S_Test x) c acc sent) (slot_at op b True (S_Wait x) c acc sent)"
  "slot_step (slot_at op b r (S_Wait x) c acc sent) (slot_at op b r (S_Asleep x) c acc sent)"
  "slot_step (slot_at op b r (S_Fill x) c acc sent) (slot_at op (Some x) r S_Publish c (acc @ [x]) sent)"
  "slot_step (slot_at op b r S_Publish c acc sent) (slot_at op b True S_Unlock c acc sent)"
  "slot_step (slot_at op b r S_Unlock c acc sent) (slot_at op b r S_Idle c acc sent)"
  using slot_step.start [of "slot_at op b r S_Idle c acc sent" x]
    slot_step.by_sender [OF snd_opened [of "slot_at True b r (S_Call x) c acc sent" x]]
    slot_step.by_sender [OF snd_lock [of "slot_at op b r (S_Lock x) c acc sent" x]]
    slot_step.by_sender [OF snd_free [of "slot_at op b False (S_Test x) c acc sent" x]]
    slot_step.by_sender [OF snd_busy [of "slot_at op b True (S_Test x) c acc sent" x]]
    slot_step.by_sender [OF snd_sleep [of "slot_at op b r (S_Wait x) c acc sent" x]]
    slot_step.by_sender [OF snd_fill [of "slot_at op b r (S_Fill x) c acc sent" x]]
    slot_step.by_sender [OF snd_publish [of "slot_at op b r S_Publish c acc sent"]]
    slot_step.by_sender [OF snd_unlock [of "slot_at op b r S_Unlock c acc sent"]]
  by (simp_all add: slot_at_def)

lemma slot_at_link:
  "slot_step (slot_at True b r p R_Poll acc sent) (slot_at True b r p R_Round acc sent)"
  "slot_step (slot_at True b True p R_Round acc sent) (slot_at True b True p R_Send acc sent)"
  "slot_step (slot_at True (Some x) r p R_Send acc sent) (slot_at True (Some x) r p R_Clear acc (sent @ [x]))"
  "slot_step (slot_at op b r p R_Send acc sent) (slot_at op b r p R_Fault acc sent)"
  "slot_step (slot_at False b r p R_Round acc sent) (slot_at False b r p R_Hung acc sent)"
  "slot_step (slot_at op b r p R_Clear acc sent) (slot_at op None r p R_Unready acc sent)"
  "slot_step (slot_at op b r p R_Unready acc sent) (slot_at op b False p R_Signal acc sent)"
  "slot_step (slot_at op b r (S_Wait x) R_Signal acc sent) (slot_at op b r (S_Wait x) R_Poll acc sent)"
  using slot_step.by_link [OF rcv_poll [of "slot_at True b r p R_Poll acc sent"]]
    slot_step.by_link [OF rcv_ready [of "slot_at True b True p R_Round acc sent"]]
    slot_step.by_link [OF rcv_send [of "slot_at True (Some x) r p R_Send acc sent" x]]
    slot_step.by_link [OF rcv_send_fails [of "slot_at op b r p R_Send acc sent"]]
    slot_step.by_link [OF rcv_hang [of "slot_at False b r p R_Round acc sent"]]
    slot_step.by_link [OF rcv_clear [of "slot_at op b r p R_Clear acc sent"]]
    slot_step.by_link [OF rcv_unready [of "slot_at op b r p R_Unready acc sent"]]
    slot_step.by_link [OF rcv_signal [of "slot_at op b r (S_Wait x) R_Signal acc sent"]]
  by (simp_all add: slot_at_def)

lemma slot_at_down: "slot_any (slot_at True b r p c acc sent) (slot_at False b r p c acc sent)"
  using by_down [of "slot_at True b r p c acc sent"] by (simp add: slot_at_def)

text \<open>A frame is in the buffer; the sender comes with a second one and finds the flag set.\<close>

lemma slot_full_reachable:
  "slot_step\<^sup>*\<^sup>* slot_init (slot_at True (Some 1) True S_Idle R_Poll [1] [])"
  "slot_step\<^sup>*\<^sup>* slot_init (slot_at True (Some 1) True (S_Wait 2) R_Poll [1] [])"
proof -
  note r = rtranclp.rtrancl_into_rtrancl
  have i: "slot_init = slot_at True None False S_Idle R_Poll [] []" by (simp add: slot_init_def slot_at_def)
  have "slot_step\<^sup>*\<^sup>* slot_init (slot_at True None False (S_Call 1) R_Poll [] [])"
    unfolding i using slot_at_sender(1) by (rule r_into_rtranclp)
  from r [OF r [OF r [OF r [OF r [OF r [OF this slot_at_sender(2)] slot_at_sender(3)] slot_at_sender(4)]
      slot_at_sender(7)] slot_at_sender(8)] slot_at_sender(9)]
  show f: "slot_step\<^sup>*\<^sup>* slot_init (slot_at True (Some 1) True S_Idle R_Poll [1] [])" by simp
  from r [OF r [OF r [OF r [OF f slot_at_sender(1)] slot_at_sender(2)] slot_at_sender(3)] slot_at_sender(5)]
  show "slot_step\<^sup>*\<^sup>* slot_init (slot_at True (Some 1) True (S_Wait 2) R_Poll [1] [])" .
qed

text \<open>The link sends and signals nobody, then the sender sleeps.\<close>

lemma slot_lost_reachable:
  "slot_step\<^sup>*\<^sup>* slot_init (slot_at True None False (S_Asleep 2) R_Poll [1] [1])"
proof -
  note r = rtranclp.rtrancl_into_rtrancl
  from r [OF r [OF r [OF r [OF r [OF r [OF r [OF slot_full_reachable(2) slot_at_link(1)] slot_at_link(2)] slot_at_link(3)]
      slot_at_link(6)] slot_at_link(7)] slot_at_link(8)] slot_at_sender(6)]
  show ?thesis by simp
qed

text \<open>The sender sleeps on a full buffer, and the link's thread fails, hangs or finds the socket closed.\<close>

lemma slot_full_stuck:
  "slot_step\<^sup>*\<^sup>* slot_init (slot_at True (Some 1) True (S_Asleep 2) R_Fault [1] [])"
  "slot_any\<^sup>*\<^sup>* slot_init (slot_at False (Some 1) True (S_Asleep 2) R_Poll [1] [])"
  "slot_any\<^sup>*\<^sup>* slot_init (slot_at False (Some 1) True (S_Asleep 2) R_Hung [1] [])"
proof -
  note r = rtranclp.rtrancl_into_rtrancl
  have a: "slot_step\<^sup>*\<^sup>* slot_init (slot_at True (Some 1) True (S_Asleep 2) R_Poll [1] [])"
    using r [OF slot_full_reachable(2) slot_at_sender(6)] .
  from r [OF r [OF r [OF a slot_at_link(1)] slot_at_link(2)] slot_at_link(4)]
  show "slot_step\<^sup>*\<^sup>* slot_init (slot_at True (Some 1) True (S_Asleep 2) R_Fault [1] [])" .
  from r [OF slot_threads_reach [OF a] slot_at_down]
  show "slot_any\<^sup>*\<^sup>* slot_init (slot_at False (Some 1) True (S_Asleep 2) R_Poll [1] [])" .
  from r [OF r [OF slot_threads_reach [OF r [OF a slot_at_link(1)]] slot_at_down] by_threads [OF slot_at_link(5)]]
  show "slot_any\<^sup>*\<^sup>* slot_init (slot_at False (Some 1) True (S_Asleep 2) R_Hung [1] [])" .
qed

theorem slot_handover_witness:
  "sl_buf (slot_at True (Some 1) True S_Idle R_Poll [1] []) = Some 1
   \<and> sl_sent (slot_at True (Some 1) True S_Idle R_Poll [1] [])
       @ slot_contents (slot_at True (Some 1) True S_Idle R_Poll [1] []) = [1]"
  using slot_handover [OF slot_threads_reach [OF slot_full_reachable(1)]] by (simp add: slot_at_def)

text \<open>
  C24: when a sender that has a frame is stuck.  Because \<open>send_data\<close> clears the flag and signals without the mutex, the
  signal can fall between the sender's test and its wait; then the sender sleeps with the buffer empty and the socket
  open, and no run of the two threads moves it, without a spurious wake-up.  With \<open>up\<close> and \<open>down\<close> at any moment, a sender with a
  frame is stuck exactly when it sleeps and this has happened, or the buffer is full and the socket is closed, or the
  link's thread hangs in a call on the closed socket or has made a failing access (as after a failed \<open>sendto\<close>); each of these happens.
\<close>

theorem send_frame_lost_wakeup:
  "(\<exists>s :: nat slot. slot_step\<^sup>*\<^sup>* slot_init s \<and> sl_snd s = S_Asleep 2 \<and> sl_open s \<and> sl_buf s = None \<and> sl_rcv s = R_Poll
      \<and> sender_stuck s)
   \<and> (\<exists>s :: nat slot. slot_any\<^sup>*\<^sup>* slot_init s \<and> \<not> sl_open s \<and> sl_buf s = Some 1 \<and> sl_rcv s = R_Poll \<and> sender_stuck s)
   \<and> (\<exists>s :: nat slot. slot_any\<^sup>*\<^sup>* slot_init s \<and> sl_buf s = Some 1 \<and> sl_rcv s = R_Hung \<and> sender_stuck s)
   \<and> (\<exists>s :: nat slot. slot_step\<^sup>*\<^sup>* slot_init s \<and> sl_buf s = Some 1 \<and> sl_rcv s = R_Fault \<and> sender_stuck s)
   \<and> (\<forall>s :: nat slot. slot_any\<^sup>*\<^sup>* slot_init s \<and> sl_snd s \<noteq> S_Idle \<longrightarrow>
        (sender_stuck s \<longleftrightarrow> (\<exists>x. sl_snd s = S_Asleep x)
          \<and> (\<not> sl_ready s \<and> sl_buf s = None \<and> sl_rcv s \<in> {R_Poll, R_Round}
            \<or> \<not> sl_open s \<and> sl_ready s \<and> sl_buf s \<noteq> None \<and> sl_rcv s \<in> {R_Poll, R_Round, R_Send}
            \<or> sl_rcv s \<in> {R_Hung, R_Fault})))"
proof (intro conjI allI impI)
  show "\<exists>s :: nat slot. slot_step\<^sup>*\<^sup>* slot_init s \<and> sl_snd s = S_Asleep 2 \<and> sl_open s \<and> sl_buf s = None \<and> sl_rcv s = R_Poll
      \<and> sender_stuck s"
    by (rule exI, rule conjI, rule slot_lost_reachable) (simp add: slot_at_def sleeps_forever_stuck sleep_defs)
  show "\<exists>s :: nat slot. slot_any\<^sup>*\<^sup>* slot_init s \<and> \<not> sl_open s \<and> sl_buf s = Some 1 \<and> sl_rcv s = R_Poll \<and> sender_stuck s"
    by (rule exI, rule conjI, rule slot_full_stuck(2)) (simp add: slot_at_def sleeps_forever_stuck sleep_defs)
  show "\<exists>s :: nat slot. slot_any\<^sup>*\<^sup>* slot_init s \<and> sl_buf s = Some 1 \<and> sl_rcv s = R_Hung \<and> sender_stuck s"
    by (rule exI, rule conjI, rule slot_full_stuck(3)) (simp add: slot_at_def sleeps_forever_stuck sleep_defs)
  show "\<exists>s :: nat slot. slot_step\<^sup>*\<^sup>* slot_init s \<and> sl_buf s = Some 1 \<and> sl_rcv s = R_Fault \<and> sender_stuck s"
    by (rule exI, rule conjI, rule slot_full_stuck(1)) (simp add: slot_at_def sleeps_forever_stuck sleep_defs)
next
  fix s :: "nat slot"
  assume a: "slot_any\<^sup>*\<^sup>* slot_init s \<and> sl_snd s \<noteq> S_Idle"
  then have "sender_stuck s \<longleftrightarrow> sleeps_forever s"
    using sleeps_forever_stuck stuck_sleeps_forever slot_reach(1) by blast
  then show "sender_stuck s \<longleftrightarrow> (\<exists>x. sl_snd s = S_Asleep x)
      \<and> (\<not> sl_ready s \<and> sl_buf s = None \<and> sl_rcv s \<in> {R_Poll, R_Round}
        \<or> \<not> sl_open s \<and> sl_ready s \<and> sl_buf s \<noteq> None \<and> sl_rcv s \<in> {R_Poll, R_Round, R_Send}
        \<or> sl_rcv s \<in> {R_Hung, R_Fault})"
    by (simp only: sleep_defs)
qed

theorem send_frame_lost_wakeup_witness:
  "\<exists>s :: nat slot. sl_snd s = S_Asleep 2 \<and> \<not> sl_ready s \<and> sl_rcv s = R_Poll \<and> sender_stuck s"
proof -
  obtain s :: "nat slot" where s: "slot_step\<^sup>*\<^sup>* slot_init s" "sl_snd s = S_Asleep 2" "sl_buf s = None" "sl_rcv s = R_Poll" "sender_stuck s"
    using send_frame_lost_wakeup by blast
  have r: "slot_any\<^sup>*\<^sup>* slot_init s" using s(1) by (rule slot_threads_reach)
  have "sl_snd s \<noteq> S_Idle" using s(2) by simp
  with r s send_frame_lost_wakeup show ?thesis by (metis rcv_pc.distinct(11,13) empty_iff insert_iff)
qed

end
