(* ===== verification/Atomic_Ops.thy ===== *)
theory Atomic_Ops
  imports Slot_Protocol Link_Layer
begin

text \<open>
  The node model takes \<open>send_frame\<close>, \<open>send_data\<close>, \<open>push\<close> and \<open>pop\<close> as atomic operations, while the threads
  interleave between their accesses.  A run of the fine-grained steps is simulated by a run of the atomic
  operations: the operation happens at one of its steps, and the others change nothing that the node model sees.
\<close>

section \<open>The interface of a simulation\<close>

locale simulation =
  fixes fine :: "'s \<Rightarrow> 's \<Rightarrow> bool"
    and sane :: "'s \<Rightarrow> bool"
    and view :: "'s \<Rightarrow> 'a"
    and atomic :: "'a \<Rightarrow> 'a \<Rightarrow> bool"
  assumes sane_fine: "fine s s' \<Longrightarrow> sane s \<Longrightarrow> sane s'"
    and fine_step: "fine s s' \<Longrightarrow> sane s \<Longrightarrow> view s' = view s \<or> atomic (view s) (view s')"
begin

lemma run_simulated: "fine\<^sup>*\<^sup>* s s' \<Longrightarrow> sane s \<Longrightarrow> sane s' \<and> atomic\<^sup>*\<^sup>* (view s) (view s')"
proof (induction rule: rtranclp_induct)
  case (step s1 s2)
  then have "sane s1" "atomic\<^sup>*\<^sup>* (view s) (view s1)" by simp_all
  with sane_fine [OF step(2)] fine_step [OF step(2)] show ?case
    by (metis rtranclp.rtrancl_into_rtrancl)
qed simp

end

section \<open>The send buffer\<close>

text \<open>A link with the chunks that it handed to \<open>sendto\<close>; every \<open>sendto\<close> takes the whole frame or fails.\<close>

inductive buffer_op :: "link \<times> byte list list \<Rightarrow> link \<times> byte list list \<Rightarrow> bool" where
  op_send_frame: "send_frame x (length x) l = Some (Inr l') \<Longrightarrow> buffer_op (l, out) (l', out)"
| op_send_data: "sbufferReady l \<Longrightarrow> send_data [int (sbuffersz l)] l = Some (Inr (chunks, l'))
    \<Longrightarrow> buffer_op (l, out) (l', out @ chunks)"

text \<open>
  What the node model sees of the slot of link \<open>l\<close>: the buffer holds a frame from the moment the sender stores it
  until \<open>sendto\<close> returns; a frame of no bytes is never given to \<open>sendto\<close>.
\<close>

definition slot_link :: "link \<Rightarrow> byte list slot \<Rightarrow> link" where
  "slot_link l s = l\<lparr>sbuffer := (case slot_contents s of [] \<Rightarrow> None | x # xs \<Rightarrow> Some x),
     sbufferReady := slot_contents s \<noteq> [],
     sbuffersz := (if sl_accepted s = [] then sbuffersz l else length (last (sl_accepted s)))\<rparr>"

definition slot_view :: "link \<Rightarrow> byte list slot \<Rightarrow> link \<times> byte list list" where
  "slot_view l s = (slot_link l s, filter (\<lambda>x. x \<noteq> []) (sl_sent s))"

definition slot_sane :: "link \<Rightarrow> byte list slot \<Rightarrow> bool" where
  "slot_sane l s \<longleftrightarrow> s_local l \<noteq> -1 \<and> sl_open s \<and> slot_inv s \<and> sl_sent s @ slot_contents s = sl_accepted s"

lemma slot_contents_short: "slot_contents s = [] \<or> (\<exists>x. slot_contents s = [x])"
  by (simp add: slot_contents_def split: option.splits)

lemma slot_accept:
  assumes "s_local l \<noteq> -1" and "slot_contents s' = slot_contents s @ [x]" and "sl_accepted s' = sl_accepted s @ [x]"
    and "sl_sent s' = sl_sent s"
  shows "buffer_op (slot_view l s) (slot_view l s')"
proof -
  have c: "slot_contents s = []" "slot_contents s' = [x]"
    using slot_contents_short [of s'] assms(2) by auto
  have "send_frame x (length x) (slot_link l s) = Some (Inr (slot_link l s'))"
    using assms(1) c by (simp add: send_frame_def slot_link_def get_bytes_def assms(3))
  then show ?thesis using assms(4) unfolding slot_view_def by (auto intro: op_send_frame)
qed

lemma slot_send_data:
  assumes "slot_contents s = x # slot_contents s'" and "sl_sent s @ slot_contents s = sl_accepted s"
    and "sl_accepted s' = sl_accepted s"
  shows "send_data [int (sbuffersz (slot_link l s))] (slot_link l s)
    = Some (Inr (filter (\<lambda>x. x \<noteq> []) [x], slot_link l s'))"
proof -
  have c: "slot_contents s = [x]" "slot_contents s' = []" "last (sl_accepted s) = x" "sl_accepted s \<noteq> []"
    using slot_contents_short [of s] assms(1) assms(2) [symmetric] by auto
  let ?l = "slot_link l s"
  have f: "sbuffer ?l = Some x" "sbuffersz ?l = length x"
    "slot_link l s' = ?l\<lparr>sbuffer := None, sbufferReady := False\<rparr>"
    using c assms(3) by (simp_all add: slot_link_def)
  show ?thesis
  proof (cases "x = []")
    case True
    then show ?thesis using f by (simp add: send_data_def send_loop.simps)
  next
    case False
    then show ?thesis using send_data_whole [of ?l x "[]"] f by simp
  qed
qed

lemma slot_transmit:
  assumes "slot_contents s = x # slot_contents s'" and "sl_sent s @ slot_contents s = sl_accepted s"
    and "sl_accepted s' = sl_accepted s" and "sl_sent s' = sl_sent s @ [x]"
  shows "buffer_op (slot_view l s) (slot_view l s')"
proof -
  have "sbufferReady (slot_link l s)" using assms(1) by (simp add: slot_link_def)
  from op_send_data [OF this slot_send_data [OF assms(1-3)]] show ?thesis
    using assms(4) unfolding slot_view_def by simp
qed

lemma slot_step_open: "slot_step s s' \<Longrightarrow> sl_open s' = sl_open s"
  by (induction rule: slot_step.induct) (auto elim: snd_step.cases rcv_step.cases)

interpretation slot_atomic: simulation slot_step "slot_sane l" "slot_view l" buffer_op
proof
  fix s s'
  assume st: "slot_step s s'" and sane: "slot_sane l s"
  then have i: "slot_inv s" "sl_sent s @ slot_contents s = sl_accepted s" "s_local l \<noteq> -1" by (simp_all add: slot_sane_def)
  have o: "sl_open s'" using slot_step_open [OF st] sane by (simp add: slot_sane_def)
  note f = slot_fifo_step [OF st i(1)]
  show "slot_sane l s'" using slot_step_inv [OF st i(1)] i f o by (auto simp: slot_sane_def)
  from f show "slot_view l s' = slot_view l s \<or> buffer_op (slot_view l s) (slot_view l s')"
  proof (elim disjE exE conjE)
    fix x
    assume "slot_contents s' = slot_contents s @ [x]" "sl_accepted s' = sl_accepted s @ [x]" "sl_sent s' = sl_sent s"
    with i(3) show ?thesis using slot_accept by blast
  next
    fix x
    assume "slot_contents s = x # slot_contents s'" "sl_accepted s' = sl_accepted s" "sl_sent s' = sl_sent s @ [x]"
    with i(2) show ?thesis using slot_transmit by blast
  qed (simp add: slot_view_def slot_link_def)
qed

section \<open>The message queue\<close>

text \<open>A queue of the node model with the items taken from it.\<close>

inductive queue_op :: "'a list \<times> 'a list \<Rightarrow> 'a list \<times> 'a list \<Rightarrow> bool" where
  op_push: "queue_op (q, out) (q @ [x], out)"
| op_pop: "queue_op (x # q, out) (q, out @ [x])"

definition queue_view :: "'a mq \<Rightarrow> 'a list \<times> 'a list" where
  "queue_view s = (mq_items s, mq_popped s)"

interpretation queue_atomic: simulation "mq_any c" "mq_inv c" queue_view queue_op
proof
  fix s s' :: "'a mq"
  assume "mq_any c s s'" and inv: "mq_inv c s"
  then obtain t where t: "mq_step c t s s'" by (auto simp: mq_any_def)
  show "mq_inv c s'" by (rule mq_inv_step [OF t inv])
  from mq_fifo_step [OF t] show "queue_view s' = queue_view s \<or> queue_op (queue_view s) (queue_view s')"
    by (auto simp: queue_view_def intro: queue_op.intros)
qed

section \<open>Properties\<close>

text \<open>
  Every interleaving of the threads in \<open>push\<close> and \<open>pop\<close> is, for the contents of the queue and the order in which items
  leave it, a sequence of atomic appends and removals of the first item.
\<close>

theorem queue_runs_atomically:
  assumes "(mq_any c)\<^sup>*\<^sup>* mq_init s"
  shows "queue_op\<^sup>*\<^sup>* ([], []) (mq_items s, mq_popped s)"
proof -
  from queue_atomic.run_simulated [OF assms mq_inv_init] show ?thesis by (simp add: queue_view_def mq_init_def)
qed

text \<open>
  Every interleaving of \<open>send_frame\<close> and \<open>send_data\<close> on an open link is a sequence of the atomic operations of the
  node model: from the link with its buffer free, calls of \<open>send_frame\<close> that find the buffer free and whole
  transmissions by \<open>send_data\<close> lead to the link with the buffered frame, and the chunks sent are the
  non-empty frames that left the slot, in order.
\<close>

theorem slot_runs_atomically:
  assumes "slot_step\<^sup>*\<^sup>* slot_init s" and "s_local l \<noteq> -1" and "sbuffer l = None" and "\<not> sbufferReady l"
  shows "buffer_op\<^sup>*\<^sup>* (l, []) (slot_link l s, filter (\<lambda>x. x \<noteq> []) (sl_sent s))"
proof -
  have "slot_sane l slot_init" using assms(2) slot_inv_init by (simp add: slot_sane_def slot_init_def slot_contents_def)
  from slot_atomic.run_simulated [OF assms(1) this] have "buffer_op\<^sup>*\<^sup>* (slot_view l slot_init) (slot_view l s)" by simp
  moreover have "slot_view l slot_init = (l, [])"
    using assms(3,4) by (cases l) (simp add: slot_view_def slot_link_def slot_init_def slot_contents_def)
  ultimately show ?thesis by (simp add: slot_view_def)
qed

text \<open>The sender stored a frame of two bytes and has not yet set the flag.\<close>

definition slot_stored :: "byte list slot" where
  "slot_stored = \<lparr>sl_buf = Some [72, 105], sl_ready = False, sl_locked = True, sl_open = True, sl_snd = S_Publish, sl_rcv = R_Poll,
     sl_accepted = [[72, 105]], sl_sent = []\<rparr>"

lemma slot_stored_reachable: "slot_step\<^sup>*\<^sup>* slot_init slot_stored"
proof -
  let ?s0 = "slot_init\<lparr>sl_snd := S_Call [72, 105]\<rparr> :: byte list slot"
  let ?s1 = "?s0\<lparr>sl_snd := S_Lock [72, 105]\<rparr>"
  let ?s2 = "?s1\<lparr>sl_locked := True, sl_snd := S_Test [72, 105]\<rparr>"
  let ?s3 = "?s2\<lparr>sl_snd := S_Fill [72, 105]\<rparr>"
  have "slot_step slot_init ?s0" by (rule slot_step.start) (simp add: slot_init_def)
  moreover have "slot_step ?s0 ?s1" by (intro by_sender snd_opened) (simp_all add: slot_init_def)
  moreover have "slot_step ?s1 ?s2" by (intro by_sender snd_lock) (simp_all add: slot_init_def)
  moreover have "slot_step ?s2 ?s3" by (intro by_sender snd_free) (simp_all add: slot_init_def)
  moreover have "slot_step ?s3 slot_stored"
    using slot_step.by_sender [OF snd_fill [of ?s3 "[72, 105]"]] by (simp add: slot_init_def slot_stored_def)
  ultimately show ?thesis by (meson converse_rtranclp_into_rtranclp rtranclp.rtrancl_refl)
qed

theorem slot_runs_atomically_witness:
  "buffer_op\<^sup>*\<^sup>* (A_ifs ! 0, []) ((A_ifs ! 0)\<lparr>sbuffer := Some [72, 105], sbufferReady := True, sbuffersz := 2\<rparr>, [])"
proof -
  have "s_local (A_ifs ! 0) \<noteq> -1" "sbuffer (A_ifs ! 0) = None" "\<not> sbufferReady (A_ifs ! 0)"
    by (simp_all add: A_ifs_def link_of_def)
  from slot_runs_atomically [OF slot_stored_reachable this] show ?thesis
    by (simp add: numeral_2_eq_2 slot_link_def slot_stored_def slot_contents_def)
qed

end
