(* ===== verification/Sending_Path.thy ===== *)
theory Sending_Path
  imports Atomic_Ops Delivery
begin

text \<open>
  The path of a packet through the threads of a node, access by access: any thread pushes it on
  \<open>_incomingqueue\<close>, \<open>process_in_queue\<close> pops it and calls \<open>send_frame\<close> of its interface, the thread of the interface
  transmits it.  The node model has one event for the round of \<open>process_in_queue\<close> and one for the
  transmission; here every interleaving of the three kinds of threads is simulated by these events.
\<close>

section \<open>The threads together\<close>

text \<open>\<open>process_in_queue\<close> between \<open>pop\<close> and the next \<open>pop\<close>.\<close>

datatype hand = No_Msg | To_Send ipmsg | Sending ipmsg

record sending =
  sd_queue :: "ipmsg mq"
  sd_hand :: hand
  sd_slots :: "nat \<Rightarrow> byte list slot"

text \<open>
  Thread \<open>c\<close> runs \<open>process_in_queue\<close>; the interfaces of node \<open>n\<close> are open.  A message is sent when it names
  an interface and has its bytes, as every message of a reachable node does.
\<close>

inductive sending_step :: "nat \<Rightarrow> node \<Rightarrow> sending \<Rightarrow> sending \<Rightarrow> bool" for c n where
  others_push: "mq_step c t (sd_queue s) q \<Longrightarrow> t \<noteq> c \<Longrightarrow> sending_step c n s (s\<lparr>sd_queue := q\<rparr>)"
| in_pop: "sd_hand s = No_Msg \<Longrightarrow> mq_step c c (sd_queue s) q \<Longrightarrow> in_pop (mq_pc q c)
    \<Longrightarrow> sending_step c n s (s\<lparr>sd_queue := q\<rparr>)"
| pop_returns: "sd_hand s = No_Msg \<Longrightarrow> mq_pc (sd_queue s) c = Pop_Unlock m \<Longrightarrow> mq_inside c (sd_queue s) q
    \<Longrightarrow> sending_step c n s (s\<lparr>sd_queue := q, sd_hand := To_Send m\<rparr>)"
| calls_send_frame: "sd_hand s = To_Send m \<Longrightarrow> ifc m < length (interfaces n)
    \<Longrightarrow> get_bytes (ippacket m) (msize m) = Inr x
    \<Longrightarrow> sending_step c n s (s\<lparr>sd_hand := Sending m,
          sd_slots := (sd_slots s)(ifc m := (sd_slots s (ifc m))\<lparr>sl_snd := S_Call x\<rparr>)\<rparr>)"
| in_send_frame: "sd_hand s = Sending m \<Longrightarrow> snd_step (sd_slots s (ifc m)) sl
    \<Longrightarrow> sending_step c n s (s\<lparr>sd_hand := (if sl_snd sl = S_Idle then No_Msg else Sending m),
          sd_slots := (sd_slots s)(ifc m := sl)\<rparr>)"
| wakes_up: "sd_hand s = Sending m \<Longrightarrow> sl_snd (sd_slots s (ifc m)) = S_Asleep x
    \<Longrightarrow> sending_step c n s (s\<lparr>sd_slots := (sd_slots s)(ifc m := (sd_slots s (ifc m))\<lparr>sl_snd := S_Relock x\<rparr>)\<rparr>)"
| in_link: "k < length (interfaces n) \<Longrightarrow> rcv_step (sd_slots s k) sl
    \<Longrightarrow> sending_step c n s (s\<lparr>sd_slots := (sd_slots s)(k := sl)\<rparr>)"

definition sending_init :: sending where
  "sending_init = \<lparr>sd_queue = mq_init, sd_hand = No_Msg, sd_slots = (\<lambda>k. slot_init)\<rparr>"

section \<open>What the node model sees\<close>

text \<open>Whether \<open>send_frame\<close> has still to store the frame, and the frame it was called with.\<close>

fun storing :: "'a snd_pc \<Rightarrow> 'a option" where
  "storing (S_Call x) = Some x"
| "storing (S_Lock x) = Some x"
| "storing (S_Test x) = Some x"
| "storing (S_Wait x) = Some x"
| "storing (S_Asleep x) = Some x"
| "storing (S_Relock x) = Some x"
| "storing (S_Fill x) = Some x"
| "storing p = None"

fun unsent :: "hand \<Rightarrow> (nat \<Rightarrow> byte list slot) \<Rightarrow> ipmsg list" where
  "unsent No_Msg slots = []"
| "unsent (To_Send m) slots = [m]"
| "unsent (Sending m) slots = (if storing (sl_snd (slots (ifc m))) = None then [] else [m])"

definition sending_links :: "node \<Rightarrow> (nat \<Rightarrow> byte list slot) \<Rightarrow> link list" where
  "sending_links n slots = map (\<lambda>k. slot_link (interfaces n ! k) (slots k)) [0..<length (interfaces n)]"

definition sending_node :: "nat \<Rightarrow> node \<Rightarrow> sending \<Rightarrow> node" where
  "sending_node c n s = n\<lparr>interfaces := sending_links n (sd_slots s),
     incomingqueue := unsent (sd_hand s) (sd_slots s) @ returning (mq_pc (sd_queue s) c) @ mq_items (sd_queue s)\<rparr>"

text \<open>With it, what every interface handed to \<open>sendto\<close>.\<close>

definition sending_view :: "nat \<Rightarrow> node \<Rightarrow> sending \<Rightarrow> node \<times> (nat \<Rightarrow> byte list list)" where
  "sending_view c n s = (sending_node c n s, \<lambda>k. filter (\<lambda>x. x \<noteq> []) (sl_sent (sd_slots s k)))"

text \<open>The events of the node model, with a thread that appends to the queue.\<close>

inductive path_op :: "node \<times> (nat \<Rightarrow> byte list list) \<Rightarrow> node \<times> (nat \<Rightarrow> byte list list) \<Rightarrow> bool" where
  op_append: "path_op (nd, out) (nd\<lparr>incomingqueue := incomingqueue nd @ [m]\<rparr>, out)"
| op_in_round: "node_step In_Round nd = Some (Inr nd') \<Longrightarrow> path_op (nd, out) (nd', out)"
| op_transmit: "k < length (interfaces nd) \<Longrightarrow> l = interfaces nd ! k \<Longrightarrow> sbufferReady l
    \<Longrightarrow> send_data [int (sbuffersz l)] l = Some (Inr (chunks, l'))
    \<Longrightarrow> node_step (Link_Round k None (Some [int (sbuffersz l)])) nd = Some (Inr nd')
    \<Longrightarrow> path_op (nd, out) (nd', out(k := out k @ chunks))"

lemma sending_links_sel:
  "length (sending_links n slots) = length (interfaces n)"
  "k < length (interfaces n) \<Longrightarrow> sending_links n slots ! k = slot_link (interfaces n ! k) (slots k)"
  "k < length (interfaces n) \<Longrightarrow> sending_links n (slots(k := sl)) = (sending_links n slots)[k := slot_link (interfaces n ! k) sl]"
  by (auto simp: sending_links_def intro!: nth_equalityI simp: nth_list_update)

lemma slot_contents_snd [simp]: "slot_contents (s\<lparr>sl_snd := p\<rparr>) = slot_contents s"
  by (simp add: slot_contents_def split: option.split)

lemma slot_link_cong:
  "slot_contents s' = slot_contents s \<Longrightarrow> sl_accepted s' = sl_accepted s \<Longrightarrow> slot_link l s' = slot_link l s"
  by (simp add: slot_link_def)

lemma sending_links_same:
  assumes "slot_contents sl = slot_contents (slots k)" and "sl_accepted sl = sl_accepted (slots k)"
  shows "sending_links n (slots(k := sl)) = sending_links n slots"
  using slot_link_cong [OF assms] by (simp add: sending_links_def)

section \<open>The invariant\<close>

definition sending_inv :: "nat \<Rightarrow> node \<Rightarrow> sending \<Rightarrow> bool" where
  "sending_inv c n s \<longleftrightarrow> mq_inv c (sd_queue s)
     \<and> (\<forall>k < length (interfaces n). slot_sane (interfaces n ! k) (sd_slots s k))
     \<and> (\<forall>k < length (interfaces n). sl_snd (sd_slots s k) \<noteq> S_Idle \<longrightarrow> (\<exists>m. sd_hand s = Sending m \<and> ifc m = k))
     \<and> (\<forall>m. sd_hand s = Sending m \<longrightarrow> ifc m < length (interfaces n)
          \<and> (\<forall>x. storing (sl_snd (sd_slots s (ifc m))) = Some x \<longrightarrow> get_bytes (ippacket m) (msize m) = Inr x))"

text \<open>A step of \<open>send_frame\<close> stores the frame or changes nothing that is seen.\<close>

lemma snd_step_seen:
  assumes "snd_step s s'" and "slot_inv s" and "sl_open s"
  shows "(\<exists>x. storing (sl_snd s) = Some x \<and> storing (sl_snd s') = None \<and> slot_contents s' = slot_contents s @ [x]
        \<and> sl_accepted s' = sl_accepted s @ [x] \<and> sl_sent s' = sl_sent s)
    \<or> (storing (sl_snd s') = storing (sl_snd s) \<and> slot_contents s' = slot_contents s
        \<and> sl_accepted s' = sl_accepted s \<and> sl_sent s' = sl_sent s)"
  using assms by cases (auto simp: slot_contents_def slot_inv_def split: option.splits)

text \<open>A step of the link's thread transmits or changes nothing that is seen; it may wake the sender.\<close>

lemma rcv_step_seen:
  assumes "rcv_step s s'" and "slot_inv s"
  shows "storing (sl_snd s') = storing (sl_snd s)" and "sl_snd s' = S_Idle \<longleftrightarrow> sl_snd s = S_Idle"
    and "(\<exists>x. slot_contents s = x # slot_contents s' \<and> sl_accepted s' = sl_accepted s \<and> sl_sent s' = sl_sent s @ [x])
      \<or> (slot_contents s' = slot_contents s \<and> sl_accepted s' = sl_accepted s \<and> sl_sent s' = sl_sent s)"
proof -
  have w: "storing (signalled p) = storing p" "signalled p = S_Idle \<longleftrightarrow> p = S_Idle" for p :: "'a snd_pc"
    by (cases p; simp)+
  show "storing (sl_snd s') = storing (sl_snd s)" "sl_snd s' = S_Idle \<longleftrightarrow> sl_snd s = S_Idle"
    using assms(1) by (cases; simp add: w)+
  show "(\<exists>x. slot_contents s = x # slot_contents s' \<and> sl_accepted s' = sl_accepted s \<and> sl_sent s' = sl_sent s @ [x])
      \<or> (slot_contents s' = slot_contents s \<and> sl_accepted s' = sl_accepted s \<and> sl_sent s' = sl_sent s)"
    using assms by cases (auto simp: slot_contents_def slot_inv_def split: option.splits)
qed

text \<open>The queue with the item that \<open>pop\<close> is about to return.\<close>

lemma mq_step_seen:
  assumes "mq_step c t s s'" and "serve_inv c s" and "t = c \<longrightarrow> in_pop (mq_pc s' c)"
  shows "(returning (mq_pc s' c) @ mq_items s' = returning (mq_pc s c) @ mq_items s \<and> mq_pushed s' = mq_pushed s)
    \<or> (\<exists>x. returning (mq_pc s' c) @ mq_items s' = returning (mq_pc s c) @ mq_items s @ [x] \<and> mq_pushed s' = mq_pushed s @ [x])"
  using assms(1)
proof cases
  case inside
  note sv = serve_at [OF assms(2)]
  from inside show ?thesis
  proof (cases rule: mq_inside.cases)
    case (push_wakes w)
    then show ?thesis using assms(3) by (auto simp: sv [OF push_wakes(3)])
  next
    case (pop_front x xs)
    then show ?thesis using sv [OF pop_front(2)] by auto
  next
    case (pop_unlock x)
    then show ?thesis using sv [OF pop_unlock(2)] assms(3) by auto
  qed auto
qed auto

lemma sending_inv_slot:
  assumes "sending_inv c n s" and "k < length (interfaces n)" and "slot_step (sd_slots s k) sl"
  shows "\<forall>j < length (interfaces n). slot_sane (interfaces n ! j) (((sd_slots s)(k := sl)) j)"
  using assms slot_atomic.sane_fine [OF assms(3), of "interfaces n ! k"] by (auto simp: sending_inv_def)

lemma sending_inv_idle:
  assumes "sending_inv c n s" and "k < length (interfaces n)" and "\<And>m. sd_hand s = Sending m \<Longrightarrow> ifc m \<noteq> k"
  shows "sl_snd (sd_slots s k) = S_Idle"
  using assms by (auto simp: sending_inv_def)

lemma sending_inv_sender:
  assumes inv: "sending_inv c n s" and h: "sd_hand s = Sending m" and st: "slot_step (sd_slots s (ifc m)) sl"
    and x: "\<forall>x. storing (sl_snd sl) = Some x \<longrightarrow> storing (sl_snd (sd_slots s (ifc m))) = Some x"
    and h': "h' = Sending m \<or> h' = No_Msg \<and> sl_snd sl = S_Idle"
  shows "sending_inv c n (s\<lparr>sd_hand := h', sd_slots := (sd_slots s)(ifc m := sl)\<rparr>)"
proof -
  have m: "ifc m < length (interfaces n)" and g: "\<forall>x. storing (sl_snd (sd_slots s (ifc m))) = Some x \<longrightarrow> get_bytes (ippacket m) (msize m) = Inr x"
    and q: "mq_inv c (sd_queue s)" using inv h by (simp_all add: sending_inv_def)
  have "\<exists>m'. h' = Sending m' \<and> ifc m' = k" if "k < length (interfaces n)" "sl_snd (((sd_slots s)(ifc m := sl)) k) \<noteq> S_Idle" for k
  proof (cases "k = ifc m")
    case False
    with sending_inv_idle [OF inv that(1)] h that(2) show ?thesis by simp
  qed (use h' that(2) in auto)
  moreover have "ifc m' < length (interfaces n) \<and> (\<forall>x. storing (sl_snd (((sd_slots s)(ifc m := sl)) (ifc m'))) = Some x
      \<longrightarrow> get_bytes (ippacket m') (msize m') = Inr x)" if "h' = Sending m'" for m'
  proof -
    have "m' = m" using h' that by simp
    with m g x show ?thesis by simp
  qed
  ultimately show ?thesis using q sending_inv_slot [OF inv m st] unfolding sending_inv_def by simp
qed

lemma sending_inv_step:
  assumes "sending_step c n s s'" and inv: "sending_inv c n s"
  shows "sending_inv c n s'"
proof -
  have q: "mq_inv c (sd_queue s)" using inv by (simp add: sending_inv_def)
  from assms(1) show ?thesis
  proof cases
    case (others_push t q')
    then show ?thesis using inv mq_inv_step [OF others_push(2) q] by (simp add: sending_inv_def)
  next
    case (in_pop q')
    then show ?thesis using inv mq_inv_step [OF in_pop(3) q] by (simp add: sending_inv_def)
  next
    case (pop_returns m q')
    then show ?thesis using inv mq_inv_step [OF mq_step.inside [OF pop_returns(4)] q] by (simp add: sending_inv_def)
  next
    case (calls_send_frame m x)
    have i: "sl_snd (sd_slots s (ifc m)) = S_Idle" by (rule sending_inv_idle [OF inv]) (simp_all add: calls_send_frame)
    from sending_inv_slot [OF inv calls_send_frame(3) slot_step.start [OF i]] show ?thesis
      using inv calls_send_frame by (simp add: sending_inv_def)
  next
    case (in_send_frame m sl)
    have si: "slot_inv (sd_slots s (ifc m))" "sl_open (sd_slots s (ifc m))" using inv in_send_frame(2) by (simp_all add: sending_inv_def slot_sane_def)
    show ?thesis unfolding in_send_frame(1)
      by (rule sending_inv_sender [OF inv in_send_frame(2) slot_step.by_sender [OF in_send_frame(3)]])
        (use snd_step_seen [OF in_send_frame(3) si(1) si(2)] in auto)
  next
    case (wakes_up m x)
    have e: "s' = s\<lparr>sd_hand := Sending m, sd_slots := (sd_slots s)(ifc m := (sd_slots s (ifc m))\<lparr>sl_snd := S_Relock x\<rparr>)\<rparr>"
      using wakes_up(1,2) by (cases s) simp
    show ?thesis unfolding e
      by (rule sending_inv_sender [OF inv wakes_up(2) slot_step.wakes [OF wakes_up(3)]]) (use wakes_up(3) in auto)
  next
    case (in_link k sl)
    have si: "slot_inv (sd_slots s k)" using inv in_link(2) by (simp add: sending_inv_def slot_sane_def)
    note r = rcv_step_seen(1,2) [OF in_link(3) si]
    from sending_inv_slot [OF inv in_link(2) slot_step.by_link [OF in_link(3)]] show ?thesis
      using inv in_link r by (auto simp: sending_inv_def)
  qed
qed

section \<open>The simulation\<close>

lemma sending_stores:
  assumes inv: "sending_inv c n s" and h: "sd_hand s = Sending m" and x: "storing (sl_snd (sd_slots s (ifc m))) = Some x"
    and sl: "storing (sl_snd sl) = None" "slot_contents sl = slot_contents (sd_slots s (ifc m)) @ [x]"
      "sl_accepted sl = sl_accepted (sd_slots s (ifc m)) @ [x]" "sl_sent sl = sl_sent (sd_slots s (ifc m))"
    and s': "sd_slots s' = (sd_slots s)(ifc m := sl)" "sd_queue s' = sd_queue s" "sd_hand s' \<in> {No_Msg, Sending m}"
  shows "path_op (sending_view c n s) (sending_view c n s')"
proof -
  let ?k = "ifc m" and ?nd = "sending_node c n s"
  have k: "?k < length (interfaces n)" and g: "get_bytes (ippacket m) (msize m) = Inr x"
    and o: "s_local (interfaces n ! ?k) \<noteq> -1" using inv h x by (simp_all add: sending_inv_def slot_sane_def)
  have c: "slot_contents (sd_slots s ?k) = []" "slot_contents sl = [x]" using slot_contents_short [of sl] sl(2) by auto
  have "length x = msize m" using g by (auto simp: get_bytes_def split: if_splits)
  then have f: "send_frame (ippacket m) (msize m) (interfaces ?nd ! ?k) = Some (Inr (slot_link (interfaces n ! ?k) sl))"
    using o c g k by (simp add: send_frame_def slot_link_def sending_node_def sending_links_sel sl(3))
  have q: "incomingqueue ?nd = m # returning (mq_pc (sd_queue s) c) @ mq_items (sd_queue s)"
    using h x by (simp add: sending_node_def)
  have u: "unsent (sd_hand s') (sd_slots s') = []" using s' sl(1) by auto
  have "node_step In_Round ?nd = Some (Inr (sending_node c n s'))"
    using f k unfolding node_step.simps process_in_step_def q
    by (simp add: sending_node_def sending_links_sel s' u [unfolded s'(1)])
  moreover have "(\<lambda>k. filter (\<lambda>x. x \<noteq> []) (sl_sent (sd_slots s' k))) = (\<lambda>k. filter (\<lambda>x. x \<noteq> []) (sl_sent (sd_slots s k)))"
    using s'(1) sl(4) by auto
  ultimately show ?thesis unfolding sending_view_def by (metis op_in_round)
qed

lemma sending_transmits:
  assumes inv: "sending_inv c n s" and k: "k < length (interfaces n)"
    and sl: "storing (sl_snd sl) = storing (sl_snd (sd_slots s k))" "slot_contents (sd_slots s k) = x # slot_contents sl"
      "sl_accepted sl = sl_accepted (sd_slots s k)" "sl_sent sl = sl_sent (sd_slots s k) @ [x]"
    and s': "s' = s\<lparr>sd_slots := (sd_slots s)(k := sl)\<rparr>"
  shows "path_op (sending_view c n s) (sending_view c n s')"
proof -
  let ?nd = "sending_node c n s" and ?l = "slot_link (interfaces n ! k) (sd_slots s k)"
  have i: "slot_sane (interfaces n ! k) (sd_slots s k)" using inv k by (simp add: sending_inv_def)
  have nd: "k < length (interfaces ?nd)" "interfaces ?nd ! k = ?l" "s_local ?l \<noteq> -1"
    using k i by (simp_all add: sending_node_def sending_links_sel slot_link_def slot_sane_def)
  have r: "sbufferReady ?l" using sl(2) by (simp add: slot_link_def)
  from slot_send_data [OF sl(2) _ sl(3)] i
  have d: "send_data [int (sbuffersz ?l)] ?l = Some (Inr (filter (\<lambda>x. x \<noteq> []) [x], slot_link (interfaces n ! k) sl))"
    by (simp add: slot_sane_def)
  have u: "unsent (sd_hand s') (sd_slots s') = unsent (sd_hand s) (sd_slots s)"
    using sl(1) by (cases "sd_hand s") (auto simp: s')
  have "sending_node c n s' = set_link k (slot_link (interfaces n ! k) sl) ?nd"
    unfolding sending_node_def u using k by (simp add: s' set_link_def sending_links_sel)
  then have "node_step (Link_Round k None (Some [int (sbuffersz ?l)])) ?nd = Some (Inr (sending_node c n s'))"
    using nd r d by (simp add: send_and_receive_def recv_part_def send_part_def)
  note t = op_transmit [OF nd(1) nd(2) [symmetric] r d this, of "\<lambda>k. filter (\<lambda>x. x \<noteq> []) (sl_sent (sd_slots s k))"]
  have "(\<lambda>j. filter (\<lambda>x. x \<noteq> []) (sl_sent (sd_slots s' j))) = (\<lambda>j. filter (\<lambda>x. x \<noteq> []) (sl_sent (sd_slots s j)))
      (k := filter (\<lambda>x. x \<noteq> []) (sl_sent (sd_slots s k)) @ filter (\<lambda>x. x \<noteq> []) [x])"
    by (simp add: s' sl(4) fun_eq_iff)
  with t show ?thesis unfolding sending_view_def by (simp only:)
qed

text \<open>A step that changes neither the packets before the buffers nor what the buffers hold and sent.\<close>

lemma sending_hidden:
  assumes "unsent (sd_hand s') (sd_slots s') @ returning (mq_pc (sd_queue s') c) @ mq_items (sd_queue s')
      = unsent (sd_hand s) (sd_slots s) @ returning (mq_pc (sd_queue s) c) @ mq_items (sd_queue s)"
    and "\<And>k. slot_contents (sd_slots s' k) = slot_contents (sd_slots s k) \<and> sl_accepted (sd_slots s' k) = sl_accepted (sd_slots s k)
      \<and> sl_sent (sd_slots s' k) = sl_sent (sd_slots s k)"
  shows "sending_view c n s' = sending_view c n s"
proof -
  have "slot_link l (sd_slots s' k) = slot_link l (sd_slots s k)" for l k
    by (rule slot_link_cong) (simp_all only: assms(2))
  then have "sending_links n (sd_slots s') = sending_links n (sd_slots s)" by (simp only: sending_links_def)
  moreover have "(\<lambda>k. filter (\<lambda>x. x \<noteq> []) (sl_sent (sd_slots s' k))) = (\<lambda>k. filter (\<lambda>x. x \<noteq> []) (sl_sent (sd_slots s k)))"
    by (simp only: assms(2))
  ultimately show ?thesis by (simp only: sending_view_def sending_node_def assms(1))
qed

lemma sending_queue_step:
  assumes "mq_step c t (sd_queue s) q" and "sending_inv c n s" and "t = c \<longrightarrow> in_pop (mq_pc q c)"
  shows "sending_view c n (s\<lparr>sd_queue := q\<rparr>) = sending_view c n s
    \<or> path_op (sending_view c n s) (sending_view c n (s\<lparr>sd_queue := q\<rparr>))"
proof -
  have "serve_inv c (sd_queue s)" using assms(2) by (simp add: sending_inv_def mq_inv_def)
  from mq_step_seen [OF assms(1) this assms(3)] show ?thesis
  proof (elim disjE exE conjE)
    fix x
    assume x: "returning (mq_pc q c) @ mq_items q = returning (mq_pc (sd_queue s) c) @ mq_items (sd_queue s) @ [x]"
    have "sending_node c n (s\<lparr>sd_queue := q\<rparr>) = (sending_node c n s)
        \<lparr>incomingqueue := incomingqueue (sending_node c n s) @ [x]\<rparr>" using x by (simp add: sending_node_def)
    then show ?thesis unfolding sending_view_def by (simp add: op_append)
  next
    assume "returning (mq_pc q c) @ mq_items q = returning (mq_pc (sd_queue s) c) @ mq_items (sd_queue s)"
    then show ?thesis using sending_hidden [of "s\<lparr>sd_queue := q\<rparr>" c s] by simp
  qed
qed

lemma sending_simulated:
  assumes "sending_step c n s s'" and inv: "sending_inv c n s"
  shows "sending_view c n s' = sending_view c n s \<or> path_op (sending_view c n s) (sending_view c n s')"
  using assms(1)
proof cases
  case (others_push t q)
  show ?thesis unfolding others_push(1) by (rule sending_queue_step [OF others_push(2) inv]) (use others_push(3) in simp)
next
  case (in_pop q)
  show ?thesis unfolding in_pop(1) by (rule sending_queue_step [OF in_pop(3) inv]) (use in_pop(4) in simp)
next
  case (pop_returns m q)
  from pop_returns(4) pop_returns(3) have "returning (mq_pc q c) = [] \<and> mq_items q = mq_items (sd_queue s)" by cases auto
  then have "sending_view c n s' = sending_view c n s" by (intro sending_hidden) (simp_all add: pop_returns)
  then show ?thesis ..
next
  case (calls_send_frame m x)
  have "sending_view c n s' = sending_view c n s"
    by (intro sending_hidden) (auto simp: calls_send_frame)
  then show ?thesis ..
next
  case (in_send_frame m sl)
  have i: "slot_inv (sd_slots s (ifc m))" "sl_open (sd_slots s (ifc m))"
    using inv in_send_frame(2) by (simp_all add: sending_inv_def slot_sane_def)
  from snd_step_seen [OF in_send_frame(3) i] show ?thesis
  proof (elim disjE exE conjE)
    fix x
    assume x: "storing (sl_snd (sd_slots s (ifc m))) = Some x" "storing (sl_snd sl) = None"
      "slot_contents sl = slot_contents (sd_slots s (ifc m)) @ [x]" "sl_accepted sl = sl_accepted (sd_slots s (ifc m)) @ [x]"
      "sl_sent sl = sl_sent (sd_slots s (ifc m))"
    from sending_stores [OF inv in_send_frame(2) x, of s'] show ?thesis by (simp add: in_send_frame(1))
  next
    assume x: "storing (sl_snd sl) = storing (sl_snd (sd_slots s (ifc m)))"
      "slot_contents sl = slot_contents (sd_slots s (ifc m))" "sl_accepted sl = sl_accepted (sd_slots s (ifc m))"
      "sl_sent sl = sl_sent (sd_slots s (ifc m))"
    have "sl_snd sl = S_Idle \<Longrightarrow> storing (sl_snd (sd_slots s (ifc m))) = None" using x(1) by simp
    then have "sending_view c n s' = sending_view c n s" by (intro sending_hidden) (auto simp: in_send_frame(1,2) x)
    then show ?thesis ..
  qed
next
  case (wakes_up m x)
  have "sending_view c n s' = sending_view c n s"
    by (intro sending_hidden) (auto simp: wakes_up)
  then show ?thesis ..
next
  case (in_link k sl)
  have si: "slot_inv (sd_slots s k)" using inv in_link(2) by (simp add: sending_inv_def slot_sane_def)
  note r = rcv_step_seen [OF in_link(3) si]
  from r(3) show ?thesis
  proof (elim disjE exE conjE)
    fix x
    assume "slot_contents (sd_slots s k) = x # slot_contents sl" "sl_accepted sl = sl_accepted (sd_slots s k)"
      "sl_sent sl = sl_sent (sd_slots s k) @ [x]"
    from sending_transmits [OF inv in_link(2) r(1) this in_link(1)] show ?thesis ..
  next
    assume x: "slot_contents sl = slot_contents (sd_slots s k)" "sl_accepted sl = sl_accepted (sd_slots s k)"
      "sl_sent sl = sl_sent (sd_slots s k)"
    have "unsent (sd_hand s) ((sd_slots s)(k := sl)) = unsent (sd_hand s) (sd_slots s)"
      using r(1) by (cases "sd_hand s") auto
    then have "sending_view c n s' = sending_view c n s" by (intro sending_hidden) (auto simp: in_link(1) x)
    then show ?thesis ..
  qed
qed

interpretation sending_path: simulation "sending_step c n" "sending_inv c n" "sending_view c n" path_op
  by unfold_locales (fact sending_inv_step, fact sending_simulated)

section \<open>An interface as a channel\<close>

text \<open>The bytes of the packets for interface \<open>k\<close>: those pushed, and those not yet transmitted.\<close>

definition bytes_for :: "nat \<Rightarrow> ipmsg list \<Rightarrow> byte list list" where
  "bytes_for k ms = map (\<lambda>m. take (msize m) (ippacket m)) (filter (\<lambda>m. ifc m = k) ms)"

definition waiting :: "nat \<Rightarrow> nat \<Rightarrow> sending \<Rightarrow> byte list list" where
  "waiting c k s = slot_contents (sd_slots s k)
     @ bytes_for k (unsent (sd_hand s) (sd_slots s) @ returning (mq_pc (sd_queue s) c) @ mq_items (sd_queue s))"

lemma bytes_for_append [simp]: "bytes_for k (xs @ ys) = bytes_for k xs @ bytes_for k ys"
  by (simp add: bytes_for_def)

lemma bytes_for_Cons: "bytes_for k (m # ms) = (if ifc m = k then take (msize m) (ippacket m) # bytes_for k ms else bytes_for k ms)"
  by (simp add: bytes_for_def)

lemma bytes_for_Nil [simp]: "bytes_for k [] = []"
  by (simp add: bytes_for_def)

definition channel_moves :: "nat \<Rightarrow> nat \<Rightarrow> sending \<Rightarrow> sending \<Rightarrow> bool" where
  "channel_moves c k s s' \<longleftrightarrow>
     (let w = waiting c k s; w' = waiting c k s'; p = bytes_for k (mq_pushed (sd_queue s)); p' = bytes_for k (mq_pushed (sd_queue s'));
        d = sl_sent (sd_slots s k); d' = sl_sent (sd_slots s' k)
      in w' = w \<and> p' = p \<and> d' = d \<or> (\<exists>x. w' = w @ [x] \<and> p' = p @ [x] \<and> d' = d) \<or> (\<exists>x. w = x # w' \<and> p' = p \<and> d' = d @ [x]))"

lemma channel_queue_step:
  assumes "mq_step c t (sd_queue s) q" and "sending_inv c n s" and "t = c \<longrightarrow> in_pop (mq_pc q c)"
  shows "channel_moves c k s (s\<lparr>sd_queue := q\<rparr>)"
proof -
  have "serve_inv c (sd_queue s)" using assms(2) by (simp add: sending_inv_def mq_inv_def)
  from mq_step_seen [OF assms(1) this assms(3)] show ?thesis
  proof (elim disjE exE conjE)
    fix x
    assume "returning (mq_pc q c) @ mq_items q = returning (mq_pc (sd_queue s) c) @ mq_items (sd_queue s) @ [x]"
      "mq_pushed q = mq_pushed (sd_queue s) @ [x]"
    then show ?thesis by (simp add: channel_moves_def waiting_def bytes_for_Cons del: bytes_for_append)
      (simp add: bytes_for_Cons)
  qed (simp add: channel_moves_def waiting_def del: bytes_for_append)
qed

lemma sending_channel:
  assumes "sending_step c n s s'" and inv: "sending_inv c n s"
  shows "channel_moves c k s s'"
  using assms(1)
proof cases
  case (others_push t q)
  show ?thesis unfolding others_push(1) by (rule channel_queue_step [OF others_push(2) inv]) (use others_push(3) in simp)
next
  case (in_pop q)
  show ?thesis unfolding in_pop(1) by (rule channel_queue_step [OF in_pop(3) inv]) (use in_pop(4) in simp)
next
  case (pop_returns m q)
  from pop_returns(4) pop_returns(3)
  have "returning (mq_pc q c) = [] \<and> mq_items q = mq_items (sd_queue s) \<and> mq_pushed q = mq_pushed (sd_queue s)" by cases auto
  then show ?thesis by (simp add: channel_moves_def waiting_def pop_returns)
next
  case (calls_send_frame m x)
  then show ?thesis by (simp add: channel_moves_def waiting_def)
next
  case (in_send_frame m sl)
  have i: "slot_inv (sd_slots s (ifc m))" "sl_open (sd_slots s (ifc m))"
    using inv in_send_frame(2) by (simp_all add: sending_inv_def slot_sane_def)
  from snd_step_seen [OF in_send_frame(3) i] show ?thesis
  proof (elim disjE exE conjE)
    fix x
    assume x: "storing (sl_snd (sd_slots s (ifc m))) = Some x" "storing (sl_snd sl) = None"
      "slot_contents sl = slot_contents (sd_slots s (ifc m)) @ [x]" "sl_accepted sl = sl_accepted (sd_slots s (ifc m)) @ [x]"
      "sl_sent sl = sl_sent (sd_slots s (ifc m))"
    have "get_bytes (ippacket m) (msize m) = Inr x" using inv in_send_frame(2) x(1) by (simp add: sending_inv_def)
    then have "x = take (msize m) (ippacket m)" by (simp add: get_bytes_def split: if_splits)
    with x show ?thesis by (auto simp: channel_moves_def waiting_def in_send_frame(1,2) bytes_for_Cons)
  next
    assume x: "storing (sl_snd sl) = storing (sl_snd (sd_slots s (ifc m)))"
      "slot_contents sl = slot_contents (sd_slots s (ifc m))" "sl_accepted sl = sl_accepted (sd_slots s (ifc m))"
      "sl_sent sl = sl_sent (sd_slots s (ifc m))"
    have "sl_snd sl = S_Idle \<Longrightarrow> storing (sl_snd (sd_slots s (ifc m))) = None" using x(1) by simp
    then show ?thesis by (auto simp: channel_moves_def waiting_def in_send_frame(1,2) x)
  qed
next
  case (wakes_up m x)
  then show ?thesis by (auto simp: channel_moves_def waiting_def)
next
  case (in_link j sl)
  have si: "slot_inv (sd_slots s j)" using inv in_link(2) by (simp add: sending_inv_def slot_sane_def)
  note r = rcv_step_seen [OF in_link(3) si]
  have "unsent (sd_hand s) ((sd_slots s)(j := sl)) = unsent (sd_hand s) (sd_slots s)"
    using r(1) by (cases "sd_hand s") auto
  with r(3) show ?thesis by (auto simp: channel_moves_def waiting_def in_link(1))
qed

interpretation sending_channel: fifo_channel "sending_step c n" "waiting c k" "\<lambda>s. bytes_for k (mq_pushed (sd_queue s))"
  "\<lambda>s. sl_sent (sd_slots s k)" "sending_inv c n"
  by unfold_locales (fact sending_inv_step, use sending_channel in \<open>auto simp: channel_moves_def Let_def\<close>)

lemma sending_inv_init:
  assumes "list_all idle_link (interfaces n)"
  shows "sending_inv c n sending_init"
  using assms slot_inv_init mq_inv_init
  by (auto simp: sending_inv_def sending_init_def slot_sane_def slot_init_def slot_contents_def list_all_length idle_link_def)

section \<open>Properties\<close>

text \<open>
  C8: every interleaving of threads that push packets, the thread of \<open>process_in_queue\<close> and the threads of the
  open interfaces is a run of the events of the node model: appends to the queue, rounds \<open>In_Round\<close>, and
  link rounds that transmit the buffered frame.  At each moment the node of that run has in its queue the packets
  not yet stored in a send buffer, in its links the frames stored and not yet transmitted, and on the wire of each
  interface the frames that \<open>sendto\<close> took.
\<close>

theorem sending_threads_are_events:
  assumes "(sending_step c n)\<^sup>*\<^sup>* sending_init s" and "incomingqueue n = []" and "list_all idle_link (interfaces n)"
    and "\<forall>l \<in> set (interfaces n). sbuffer l = None"
  shows "path_op\<^sup>*\<^sup>* (n, \<lambda>k. []) (n\<lparr>interfaces := sending_links n (sd_slots s),
       incomingqueue := unsent (sd_hand s) (sd_slots s) @ returning (mq_pc (sd_queue s) c) @ mq_items (sd_queue s)\<rparr>,
     \<lambda>k. filter (\<lambda>x. x \<noteq> []) (sl_sent (sd_slots s k)))"
proof -
  have l: "s_local (interfaces n ! k) \<noteq> -1 \<and> sbuffer (interfaces n ! k) = None \<and> \<not> sbufferReady (interfaces n ! k)"
    if "k < length (interfaces n)" for k
    using that assms(3,4) by (simp add: list_all_length idle_link_def)
  from sending_path.run_simulated [OF assms(1) sending_inv_init [OF assms(3)]]
  have "path_op\<^sup>*\<^sup>* (sending_view c n sending_init) (sending_view c n s)" by simp
  moreover have "sending_links n (\<lambda>k. slot_init) = interfaces n"
    using l by (intro nth_equalityI)
      (simp_all add: sending_links_sel, simp add: slot_link_def slot_init_def slot_contents_def)
  then have "sending_view c n sending_init = (n, \<lambda>k. [])"
    using assms(2) by (simp add: sending_view_def sending_node_def sending_init_def mq_init_def slot_init_def)
  ultimately show ?thesis by (simp add: sending_view_def sending_node_def)
qed

text \<open>
  C9: every interface is a channel that loses, repeats and reorders nothing: in every state of the threads what \<open>sendto\<close>
  took on it, the frame in its buffer, the packet that \<open>process_in_queue\<close> holds for it and those queued
  for it are together the packets pushed for it, byte for byte and in the order of their \<open>push\<close>.
\<close>

theorem interfaces_transmit_in_order:
  assumes "(sending_step c n)\<^sup>*\<^sup>* sending_init s" and "list_all idle_link (interfaces n)"
  shows "sl_sent (sd_slots s k) @ slot_contents (sd_slots s k)
      @ bytes_for k (unsent (sd_hand s) (sd_slots s) @ returning (mq_pc (sd_queue s) c) @ mq_items (sd_queue s))
    = bytes_for k (mq_pushed (sd_queue s))"
proof -
  have "sending_channel.balanced c k sending_init"
    by (simp add: sending_channel.balanced_def waiting_def sending_init_def slot_init_def slot_contents_def mq_init_def)
  from sending_channel.run_balanced [OF assms(1) sending_inv_init [OF assms(2)] this] show ?thesis
    by (simp add: waiting_def)
qed

text \<open>A packet is pushed: the first moments of a run of the three threads.\<close>

definition sample_packet :: ipmsg where
  "sample_packet = \<lparr>ifc = 0, msize = 2, ippacket = [72, 105]\<rparr>"

lemma sending_sample:
  "\<exists>s. (sending_step 0 (node_of A_ifs []))\<^sup>*\<^sup>* sending_init s \<and> sd_hand s = No_Msg
     \<and> mq_pc (sd_queue s) 0 = Outside \<and> mq_items (sd_queue s) = [sample_packet] \<and> mq_pushed (sd_queue s) = [sample_packet]
     \<and> sd_slots s = (\<lambda>k. slot_init)"
proof -
  let ?p = sample_packet and ?n = "node_of A_ifs []"
  let ?q1 = "at 1 (Push_Lock ?p) mq_init"
  let ?q2 = "at 1 (Push_Item ?p) (?q1\<lparr>mq_owner := Some 1\<rparr>)"
  let ?q3 = "at 1 Push_Signal (?q2\<lparr>mq_items := [?p], mq_pushed := [?p]\<rparr>)"
  let ?s = "\<lambda>q. sending_init\<lparr>sd_queue := q\<rparr>"
  have m: "mq_step 0 1 mq_init ?q1" "mq_step 0 1 ?q1 ?q2" "mq_step 0 1 ?q2 ?q3"
    using enter_push [of mq_init 1 0 ?p] mq_step.inside [OF push_lock [of ?q1 1 ?p], of 0]
      mq_step.inside [OF push_item [of ?q2 1 ?p], of 0]
    by (simp_all add: mq_init_def)
  have s: "sending_step 0 ?n (?s q) (?s q')" if "mq_step 0 1 q q'" for q q'
    using others_push [of 0 1 "?s q" q' ?n] that by simp
  have i: "?s mq_init = sending_init" by (simp add: sending_init_def)
  have "(sending_step 0 ?n)\<^sup>*\<^sup>* (?s ?q2) (?s ?q3)" by (rule r_into_rtranclp) (rule s [OF m(3)])
  then have "(sending_step 0 ?n)\<^sup>*\<^sup>* (?s ?q1) (?s ?q3)" by (rule converse_rtranclp_into_rtranclp [rotated]) (rule s [OF m(2)])
  then have "(sending_step 0 ?n)\<^sup>*\<^sup>* (?s mq_init) (?s ?q3)" by (rule converse_rtranclp_into_rtranclp [rotated]) (rule s [OF m(1)])
  then have "(sending_step 0 ?n)\<^sup>*\<^sup>* sending_init (?s ?q3)" unfolding i .
  then show ?thesis by (intro exI [of _ "?s ?q3"]) (simp add: sending_init_def mq_init_def)
qed

theorem sending_threads_are_events_witness:
  "path_op\<^sup>*\<^sup>* (node_of A_ifs [], \<lambda>k. []) ((node_of A_ifs [])\<lparr>incomingqueue := [sample_packet]\<rparr>, \<lambda>k. [])"
proof -
  obtain s where s: "(sending_step 0 (node_of A_ifs []))\<^sup>*\<^sup>* sending_init s" "sd_hand s = No_Msg"
     "mq_pc (sd_queue s) 0 = Outside" "mq_items (sd_queue s) = [sample_packet]" "mq_pushed (sd_queue s) = [sample_packet]" "sd_slots s = (\<lambda>k. slot_init)"
    using sending_sample by blast
  have n: "incomingqueue (node_of A_ifs []) = []" "list_all idle_link (interfaces (node_of A_ifs []))"
    "\<forall>l \<in> set (interfaces (node_of A_ifs [])). sbuffer l = None"
    by (simp_all add: node_of_def A_ifs_def link_of_def idle_link_def)
  have "sending_links (node_of A_ifs []) (\<lambda>k. slot_init) = A_ifs"
    by (simp add: sending_links_def node_of_def A_ifs_def link_of_def slot_link_def slot_init_def slot_contents_def)
  with sending_threads_are_events [OF s(1) n] s(2-6) show ?thesis by (simp add: slot_init_def node_of_def)
qed

theorem interfaces_transmit_in_order_witness:
  "\<exists>s. (sending_step 0 (node_of A_ifs []))\<^sup>*\<^sup>* sending_init s \<and> bytes_for 0 (mq_pushed (sd_queue s)) = [[72, 105]]
     \<and> sl_sent (sd_slots s 0) @ waiting 0 0 s = [[72, 105]]"
proof -
  obtain s where s: "(sending_step 0 (node_of A_ifs []))\<^sup>*\<^sup>* sending_init s" "mq_pushed (sd_queue s) = [sample_packet]"
    using sending_sample by blast
  have "list_all idle_link (interfaces (node_of A_ifs []))" by (simp add: node_of_def A_ifs_def link_of_def idle_link_def)
  from interfaces_transmit_in_order [OF s(1) this, of 0] s show ?thesis
    by (intro exI [of _ s]) (simp add: waiting_def bytes_for_Cons sample_packet_def)
qed

end
