(* ===== verification/Dissector.thy ===== *)
theory Dissector
  imports Rip_Wire C_Lib
begin

text \<open>
  The Wireshark dissector of the RIP messages, \<open>src/rip_dissector/cs168_rip.lua\<close>.  Wireshark's buffer is an
  argument: \<open>rd off n\<close> is \<open>buffer(off, n):uint()\<close>, \<open>None\<close> when Wireshark raises an error, which ends the script;
  \<open>buflen\<close> and \<open>pktlen\<close> are \<open>buffer:len()\<close> and \<open>buffer:reported_length_remaining()\<close>.  The result is what the script
  adds to the display.
\<close>

section \<open>The script\<close>

definition RIP_HEADER_LEN :: nat where "RIP_HEADER_LEN = 4"
definition ROUTE_ENTRY_LEN :: nat where "ROUTE_ENTRY_LEN = 12"

record dissection =
  dis_info :: string
  dis_command :: nat
  dis_count :: nat
  dis_entries :: "(nat \<times> nat \<times> nat) list"
  dis_malformed :: bool

type_synonym reader = "nat \<Rightarrow> nat \<Rightarrow> nat option"

definition get_command_name :: "nat \<Rightarrow> string" where
  "get_command_name cmd = (if cmd = 1 then ''REQUEST'' else if cmd = 2 then ''RESPONSE'' else ''UNKNOWN'')"

text \<open>The loop over the entries: cost, address and mask of each, and whether the expert item is added.\<close>

fun dissect_entries :: "reader \<Rightarrow> nat \<Rightarrow> nat \<Rightarrow> int \<Rightarrow> ((nat \<times> nat \<times> nat) list \<times> bool) option" where
  "dissect_entries rd 0 pos pkt_remaining = Some ([], False)"
| "dissect_entries rd (Suc entry_count) pos pkt_remaining =
     (if pkt_remaining > 0 then
        if pkt_remaining < int ROUTE_ENTRY_LEN then Some ([], True)
        else Option.bind (rd pos 4) (\<lambda>c. Option.bind (rd (pos + 4) 4) (\<lambda>a. Option.bind (rd (pos + 8) 4) (\<lambda>m.
          Option.bind (dissect_entries rd entry_count (pos + 12) (pkt_remaining - 12)) (\<lambda>(es, bad).
            Some ((c, a, m) # es, bad)))))
      else Some ([], False))"

text \<open>The inner \<open>None\<close>: the script returns before it adds anything.\<close>

definition dissector :: "reader \<Rightarrow> nat \<Rightarrow> nat \<Rightarrow> dissection option option" where
  "dissector rd buflen pktlen =
     (if buflen = 0 then Some None
      else Option.bind (rd 0 2) (\<lambda>cmd_num. Option.bind (rd 2 2) (\<lambda>entry_count.
        Option.bind (dissect_entries rd entry_count RIP_HEADER_LEN (int pktlen - int RIP_HEADER_LEN)) (\<lambda>(es, bad).
          Some (Some \<lparr>dis_info = ''RIP '' @ get_command_name cmd_num @ '' ('' @ decimal entry_count @ '' entries)'',
            dis_command = cmd_num, dis_count = entry_count, dis_entries = es, dis_malformed = bad\<rparr>)))))"

section \<open>Wireshark's buffer\<close>

text \<open>The documented behaviour: a range inside the captured bytes is read in network order, another raises an error.\<close>

definition be_value :: "byte list \<Rightarrow> nat" where
  "be_value bs = fold (\<lambda>b v. 256 * v + unat b) bs 0"

definition tvb :: "byte list \<Rightarrow> reader" where
  "tvb data off n = (if off + n \<le> length data then Some (be_value (take n (drop off data))) else None)"

definition tvb_reader :: "byte list \<Rightarrow> reader \<Rightarrow> bool" where
  "tvb_reader data rd \<longleftrightarrow> (\<forall>off. rd off 2 = tvb data off 2 \<and> rd off 4 = tvb data off 4)"

lemma take_two: "off + 2 \<le> length xs \<Longrightarrow> take 2 (drop off xs) = [xs ! off, xs ! (off + 1)]"
  by (intro nth_equalityI) (auto simp: less_Suc_eq numeral_2_eq_2)

lemma take_four: "off + 4 \<le> length xs \<Longrightarrow> take 4 (drop off xs) = [xs ! off, xs ! (off + 1), xs ! (off + 2), xs ! (off + 3)]"
  by (intro nth_equalityI) (auto simp: less_Suc_eq numeral_eq_Suc)

lemma word32_sum: "word32 a b c d = ucast a + 256 * ucast b + 65536 * ucast c + 16777216 * ucast d"
proof -
  have p: "push_bit k (w :: u32) = 2 ^ k * w" for k w by (simp add: push_bit_eq_mult)
  have "word32 a b c d = ucast a + push_bit 8 (ucast b) + push_bit 16 (ucast c) + push_bit 24 (ucast d)"
    unfolding word32_def
    by (subst disjunctive_add, auto simp: bit_simps dest: bit_imp_le_length)+ (simp add: or.assoc)
  then show ?thesis by (simp add: p)
qed

lemma be_value_2: "be_value [hi, lo] = unat (word16 lo hi)"
  by (simp add: be_value_def word16_nat)

lemma be_value_4: "of_nat (be_value [a, b, c, d]) = word32 d c b a"
proof -
  have "of_nat (be_value [a, b, c, d]) = 256 * (256 * (256 * of_nat (unat a) + of_nat (unat b)) + of_nat (unat c))
      + (of_nat (unat d) :: u32)"
    by (simp add: be_value_def)
  moreover have "(of_nat (unat x) :: u32) = ucast x" for x :: byte by (simp add: unsigned_of_nat)
  ultimately show ?thesis by (simp add: word32_sum algebra_simps)
qed

section \<open>What is shown and what is learnt\<close>

text \<open>An entry as shown, read as a host-order entry of the table.\<close>

fun shown_entry :: "nat \<times> nat \<times> nat \<Rightarrow> entry" where
  "shown_entry (c, a, m) = \<lparr>cost = of_nat c, address = of_nat a, emask = of_nat m\<rparr>"

lemma tvb_reader_4:
  assumes "tvb_reader data rd" and "k \<le> off" and "off + 4 \<le> length data"
  shows "\<exists>v. rd off 4 = Some v \<and> rd32 (drop k data) (off - k) = Inr (htonl (of_nat v))"
proof -
  have "rd off 4 = Some (be_value [data ! off, data ! (off + 1), data ! (off + 2), data ! (off + 3)])"
    using assms by (simp add: tvb_reader_def tvb_def take_four)
  moreover have "rd32 (drop k data) (off - k) = Inr (word32 (data ! off) (data ! (off + 1)) (data ! (off + 2)) (data ! (off + 3)))"
    using assms(2,3) by (simp add: rd32_def)
  ultimately show ?thesis by (simp add: be_value_4 htonl_def)
qed

lemma read_shown:
  assumes "tvb_reader data rd" and "pos + 12 \<le> length data"
  shows "\<exists>c a m. rd pos 4 = Some c \<and> rd (pos + 4) 4 = Some a \<and> rd (pos + 8) 4 = Some m
    \<and> read_entry (drop pos data) = Inr (net_entry (shown_entry (c, a, m)))"
  using tvb_reader_4 [OF assms(1), of pos pos] tvb_reader_4 [OF assms(1), of pos "pos + 4"]
    tvb_reader_4 [OF assms(1), of pos "pos + 8"] assms(2)
  by (auto simp: read_entry_def net_entry_def)

lemma dissect_entries_all:
  assumes "tvb_reader data rd" and "pos + 12 * n \<le> length data"
  shows "\<exists>es. dissect_entries rd n pos (int (length data) - int pos) = Some (es, False) \<and> length es = n
    \<and> decode_seq read_entry sizeof_entry n (drop pos data) = Inr (map (\<lambda>e. net_entry (shown_entry e)) es)"
  using assms(2)
proof (induction n arbitrary: pos)
  case (Suc n)
  from read_shown [OF assms(1), of pos] Suc.prems obtain c a m where r: "rd pos 4 = Some c" "rd (pos + 4) 4 = Some a"
    "rd (pos + 8) 4 = Some m" "read_entry (drop pos data) = Inr (net_entry (shown_entry (c, a, m)))" by auto
  from Suc.IH [of "pos + 12"] Suc.prems obtain es where
    es: "dissect_entries rd n (pos + 12) (int (length data) - int (pos + 12)) = Some (es, False)" "length es = n"
      "decode_seq read_entry sizeof_entry n (drop (pos + 12) data) = Inr (map (\<lambda>e. net_entry (shown_entry e)) es)" by auto
  have d: "int (length data) - int pos - 12 = int (length data) - int (pos + 12)" by simp
  have p: "0 < int (length data) - int pos" "\<not> int (length data) - int pos < int ROUTE_ENTRY_LEN"
    using Suc.prems by (simp_all add: ROUTE_ENTRY_LEN_def)
  have "dissect_entries rd (Suc n) pos (int (length data) - int pos) = Some ((c, a, m) # es, False)"
    using p by (simp add: r(1-3) d es(1) del: of_nat_add)
  moreover have "decode_seq read_entry sizeof_entry (Suc n) (drop pos data)
      = Inr (map (\<lambda>e. net_entry (shown_entry e)) ((c, a, m) # es))"
    using r(4) es(3) by (simp add: sizeof_entry_def add.commute)
  ultimately show ?case using es(2) by (intro exI [of _ "(c, a, m) # es"]) simp
qed simp

lemma dissect_entries_short:
  assumes "tvb_reader data rd" and "length data < pos + 12 * n" and "pos \<le> length data"
  shows "\<exists>es. dissect_entries rd n pos (int (length data) - int pos) = Some (es, (length data - pos) mod 12 \<noteq> 0)
    \<and> length es = (length data - pos) div 12"
  using assms(2,3)
proof (induction n arbitrary: pos)
  case (Suc n)
  let ?r = "int (length data) - int pos"
  consider "length data = pos" | "0 < length data - pos" "length data - pos < 12" | "pos + 12 \<le> length data"
    using Suc.prems(2) by linarith
  then show ?case
  proof cases
    case 2
    then have "0 < ?r" "?r < int ROUTE_ENTRY_LEN" by (simp_all add: ROUTE_ENTRY_LEN_def)
    with 2 show ?thesis by simp
  next
    case 3
    from read_shown [OF assms(1) 3] obtain c a m where r: "rd pos 4 = Some c" "rd (pos + 4) 4 = Some a"
      "rd (pos + 8) 4 = Some m" by blast
    from Suc.IH [of "pos + 12"] Suc.prems 3 obtain es where
      es: "dissect_entries rd n (pos + 12) (int (length data) - int (pos + 12)) = Some (es, (length data - (pos + 12)) mod 12 \<noteq> 0)"
        "length es = (length data - (pos + 12)) div 12" by auto
    have d: "?r - 12 = int (length data) - int (pos + 12)" by simp
    have p: "0 < ?r" "\<not> ?r < int ROUTE_ENTRY_LEN" using 3 by (simp_all add: ROUTE_ENTRY_LEN_def)
    have q: "length data - pos = (length data - (pos + 12)) + 12" using 3 by simp
    have m: "(length data - pos) mod 12 = (length data - (pos + 12)) mod 12"
      "(length data - pos) div 12 = Suc ((length data - (pos + 12)) div 12)" unfolding q by (rule mod_add_self2) simp
    have "dissect_entries rd (Suc n) pos ?r = Some ((c, a, m) # es, (length data - pos) mod 12 \<noteq> 0)"
      using p by (simp add: r d es(1) m del: of_nat_add)
    then show ?thesis using es(2) m by (intro exI [of _ "(c, a, m) # es"]) simp
  qed simp
qed simp

section \<open>Properties\<close>

text \<open>
  C30: the dissector and the node read the same message.  On a RIP message of at least four captured bytes
  the script raises no error; the node's update of its table stays within the packet exactly when
  the script shows as many entries as the message announces, and then the table learns exactly the entries shown; a
  shorter message is marked malformed only when its bytes do not end between two entries.
\<close>

theorem dissector_shows_updates:
  assumes "tvb_reader data rd" and "4 \<le> length data"
  shows "\<exists>d. dissector rd (length data) (length data) = Some (Some d)
    \<and> (let r = update_route_table clock (drop 2 data) next ifs rt
       in (okE r \<longleftrightarrow> length (dis_entries d) = dis_count d)
        \<and> (okE r \<longrightarrow> r = Inr (learn clock next ifs (map shown_entry (dis_entries d)) rt))
        \<and> (dis_malformed d \<longleftrightarrow> \<not> okE r \<and> (length data - 4) mod 12 \<noteq> 0))"
proof -
  let ?n = "unat (word16 (data ! 3) (data ! 2))" and ?cmd = "unat (word16 (data ! 1) (data ! 0))"
  have h: "rd 0 2 = Some ?cmd" "rd 2 2 = Some ?n"
    using assms take_two [of 0 data] take_two [of 2 data] by (simp_all add: tvb_reader_def tvb_def be_value_2)
  have dis: "dissect_entries rd ?n 4 (int (length data) - 4) = Some (es, bad) \<Longrightarrow>
    \<exists>d. dissector rd (length data) (length data) = Some (Some d) \<and> dis_entries d = es \<and> dis_count d = ?n \<and> dis_malformed d = bad"
    for es bad using assms(2) h by (auto simp: dissector_def RIP_HEADER_LEN_def)
  have u: "update_route_table clock (drop 2 data) next ifs rt
      = bindE (decode_seq read_entry sizeof_entry ?n (drop 4 data)) (\<lambda>es. Inr (apply_entries clock next ifs 0 es rt))"
  proof -
    have "Suc 0 < length data - 2" using assms(2) by linarith
    then show ?thesis using assms(2) by (simp add: update_route_table_def update_loop_eq rd16_def ntohs_def)
  qed
  show ?thesis
  proof (cases "4 + 12 * ?n \<le> length data")
    case True
    from dissect_entries_all [OF assms(1) this] obtain es where
      es: "dissect_entries rd ?n 4 (int (length data) - 4) = Some (es, False)" "length es = ?n"
        "decode_seq read_entry sizeof_entry ?n (drop 4 data) = Inr (map (\<lambda>e. net_entry (shown_entry e)) es)" by auto
    have "update_route_table clock (drop 2 data) next ifs rt = Inr (learn clock next ifs (map shown_entry es) rt)"
      unfolding u es(3) by (simp add: learn_def comp_def)
    with dis [OF es(1)] es(2) show ?thesis by (auto simp: okE_def)
  next
    case False
    with dissect_entries_short [OF assms(1), of 4 ?n] assms(2) obtain es where
      es: "dissect_entries rd ?n 4 (int (length data) - 4) = Some (es, (length data - 4) mod 12 \<noteq> 0)"
        "length es = (length data - 4) div 12" by auto
    have "length data - 4 < ?n * 12" using False assms(2) by linarith
    then have "length es < ?n" unfolding es(2) by (simp add: div_less_iff_less_mult)
    moreover have "\<not> okE (update_route_table clock (drop 2 data) next ifs rt)"
    proof -
      have "?n \<noteq> 0" "\<not> sizeof_entry * ?n \<le> length data - 4"
        using False assms(2) by (auto simp: sizeof_entry_def)
      then show ?thesis unfolding u by (simp add: okE_bindE_Inr rip_entry.decode_seq_ok)
    qed
    ultimately show ?thesis using dis [OF es(1)] by auto
  qed
qed

text \<open>A response with one route: the script shows it as the node means it.\<close>

definition dis_sample :: "byte list" where
  "dis_sample = [0, 2, 0, 1, 0, 0, 0, 3, 10, 0, 0, 99, 255, 255, 255, 255]"

theorem dissector_shows_updates_witness:
  "dissector (tvb dis_sample) 16 16 = Some (Some \<lparr>dis_info = ''RIP RESPONSE (1 entries)'', dis_command = 2, dis_count = 1,
     dis_entries = [(3, 0x0A000063, 0xFFFFFFFF)], dis_malformed = False\<rparr>)
   \<and> update_route_table (\<lambda>_. at_sec 100) (drop 2 dis_sample) 0x0A000009 B_ifs B_rt
     = Inr (learn (\<lambda>_. at_sec 100) 0x0A000009 B_ifs [\<lparr>cost = 3, address = 0x0A000063, emask = 0xFFFFFFFF\<rparr>] B_rt)"
proof -
  have d: "decimal (Suc 0) = ''1''" by (subst decimal.simps) (simp add: digit_chars)
  have l: "length dis_sample = 16" "tvb_reader dis_sample (tvb dis_sample)" by (simp_all add: dis_sample_def tvb_reader_def)
  have s: "dissector (tvb dis_sample) 16 16 = Some (Some \<lparr>dis_info = ''RIP RESPONSE (1 entries)'', dis_command = 2, dis_count = 1,
     dis_entries = [(3, 0x0A000063, 0xFFFFFFFF)], dis_malformed = False\<rparr>)"
    by (simp add: dissector_def tvb_def dis_sample_def be_value_def RIP_HEADER_LEN_def ROUTE_ENTRY_LEN_def get_command_name_def d
        numeral_eq_Suc [of num.One])
  have "4 \<le> length dis_sample" by (simp add: l)
  from dissector_shows_updates [OF l(2) this, of "\<lambda>_. at_sec 100" "0x0A000009" B_ifs B_rt] s show ?thesis
    unfolding l(1) by (simp add: Let_def)
qed

end
