(* ===== verification/Socket_Race.thy ===== *)
theory Socket_Race
  imports Link_Layer
begin

text \<open>
  The socket of an interface under two threads (\<open>src/LinkLayer.cc\<close>): \<open>send_and_receive\<close> reads the field
  \<open>s_local\<close> anew at every use, while the command thread closes the socket and stores \<open>-1\<close> (\<open>down\<close>) or opens
  another one (\<open>up\<close>).  No lock protects the field.  The steps are the single accesses, also in the loops of
  \<open>recv_data\<close> and \<open>send_data\<close>; every \<open>recvfrom\<close> and \<open>sendto\<close> may fail on its own (a signal, an error of the network).
  The invariant says when one of the accesses can fail.
\<close>

section \<open>Descriptor sets and select\<close>

definition FD_SETSIZE :: int where "FD_SETSIZE = 1024"

text \<open>\<open>FD_SET\<close> and \<open>FD_ISSET\<close> address a bit of an array; a descriptor outside the array is not checked.\<close>

definition fd_set :: "int \<Rightarrow> int set \<Rightarrow> fault + int set" where
  "fd_set fd s = (if 0 \<le> fd \<and> fd < FD_SETSIZE then Inr (insert fd s) else Inl Out_Of_Bounds)"

definition fd_isset :: "int \<Rightarrow> int set \<Rightarrow> fault + bool" where
  "fd_isset fd s = (if 0 \<le> fd \<and> fd < FD_SETSIZE then Inr (fd \<in> s) else Inl Out_Of_Bounds)"

text \<open>
  \<open>select(fdmax+1, ...)\<close> without a timeout.  It fails (\<open>-1\<close>, the sets unchanged) when a descriptor below the
  bound is closed or a signal arrives (answer \<open>None\<close>); otherwise it waits until a descriptor below the bound is ready, as
  the answer says, and leaves the ready ones in the sets.  The result is \<open>None\<close> while it waits.
\<close>

definition select :: "(int set \<times> int set) option \<Rightarrow> int set \<Rightarrow> int \<Rightarrow> int set \<Rightarrow> int set \<Rightarrow> (int set \<times> int set) option" where
  "select answer opened fdmax r w =
     (if (\<exists>fd \<in> r \<union> w. fd \<le> fdmax \<and> fd \<notin> opened) then Some (r, w)
      else case answer of
        None \<Rightarrow> Some (r, w)
      | Some (rr, wr) \<Rightarrow>
          let ready = {fd \<in> r. fd \<le> fdmax \<and> fd \<in> rr} \<union> {fd \<in> w. fd \<le> fdmax \<and> fd \<in> wr}
          in if ready = {} then None
             else Some ({fd \<in> r. fd \<le> fdmax \<longrightarrow> fd \<in> rr}, {fd \<in> w. fd \<le> fdmax \<longrightarrow> fd \<in> wr}))"

section \<open>The accesses of a round\<close>

record socket =
  sk_local :: int
  sk_open :: "int set"
  sk_ready :: bool
  sk_size :: nat

text \<open>What the system answers: to \<open>select\<close>, to \<open>recvfrom\<close> and to \<open>sendto\<close> (\<open>None\<close>: \<open>-1\<close>) on open descriptors.\<close>

record answers =
  ans_select :: "(int set \<times> int set) option"
  ans_recv :: recv_result
  ans_send :: "nat option"

text \<open>
  \<open>K_Recv\<close> is before a \<open>recvfrom\<close> of \<open>recv_data\<close>, with the set of writable descriptors, \<open>buf\<close>, \<open>totalbytes\<close>,
  \<open>frame_length\<close> and the port in \<open>their_addr\<close>; \<open>K_Send\<close> before the test of the loop of \<open>send_data\<close>, with \<open>remBytes\<close>.
\<close>

datatype link_pc =
    K_Test | K_Set_Read | K_Set_Write "int set" | K_Fdmax "int set" "int set" | K_Select int "int set" "int set"
  | K_Isset_Read "int set" "int set" | K_Recv "int set" "byte list" int u16 "u16 option" | K_Isset_Write "int set" | K_Send nat

text \<open>
  One \<open>recvfrom\<close> of \<open>recv_data\<close> and the computation after it, as in \<open>recv_loop\<close> of \<open>Link_Layer\<close>.  On a closed
  descriptor it returns \<open>-1\<close>.  What \<open>recv_data\<close> does after its loop does not use the socket.
\<close>

definition recv_access ::
  "recv_result \<Rightarrow> int set \<Rightarrow> byte list \<Rightarrow> int \<Rightarrow> u16 \<Rightarrow> u16 option \<Rightarrow> socket \<Rightarrow> fault + link_pc \<times> socket" where
  "recv_access answer w buf totalbytes frame_length port s =
     (let (numbytes, buf, port) = recvfrom (if sk_local s \<in> sk_open s then answer else Recv_Error) buf port
      in bindE (if totalbytes = 0 then bindE (rd16 buf 2) (\<lambda>w. Inr (ntohs w)) else Inr frame_length)
           (\<lambda>frame_length.
              let totalbytes = totalbytes + numbytes
              in Inr (if totalbytes \<ge> uint frame_length then K_Isset_Write w
                      else K_Recv w buf totalbytes frame_length port, s)))"

text \<open>
  One round of the loop of \<open>send_data\<close>, or its end.  A \<open>sendto\<close> takes at most what it is given; when it fails, the loop
  ends with \<open>_sbuffer\<close> less than \<open>_sbuffersz\<close> bytes on, and a wrong address is freed.
\<close>

definition send_access :: "nat option \<Rightarrow> nat \<Rightarrow> socket \<Rightarrow> fault + link_pc \<times> socket" where
  "send_access answer remBytes s =
     (if remBytes = 0 then Inr (K_Test, s\<lparr>sk_ready := False\<rparr>)
      else if sk_local s \<notin> sk_open s then Inl Bad_Free
      else case answer of
        None \<Rightarrow> Inl Bad_Free
      | Some numBytes \<Rightarrow> Inr (K_Send (remBytes - numBytes), s))"

text \<open>One access of the link's thread; \<open>None\<close> while \<open>select\<close> waits.\<close>

fun sock_access :: "answers \<Rightarrow> link_pc \<Rightarrow> socket \<Rightarrow> (fault + link_pc \<times> socket) option" where
  "sock_access a K_Test s = Some (Inr (if sk_local s = -1 then K_Test else K_Set_Read, s))"
| "sock_access a K_Set_Read s = Some (bindE (fd_set (sk_local s) {}) (\<lambda>r. Inr (K_Set_Write r, s)))"
| "sock_access a (K_Set_Write r) s = Some (bindE (fd_set (sk_local s) {}) (\<lambda>w. Inr (K_Fdmax r w, s)))"
| "sock_access a (K_Fdmax r w) s = Some (Inr (K_Select (sk_local s) r w, s))"
| "sock_access a (K_Select fdmax r w) s =
     map_option (\<lambda>(r, w). Inr (K_Isset_Read r w, s)) (select (ans_select a) (sk_open s) fdmax r w)"
| "sock_access a (K_Isset_Read r w) s =
     Some (bindE (fd_isset (sk_local s) r) (\<lambda>b. Inr (if b then K_Recv w [] 0 0 None else K_Isset_Write w, s)))"
| "sock_access a (K_Recv w buf totalbytes frame_length port) s =
     Some (recv_access (ans_recv a) w buf totalbytes frame_length port s)"
| "sock_access a (K_Isset_Write w) s =
     Some (if sk_ready s then bindE (fd_isset (sk_local s) w) (\<lambda>b. Inr (if b then K_Send (sk_size s) else K_Test, s))
           else Inr (K_Test, s))"
| "sock_access a (K_Send remBytes) s = Some (send_access (ans_send a) remBytes s)"

text \<open>The command thread: \<open>down\<close> closes and then clears the field, \<open>up\<close> opens a socket and then stores it.\<close>

datatype cmd_pc = C_Idle | C_Down_Clear | C_Up_Store int

record race =
  ra_sock :: socket
  ra_link :: link_pc
  ra_cmd :: cmd_pc
  ra_hit :: bool

text \<open>\<open>ra_hit\<close>: a \<open>down\<close> was in progress at, or has begun since, the last test of \<open>s_local\<close>.\<close>

inductive sock_step :: "race \<Rightarrow> race \<Rightarrow> bool" where
  link_moves: "sock_access a (ra_link x) (ra_sock x) = Some (Inr (pc, s))
    \<Longrightarrow> sock_step x (x\<lparr>ra_link := pc, ra_sock := s,
          ra_hit := (if ra_link x = K_Test then ra_cmd x = C_Down_Clear else ra_hit x)\<rparr>)"
| down_close: "ra_cmd x = C_Idle
    \<Longrightarrow> sock_step x (x\<lparr>ra_cmd := C_Down_Clear, ra_hit := True,
          ra_sock := (ra_sock x)\<lparr>sk_open := sk_open (ra_sock x) - {sk_local (ra_sock x)}\<rparr>\<rparr>)"
| down_clear: "ra_cmd x = C_Down_Clear
    \<Longrightarrow> sock_step x (x\<lparr>ra_cmd := C_Idle, ra_sock := (ra_sock x)\<lparr>sk_local := -1\<rparr>\<rparr>)"
| up_open: "ra_cmd x = C_Idle \<Longrightarrow> fd \<notin> sk_open (ra_sock x) \<Longrightarrow> 0 \<le> fd \<Longrightarrow> fd < FD_SETSIZE
    \<Longrightarrow> sock_step x (x\<lparr>ra_cmd := C_Up_Store fd,
          ra_sock := (ra_sock x)\<lparr>sk_open := insert fd (sk_open (ra_sock x))\<rparr>\<rparr>)"
| up_store: "ra_cmd x = C_Up_Store fd
    \<Longrightarrow> sock_step x (x\<lparr>ra_cmd := C_Idle, ra_sock := (ra_sock x)\<lparr>sk_local := fd\<rparr>\<rparr>)"
| frame_queued: "\<not> sk_ready (ra_sock x)
    \<Longrightarrow> sock_step x (x\<lparr>ra_sock := (ra_sock x)\<lparr>sk_ready := True, sk_size := sz\<rparr>\<rparr>)"

text \<open>The interface as its constructor leaves it.\<close>

definition sock_start :: "int \<Rightarrow> race" where
  "sock_start fd = \<lparr>ra_sock = \<lparr>sk_local = fd, sk_open = {fd}, sk_ready = False, sk_size = 0\<rparr>,
     ra_link = K_Test, ra_cmd = C_Idle, ra_hit = False\<rparr>"

inductive sock_reachable :: "int \<Rightarrow> race \<Rightarrow> bool" for fd where
  sock_begin: "0 \<le> fd \<Longrightarrow> fd < FD_SETSIZE \<Longrightarrow> sock_reachable fd (sock_start fd)"
| sock_next: "sock_reachable fd x \<Longrightarrow> sock_step x x' \<Longrightarrow> sock_reachable fd x'"

section \<open>The invariant\<close>

definition sock_ok :: "int \<Rightarrow> bool" where
  "sock_ok fd \<longleftrightarrow> 0 \<le> fd \<and> fd < FD_SETSIZE"

definition sock_inv :: "race \<Rightarrow> bool" where
  "sock_inv x \<longleftrightarrow> (let s = ra_sock x in
       (sk_local s = -1 \<or> sock_ok (sk_local s) \<and> (sk_local s \<in> sk_open s \<or> ra_cmd x = C_Down_Clear))
     \<and> (case ra_cmd x of C_Up_Store fd \<Rightarrow> sock_ok fd \<and> fd \<in> sk_open s | _ \<Rightarrow> True)
     \<and> (ra_link x = K_Test \<or> ra_hit x \<or> sk_local s \<noteq> -1 \<and> ra_cmd x \<noteq> C_Down_Clear))"

lemma sock_inv_start: "0 \<le> fd \<Longrightarrow> fd < FD_SETSIZE \<Longrightarrow> sock_inv (sock_start fd)"
  by (simp add: sock_inv_def sock_start_def sock_ok_def)

text \<open>The thread of the link changes only the flag of the buffer and the record of uses.\<close>

lemma recv_access_shared: "recv_access answer w buf tot fl port s = Inr (pc', s') \<Longrightarrow> s' = s"
  by (auto simp: recv_access_def Let_def bindE_Inr_iff split: prod.splits)

lemma send_access_shared:
  "send_access answer remBytes s = Inr (pc', s') \<Longrightarrow> sk_local s' = sk_local s \<and> sk_open s' = sk_open s"
  by (auto simp: send_access_def split: if_splits option.splits)

lemma sock_access_shared:
  assumes "sock_access a pc s = Some (Inr (pc', s'))"
  shows "sk_local s' = sk_local s \<and> sk_open s' = sk_open s \<and> (pc = K_Test \<longrightarrow> pc' = K_Test \<or> sk_local s \<noteq> -1)"
  using assms by (cases pc) (auto simp: bindE_Inr_iff dest: recv_access_shared send_access_shared split: if_splits)

lemma sock_step_inv: "sock_step x x' \<Longrightarrow> sock_inv x \<Longrightarrow> sock_inv x'"
proof (induction rule: sock_step.induct)
  case (link_moves a x pc s)
  from sock_access_shared [OF link_moves.hyps] link_moves.prems show ?case
    by (auto simp: sock_inv_def Let_def split: cmd_pc.splits)
qed (auto simp: sock_inv_def Let_def sock_ok_def split: cmd_pc.splits)

lemma sock_reachable_inv: "sock_reachable fd x \<Longrightarrow> sock_inv x"
  by (induction rule: sock_reachable.induct) (auto intro: sock_inv_start sock_step_inv)

section \<open>The runs that fail\<close>

text \<open>States of an interface with a frame of two bytes in its buffer.\<close>

abbreviation sock_of :: "int \<Rightarrow> int set \<Rightarrow> socket" where
  "sock_of l opened \<equiv> \<lparr>sk_local = l, sk_open = opened, sk_ready = True, sk_size = 2\<rparr>"

definition sock_at :: "int \<Rightarrow> int set \<Rightarrow> link_pc \<Rightarrow> cmd_pc \<Rightarrow> bool \<Rightarrow> race" where
  "sock_at l opened pc cmd hit = \<lparr>ra_sock = sock_of l opened, ra_link = pc, ra_cmd = cmd, ra_hit = hit\<rparr>"

definition select_answers :: "(int set \<times> int set) option \<Rightarrow> answers" where
  "select_answers sel = \<lparr>ans_select = sel, ans_recv = Recv_Error, ans_send = None\<rparr>"

lemma sock_at_link:
  assumes "sock_reachable fd (sock_at l opened pc cmd hit)"
    and "sock_access (select_answers sel) pc (sock_of l opened) = Some (Inr (pc', sock_of l opened))"
    and "hit' = (if pc = K_Test then cmd = C_Down_Clear else hit)"
  shows "sock_reachable fd (sock_at l opened pc' cmd hit')"
  using sock_next [OF assms(1) link_moves [of "select_answers sel"]] assms(2,3)
  by (cases "pc = K_Test") (simp_all add: sock_at_def)

lemma sock_at_down:
  assumes "sock_reachable fd (sock_at l opened pc C_Idle hit)"
  shows "sock_reachable fd (sock_at l (opened - {l}) pc C_Down_Clear True)"
    and "sock_reachable fd (sock_at (-1) (opened - {l}) pc C_Idle True)"
proof -
  show d: "sock_reachable fd (sock_at l (opened - {l}) pc C_Down_Clear True)"
    using sock_next [OF assms down_close] by (simp add: sock_at_def)
  show "sock_reachable fd (sock_at (-1) (opened - {l}) pc C_Idle True)"
    using sock_next [OF d down_clear] by (simp add: sock_at_def)
qed

lemma race_round:
  assumes "0 \<le> fd" and "fd < FD_SETSIZE"
  shows "sock_reachable fd (sock_at fd {fd} K_Set_Read C_Idle False)"
    and "sock_reachable fd (sock_at fd {fd} (K_Fdmax {fd} {fd}) C_Idle False)"
    and "sock_reachable fd (sock_at fd {fd} (K_Select fd {fd} {fd}) C_Idle False)"
    and "sock_reachable fd (sock_at fd {fd} (K_Recv {fd} [] 0 0 None) C_Idle False)"
    and "sock_reachable fd (sock_at fd {fd} (K_Send 2) C_Idle False)"
proof -
  have fd: "fd_set fd {} = Inr {fd}" "fd_isset fd s = Inr (fd \<in> s)" "fd \<noteq> -1" for s
    using assms by (simp_all add: fd_set_def fd_isset_def)
  have q: "sock_reachable fd (sock_at fd {fd} K_Test C_Idle False)"
    using sock_next [OF sock_begin [OF assms] frame_queued [of _ 2]] by (simp add: sock_start_def sock_at_def)
  show a: "sock_reachable fd (sock_at fd {fd} K_Set_Read C_Idle False)"
    by (rule sock_at_link [OF q]) (simp_all add: fd)
  have "sock_reachable fd (sock_at fd {fd} (K_Set_Write {fd}) C_Idle False)"
    by (rule sock_at_link [OF a]) (simp_all add: fd)
  then show b: "sock_reachable fd (sock_at fd {fd} (K_Fdmax {fd} {fd}) C_Idle False)"
    by (rule sock_at_link) (simp_all add: fd)
  then show c: "sock_reachable fd (sock_at fd {fd} (K_Select fd {fd} {fd}) C_Idle False)"
    by (rule sock_at_link) simp_all
  have "sock_reachable fd (sock_at fd {fd} (K_Isset_Read {fd} {fd}) C_Idle False)"
    by (rule sock_at_link [OF c, where sel = None]) (simp_all add: select_def select_answers_def)
  then show "sock_reachable fd (sock_at fd {fd} (K_Recv {fd} [] 0 0 None) C_Idle False)"
    by (rule sock_at_link) (simp_all add: fd)
  have "sock_reachable fd (sock_at fd {fd} (K_Isset_Read {} {fd}) C_Idle False)"
    by (rule sock_at_link [OF c, where sel = "Some ({}, {fd})"]) (auto simp: select_def select_answers_def Let_def)
  then have "sock_reachable fd (sock_at fd {fd} (K_Isset_Write {fd}) C_Idle False)"
    by (rule sock_at_link) (simp_all add: fd)
  then show "sock_reachable fd (sock_at fd {fd} (K_Send 2) C_Idle False)"
    by (rule sock_at_link) (simp_all add: fd)
qed

text \<open>A reachable access that fails whatever the system would answer to its call.\<close>

definition socket_fault :: "int \<Rightarrow> fault \<Rightarrow> bool" where
  "socket_fault fd f \<longleftrightarrow> (\<exists>x. sock_reachable fd x \<and> (\<forall>a. sock_access a (ra_link x) (ra_sock x) = Some (Inl f)))"

lemma socket_faultI:
  "sock_reachable fd (sock_at l opened pc cmd hit)
    \<Longrightarrow> (\<And>a. sock_access a pc (sock_of l opened) = Some (Inl f)) \<Longrightarrow> socket_fault fd f"
  unfolding socket_fault_def by (intro exI [of _ "sock_at l opened pc cmd hit"]) (simp add: sock_at_def)

text \<open>How the access of each point can fail.\<close>

lemma recv_access_fails:
  assumes "recv_access answer w buf tot fl port s = Inl f"
  shows "f = Indeterminate \<and> (sk_local s \<in> sk_open s \<longrightarrow> answer = Recv_Error \<or> (\<exists>d p. answer = Datagram d p \<and> length d < 4))"
proof (cases answer)
  case (Datagram d p)
  have "length (take MAXBUFF d @ drop (length (take MAXBUFF d)) buf) < 4 \<Longrightarrow> length d < 4"
    by (auto simp: MAXBUFF_def)
  with assms Datagram show ?thesis
    by (auto simp: recv_access_def Let_def rd16_def split: if_splits prod.splits)
qed (use assms in \<open>auto simp: recv_access_def Let_def rd16_def split: if_splits prod.splits\<close>)

lemma send_access_fails:
  "send_access answer remBytes s = Inl f
    \<longleftrightarrow> f = Bad_Free \<and> 0 < remBytes \<and> (sk_local s \<notin> sk_open s \<or> answer = None)"
  by (auto simp: send_access_def split: option.splits)

section \<open>Properties\<close>

text \<open>
  C26: under every interleaving with \<open>up\<close> and \<open>down\<close>, an access of the link's thread to the socket fails only in a round
  that a \<open>down\<close> overlaps, or when a call on the open socket itself fails.  In such a round either the field holds
  \<open>-1\<close> and the access is a descriptor-set operation outside the set, or the descriptor is closed and the access is a \<open>recvfrom\<close> or
  \<open>sendto\<close>.  On the open socket only a \<open>recvfrom\<close> that returns \<open>-1\<close> or fewer than four bytes, or a \<open>sendto\<close> that returns
  \<open>-1\<close>, leads to a failure.
\<close>

theorem socket_faults_need_down:
  assumes "sock_reachable fd x" and "sock_access a (ra_link x) (ra_sock x) = Some (Inl f)"
  shows "(case f of
      Out_Of_Bounds \<Rightarrow> ra_hit x \<and> sk_local (ra_sock x) = -1
    | Indeterminate \<Rightarrow> (\<exists>w buf tot fl port. ra_link x = K_Recv w buf tot fl port)
        \<and> (ra_hit x \<and> sk_local (ra_sock x) \<notin> sk_open (ra_sock x)
          \<or> sk_local (ra_sock x) \<in> sk_open (ra_sock x)
            \<and> (ans_recv a = Recv_Error \<or> (\<exists>d p. ans_recv a = Datagram d p \<and> length d < 4)))
    | Bad_Free \<Rightarrow> (\<exists>remBytes > 0. ra_link x = K_Send remBytes)
        \<and> (ra_hit x \<and> sk_local (ra_sock x) \<notin> sk_open (ra_sock x)
          \<or> sk_local (ra_sock x) \<in> sk_open (ra_sock x) \<and> ans_send a = None)
    | _ \<Rightarrow> False)"
proof -
  have inv: "sock_inv x" by (rule sock_reachable_inv [OF assms(1)])
  then have hit: "ra_hit x" if "ra_link x \<noteq> K_Test" "sk_local (ra_sock x) = -1 \<or> sk_local (ra_sock x) \<notin> sk_open (ra_sock x)"
    using that by (auto simp: sock_inv_def Let_def)
  show ?thesis
  proof (cases "ra_link x")
    case (K_Recv w buf tot fl port)
    with assms(2) have "recv_access (ans_recv a) w buf tot fl port (ra_sock x) = Inl f" by simp
    from recv_access_fails [OF this] hit K_Recv show ?thesis by auto
  next
    case (K_Send remBytes)
    with assms(2) have "send_access (ans_send a) remBytes (ra_sock x) = Inl f" by simp
    then show ?thesis using hit K_Send by (auto simp: send_access_fails)
  qed (use inv hit assms(2) in \<open>auto simp: sock_inv_def Let_def sock_ok_def fd_set_def fd_isset_def split: if_splits\<close>)
qed

theorem socket_faults_need_down_witness:
  "ra_hit (sock_at (-1) {} K_Set_Read C_Idle True) \<and> ans_send (select_answers None) = None"
proof -
  have "sock_reachable 3 (sock_at (-1) ({3} - {3}) K_Set_Read C_Idle True)"
    by (rule sock_at_down(2) [OF race_round(1)]) (simp_all add: FD_SETSIZE_def)
  note d = socket_faults_need_down [OF this, of "select_answers None" Out_Of_Bounds]
  have "sock_reachable 3 (sock_at 3 {3} (K_Send 2) C_Idle False)"
    by (rule race_round(5)) (simp_all add: FD_SETSIZE_def)
  note s = socket_faults_need_down [OF this, of "select_answers None" Bad_Free]
  from d s show ?thesis by (simp add: sock_at_def fd_set_def send_access_def select_answers_def)
qed

text \<open>
  C27: every failure by a \<open>down\<close> happens, whatever the calls would answer.  A \<open>down\<close> after the test of \<open>s_local\<close> makes
  \<open>FD_SET\<close> write outside the set; one after \<open>FD_ISSET\<close> makes \<open>recv_data\<close> read a length nobody wrote, or makes \<open>send_data\<close>
  free a wrong address; one between \<open>FD_SET\<close> and the computation of \<open>fdmax\<close> makes the thread call \<open>select(0, ...)\<close>, which no
  descriptor ever ends, whatever socket \<open>up\<close> opens later.
\<close>

theorem socket_race:
  assumes "0 \<le> fd" and "fd < FD_SETSIZE"
  shows "socket_fault fd Out_Of_Bounds \<and> socket_fault fd Indeterminate \<and> socket_fault fd Bad_Free
    \<and> (\<exists>x r w. sock_reachable fd x \<and> ra_link x = K_Select (-1) r w
         \<and> (\<forall>a s. ans_select a \<noteq> None \<longrightarrow> sock_access a (K_Select (-1) r w) s = None))"
proof (intro conjI)
  note r = race_round [OF assms]
  show "socket_fault fd Out_Of_Bounds"
    by (rule socket_faultI [OF sock_at_down(2) [OF r(1)]]) (simp add: fd_set_def)
  show "socket_fault fd Indeterminate"
    by (rule socket_faultI [OF sock_at_down(1) [OF r(4)]]) (simp add: recv_access_def rd16_def)
  show "socket_fault fd Bad_Free"
    by (rule socket_faultI [OF sock_at_down(1) [OF r(5)]]) (simp add: send_access_def)
  have "sock_reachable fd (sock_at (-1) ({fd} - {fd}) (K_Select (-1) {fd} {fd}) C_Idle True)"
    by (rule sock_at_link [OF sock_at_down(2) [OF r(2)]]) simp_all
  moreover have "sock_access a (K_Select (-1) {fd} {fd}) s = None" if "ans_select a \<noteq> None" for a s
    using assms(1) that by (auto simp: select_def Let_def)
  ultimately show "\<exists>x r w. sock_reachable fd x \<and> ra_link x = K_Select (-1) r w
      \<and> (\<forall>a s. ans_select a \<noteq> None \<longrightarrow> sock_access a (K_Select (-1) r w) s = None)"
    by (intro exI conjI allI) (auto simp: sock_at_def)
qed

theorem socket_race_witness:
  "socket_fault 3 Bad_Free"
  using socket_race [of 3] by (simp add: FD_SETSIZE_def)

end
