(* ===== verification/Dbg.thy ===== *)
theory Dbg
  imports C_Lib
begin

text \<open>
  \<open>src/dbg.c\<close> and \<open>src/dbg.h\<close>: the debug modes selected by the environment variable \<open>DBG_MODES\<close> and the
  colour table.  The state is \<open>dbg_modes\<close>; the warnings of \<open>dbg_add_mode\<close> are returned.
\<close>

section \<open>Modes and tables\<close>

definition DBG_MODE :: "nat \<Rightarrow> u64" where "DBG_MODE x = push_bit x 1"
definition DBG_ALL :: u64 where "DBG_ALL = NOT 0"
definition DBG_ERROR :: u64 where "DBG_ERROR = DBG_MODE 0"
definition DBG_LINK :: u64 where "DBG_LINK = DBG_MODE 1"
definition DBG_NET :: u64 where "DBG_NET = DBG_MODE 2"
definition DBG_ROUTE :: u64 where "DBG_ROUTE = DBG_MODE 3"

datatype colour = RED | BYELLOW | BBLUE | BMAGENTA | BWHITE

text \<open>The names; the terminating \<open>{ NULL, 0 }\<close> is the end of the list.  The colour table has no terminator.\<close>

definition dbg_nametab :: "(string \<times> u64) list" where
  "dbg_nametab = [(''all'', DBG_ALL), (''error'', DBG_ERROR), (''link'', DBG_LINK), (''net'', DBG_NET),
     (''route'', DBG_ROUTE)]"

definition dbg_colortab :: "(u64 \<times> colour) list" where
  "dbg_colortab = [(DBG_ERROR, RED), (DBG_LINK, BYELLOW), (DBG_NET, BBLUE), (DBG_ROUTE, BMAGENTA)]"

section \<open>Operations\<close>

text \<open>The loop of \<open>DCOLOR\<close>; reading the mode behind the last entry is outside the table.\<close>

fun dcolor_loop :: "(u64 \<times> colour) list \<Rightarrow> u64 \<Rightarrow> fault + colour" where
  "dcolor_loop [] d_mode = Inl Out_Of_Bounds"
| "dcolor_loop ((m, color) # mode) d_mode =
     (if m = 0 then Inr BWHITE
      else if m AND d_mode \<noteq> 0 then Inr color
      else dcolor_loop mode d_mode)"

definition DCOLOR :: "u64 \<Rightarrow> fault + colour" where
  "DCOLOR d_mode = dcolor_loop dbg_colortab d_mode"

text \<open>\<open>dbg_add_mode\<close>: the new modes and the unknown name, if any.\<close>

definition dbg_add_mode :: "string \<Rightarrow> u64 \<Rightarrow> u64 \<times> string option" where
  "dbg_add_mode name modes =
     (let cancel = (name \<noteq> [] \<and> hd name = CHR ''-'');
          name = (if cancel then tl name else name)
      in case map_of dbg_nametab name of
           None \<Rightarrow> (modes, Some name)
         | Some d_mode \<Rightarrow> (if cancel then modes AND NOT d_mode else modes OR d_mode, None))"

text \<open>\<open>strtok(env, ",")\<close>: the non-empty pieces between commas.\<close>

fun pieces :: "string \<Rightarrow> string \<Rightarrow> string list" where
  "pieces w [] = (if w = [] then [] else [w])"
| "pieces w (c # s) =
     (if c = CHR '','' then (if w = [] then pieces [] s else w # pieces [] s) else pieces (w @ [c]) s)"

fun add_modes :: "string list \<Rightarrow> u64 \<Rightarrow> string list \<Rightarrow> u64 \<times> string list" where
  "add_modes [] modes warned = (modes, warned)"
| "add_modes (name # names) modes warned =
     (case dbg_add_mode name modes of
        (m, None) \<Rightarrow> add_modes names m warned
      | (m, Some w) \<Rightarrow> add_modes names m (warned @ [w]))"

text \<open>
  \<open>strncpy(env, dbg_env, n)\<close> into an uninitialised array: at most \<open>n\<close> characters, padded with NULs when the
  source is shorter, and no NUL otherwise.  \<open>dbg_init\<close> passes \<open>sizeof(255)\<close>, the size of an \<open>int\<close>.
\<close>

definition strncpy :: "string \<Rightarrow> nat \<Rightarrow> string" where
  "strncpy src n = take n src @ replicate (n - length src) NUL"

definition dbg_init :: "string option \<Rightarrow> fault + u64 \<times> string list" where
  "dbg_init dbg_env =
     (case dbg_env of
        None \<Rightarrow> Inr (DBG_ERROR, [])
      | Some s \<Rightarrow> bindE (cstr (strncpy s 4)) (\<lambda>env. Inr (add_modes (pieces [] env) DBG_ERROR [])))"

section \<open>The dbg macro\<close>

text \<open>What the program keeps of the debug module, and what it wrote to standard error.\<close>

record dbg_state =
  dbg_initiated :: bool
  dbg_modes :: u64
  errout :: "string list"

definition dbg_start :: dbg_state where
  "dbg_start = \<lparr>dbg_initiated = False, dbg_modes = 0, errout = []\<rparr>"

definition ESC :: string where "ESC = [CHR 0x1B]"

fun colour_text :: "colour \<Rightarrow> string" where
  "colour_text RED = ESC @ ''[31m''"
| "colour_text BYELLOW = ESC @ ''[1;33m''"
| "colour_text BBLUE = ESC @ ''[1;34m''"
| "colour_text BMAGENTA = ESC @ ''[1;35m''"
| "colour_text BWHITE = ESC @ ''[1;37m''"

definition NORMAL_TEXT :: string where "NORMAL_TEXT = ESC @ ''[0m''"

definition warning :: "string \<Rightarrow> string" where
  "warning name = ''Warning: Unknown debug option: '' @ [CHR 0x22] @ name @ [CHR 0x22, CHR 0x0A]"

text \<open>
  \<open>dbg(mode, ...)\<close> with the formatted message: the three \<open>sprintf\<close> into \<open>__buf__\<close> put a NUL after what they
  wrote.  \<open>env\<close> is the value of \<open>DBG_MODES\<close>.
\<close>

definition dbg :: "string option \<Rightarrow> u64 \<Rightarrow> string \<Rightarrow> dbg_state \<Rightarrow> fault + dbg_state" where
  "dbg env mode msg st =
     bindE (if dbg_initiated st then Inr st
            else bindE (dbg_init env) (\<lambda>(modes, warned).
              Inr \<lparr>dbg_initiated = True, dbg_modes = modes, errout = errout st @ map warning warned\<rparr>)) (\<lambda>st.
     if dbg_modes st AND mode \<noteq> 0 then
       bindE (DCOLOR mode) (\<lambda>color.
         let buf = colour_text color @ msg @ NORMAL_TEXT
         in if length buf < LINE_MAX then Inr (st\<lparr>errout := errout st @ [buf]\<rparr>) else Inl Out_Of_Bounds)
     else Inr st)"

fun dbg_all :: "string option \<Rightarrow> u64 \<Rightarrow> string list \<Rightarrow> dbg_state \<Rightarrow> fault + dbg_state" where
  "dbg_all env mode [] st = Inr st"
| "dbg_all env mode (msg # msgs) st = bindE (dbg env mode msg st) (dbg_all env mode msgs)"

section \<open>The error mode stays on\<close>

lemma error_bit: "m AND DBG_ERROR \<noteq> 0 \<longleftrightarrow> bit m 0"
  using and_exp_eq_0_iff_not_bit [of m 0] by (simp add: DBG_ERROR_def DBG_MODE_def)

lemma dcolor_error: "DCOLOR DBG_ERROR = Inr RED"
  by (simp add: DCOLOR_def dbg_colortab_def DBG_ERROR_def DBG_MODE_def)

lemma pieces_short: "name \<in> set (pieces w s) \<Longrightarrow> length name \<le> length w + length s"
  by (induction w s rule: pieces.induct) (fastforce split: if_splits)+

text \<open>A name too short to be a known mode behind a minus sign only adds modes.\<close>

lemma dbg_add_mode_short:
  assumes "length name < 4"
  shows "bit m k \<longrightarrow> bit (fst (dbg_add_mode name m)) k"
proof (cases "name \<noteq> [] \<and> hd name = CHR ''-''")
  case True
  have "\<forall>t \<in> fst ` set dbg_nametab. 3 \<le> length t" by (simp add: dbg_nametab_def)
  moreover have "length (tl name) < 3" using assms True by (cases name) simp_all
  ultimately have "map_of dbg_nametab (tl name) = None" unfolding map_of_eq_None_iff by fastforce
  with True show ?thesis by (simp add: dbg_add_mode_def)
next
  case False
  then show ?thesis by (auto simp: dbg_add_mode_def Let_def bit_or_iff split: option.split)
qed

lemma add_modes_short:
  "\<forall>name \<in> set names. length name < 4 \<Longrightarrow> bit m k \<Longrightarrow> bit (fst (add_modes names m w)) k"
proof (induction names arbitrary: m w)
  case (Cons name names)
  obtain m' r where r: "dbg_add_mode name m = (m', r)" by (cases "dbg_add_mode name m")
  with dbg_add_mode_short [of name m k] Cons.prems have "bit m' k" by simp
  with Cons r show ?case by (cases r) simp_all
qed simp

lemma dbg_init_error:
  assumes "length s < 4" and "NUL \<notin> set s"
  shows "\<exists>m w. dbg_init (Some s) = Inr (m, w) \<and> bit m 0"
proof -
  have p: "\<forall>name \<in> set (pieces [] s). length name < 4" using pieces_short [of _ "[]" s] assms(1) by fastforce
  obtain m w where m: "add_modes (pieces [] s) DBG_ERROR [] = (m, w)" by fastforce
  have "bit (fst (add_modes (pieces [] s) DBG_ERROR [])) 0"
    by (rule add_modes_short [OF p]) (simp add: DBG_ERROR_def DBG_MODE_def)
  then have "bit m 0" by (simp add: m)
  moreover obtain k where "4 - length s = Suc k" using assms(1) by (metis Suc_diff_Suc)
  ultimately show ?thesis using assms m by (simp add: dbg_init_def strncpy_def)
qed

lemma dbg_long_env:
  assumes "NUL \<notin> set s" and "4 \<le> length s"
  shows "dbg_init (Some s) = Inl Indeterminate"
proof -
  have "NUL \<notin> set (strncpy s 4)" using assms set_take_subset [of 4 s] by (auto simp: strncpy_def)
  then show ?thesis by (simp add: dbg_init_def cstr_def)
qed

text \<open>Messages short enough for the buffer, after the first call.\<close>

definition error_line :: "string \<Rightarrow> string" where
  "error_line msg = colour_text RED @ msg @ NORMAL_TEXT"

lemma dbg_all_on:
  assumes "dbg_initiated st" and "bit (dbg_modes st) 0" and "\<forall>msg \<in> set msgs. length msg \<le> 2038"
  shows "dbg_all env DBG_ERROR msgs st = Inr (st\<lparr>errout := errout st @ map error_line msgs\<rparr>)"
  using assms
proof (induction msgs arbitrary: st)
  case (Cons msg msgs)
  then have "dbg env DBG_ERROR msg st = Inr (st\<lparr>errout := errout st @ [error_line msg]\<rparr>)"
    using dcolor_error by (simp add: dbg_def error_bit error_line_def ESC_def NORMAL_TEXT_def LINE_MAX_def)
  with Cons show ?case by simp
qed simp

lemma dbg_first:
  assumes "\<not> dbg_initiated st"
  shows "dbg env mode msg st = bindE (dbg_init env) (\<lambda>(modes, warned).
    dbg env mode msg \<lparr>dbg_initiated = True, dbg_modes = modes, errout = errout st @ map warning warned\<rparr>)"
  using assms by (cases "dbg_init env") (auto simp: dbg_def)

section \<open>Properties\<close>

text \<open>
  C36: no usable value of \<open>DBG_MODES\<close> can switch the error messages off: whenever the variable is unset or
  shorter than four characters, every message of mode \<open>DBG_ERROR\<close> of at most 2038 characters is written, in
  red, in order, after the warnings of the first call.  With four characters or more the first message
  already reads past the copied string; a longer message overruns the line buffer.
\<close>

theorem dbg_errors_written:
  assumes "case env of None \<Rightarrow> True | Some s \<Rightarrow> NUL \<notin> set s" and "msgs \<noteq> []"
    and "\<forall>msg \<in> set msgs. length msg \<le> 2038"
  shows "(case env of
      Some s \<Rightarrow> if 4 \<le> length s then dbg_all env DBG_ERROR msgs dbg_start = Inl Indeterminate
        else (\<exists>st warned. dbg_all env DBG_ERROR msgs dbg_start = Inr st
          \<and> errout st = map warning warned @ map error_line msgs)
    | None \<Rightarrow> \<exists>st. dbg_all env DBG_ERROR msgs dbg_start = Inr st \<and> errout st = map error_line msgs)
    \<and> (\<forall>st long. dbg_initiated st \<and> bit (dbg_modes st) 0 \<and> 2038 < length long \<longrightarrow>
        dbg env DBG_ERROR long st = Inl Out_Of_Bounds)"
proof (rule conjI)
  show "\<forall>st long. dbg_initiated st \<and> bit (dbg_modes st) 0 \<and> 2038 < length long \<longrightarrow>
      dbg env DBG_ERROR long st = Inl Out_Of_Bounds"
    using dcolor_error by (simp add: dbg_def error_bit ESC_def NORMAL_TEXT_def LINE_MAX_def)
  obtain msg ms where msgs: "msgs = msg # ms" using assms(2) by (cases msgs) auto
  have first: "dbg_all env DBG_ERROR msgs dbg_start = bindE (dbg_init env) (\<lambda>(modes, warned).
      dbg_all env DBG_ERROR msgs \<lparr>dbg_initiated = True, dbg_modes = modes, errout = map warning warned\<rparr>)"
    using dbg_first [of dbg_start env DBG_ERROR msg] by (cases "dbg_init env") (auto simp: msgs dbg_start_def)
  have on: "dbg_all env DBG_ERROR msgs \<lparr>dbg_initiated = True, dbg_modes = m, errout = w\<rparr>
      = Inr \<lparr>dbg_initiated = True, dbg_modes = m, errout = w @ map error_line msgs\<rparr>" if "bit m 0" for m w
    using dbg_all_on [OF _ _ assms(3), of "\<lparr>dbg_initiated = True, dbg_modes = m, errout = w\<rparr>"] that by simp
  show "case env of
      Some s \<Rightarrow> if 4 \<le> length s then dbg_all env DBG_ERROR msgs dbg_start = Inl Indeterminate
        else (\<exists>st warned. dbg_all env DBG_ERROR msgs dbg_start = Inr st
          \<and> errout st = map warning warned @ map error_line msgs)
    | None \<Rightarrow> \<exists>st. dbg_all env DBG_ERROR msgs dbg_start = Inr st \<and> errout st = map error_line msgs"
  proof (cases env)
    case None
    have "bit DBG_ERROR 0" by (simp add: DBG_ERROR_def DBG_MODE_def)
    with first on None show ?thesis by (simp add: dbg_init_def)
  next
    case (Some s)
    show ?thesis
    proof (cases "4 \<le> length s")
      case True
      with Some assms(1) dbg_long_env first show ?thesis by simp
    next
      case False
      with Some assms(1) dbg_init_error [of s] obtain m w where m: "dbg_init env = Inr (m, w)" "bit m 0" by auto
      with first on [OF m(2)] m(1) Some False show ?thesis by auto
    qed
  qed
qed

theorem dbg_errors_written_witness:
  "\<exists>st. dbg_all None DBG_ERROR [''> ''] dbg_start = Inr st \<and> errout st = [error_line ''> '']"
  using dbg_errors_written [of None "[''> '']"] by simp

text \<open>
  \<open>DCOLOR\<close> finds a colour exactly when one of the four lowest mode bits is set, and otherwise runs
  past the end of the table; its default, bright white, is never returned.
\<close>

theorem dcolor_outcome:
  "DCOLOR d = (if d AND 0xF = 0 then Inl Out_Of_Bounds
     else Inr (if bit d 0 then RED else if bit d 1 then BYELLOW else if bit d 2 then BBLUE else BMAGENTA))"
proof -
  have m: "push_bit k 1 AND d \<noteq> 0 \<longleftrightarrow> bit d k" "push_bit k 1 \<noteq> (0 :: u64)" if "k < 64" for k
  proof -
    have e: "push_bit k 1 = (2 ^ k :: u64)" by (simp add: push_bit_eq_mult)
    show "push_bit k 1 AND d \<noteq> 0 \<longleftrightarrow> bit d k" unfolding e by (simp add: and.commute [of _ d] and_exp_eq_0_iff_not_bit)
    show "push_bit k 1 \<noteq> (0 :: u64)" unfolding e using that by (simp add: exp_eq_zero_iff)
  qed
  have "d AND 0xF = 0 \<longleftrightarrow> (\<forall>k < 4. \<not> bit d k)"
  proof -
    have f: "(0xF :: u64) = mask 4" by (simp add: mask_eq_exp_minus_1)
    have l: "k < 4 \<Longrightarrow> k < 64" for k :: nat by simp
    have "d AND mask 4 = 0 \<longleftrightarrow> (\<forall>k < 64. \<not> (bit d k \<and> k < 4))" by (auto simp: bit_eq_iff bit_simps)
    with l show ?thesis unfolding f by blast
  qed
  also have "\<dots> \<longleftrightarrow> \<not> bit d 0 \<and> \<not> bit d 1 \<and> \<not> bit d 2 \<and> \<not> bit d 3"
    by (auto simp: numeral_eq_Suc less_Suc_eq)
  finally have f: "d AND 0xF = 0 \<longleftrightarrow> \<not> bit d 0 \<and> \<not> bit d 1 \<and> \<not> bit d 2 \<and> \<not> bit d 3" .
  have n: "push_bit 0 1 AND d \<noteq> 0 \<longleftrightarrow> bit d 0" "push_bit 1 1 AND d \<noteq> 0 \<longleftrightarrow> bit d 1"
    "push_bit 2 1 AND d \<noteq> 0 \<longleftrightarrow> bit d 2" "push_bit 3 1 AND d \<noteq> 0 \<longleftrightarrow> bit d 3"
    "push_bit 0 1 \<noteq> (0 :: u64)" "push_bit 1 1 \<noteq> (0 :: u64)" "push_bit 2 1 \<noteq> (0 :: u64)" "push_bit 3 1 \<noteq> (0 :: u64)"
    by (rule m, simp)+
  show ?thesis
    unfolding DCOLOR_def dbg_colortab_def dcolor_loop.simps f DBG_ERROR_def DBG_LINK_def DBG_NET_def DBG_ROUTE_def
      DBG_MODE_def
    by (cases "bit d 0"; cases "bit d 1"; cases "bit d 2"; cases "bit d 3"; simp only: n if_False if_True simp_thms)
qed

text \<open>
  Only a value of \<open>DBG_MODES\<close> shorter than four characters is usable; a longer one leaves the copy
  without a terminator.  With a usable value the mode of every known name in it is set or, with a minus
  sign, cleared; so of the documented names only \<open>all\<close> and \<open>net\<close> can be selected.
\<close>

theorem dbg_init_short:
  assumes "NUL \<notin> set s"
  shows "dbg_init (Some s) =
    (if length s < 4 then Inr (add_modes (pieces [] s) DBG_ERROR []) else Inl Indeterminate)"
proof (cases "length s < 4")
  case True
  then obtain k where "4 - length s = Suc k" by (metis Suc_diff_Suc)
  with True assms show ?thesis by (simp add: dbg_init_def strncpy_def)
next
  case False
  then have "NUL \<notin> set (strncpy s 4)" using assms set_take_subset [of 4 s] by (auto simp: strncpy_def)
  with False show ?thesis by (simp add: dbg_init_def cstr_def)
qed

theorem dbg_init_short_witness:
  "dbg_init (Some ''net'') = Inr (DBG_ERROR OR DBG_NET, []) \<and> dbg_init (Some ''link'') = Inl Indeterminate"
proof -
  have "NUL \<notin> set ''net''" "NUL \<notin> set ''link''" by (simp_all add: NUL_def)
  from dbg_init_short [OF this(1)] dbg_init_short [OF this(2)] show ?thesis
    by (simp add: dbg_add_mode_def dbg_nametab_def Let_def)
qed

end
