(* ===== verification/Main_Program.thy ===== *)
theory Main_Program
  imports Startup Dbg
begin

text \<open>
  \<open>create_timer\<close> and \<open>main\<close> (\<open>src/node.cc\<close>): the construction of the node, the two periodic timers, the
  command loop.  What the system answers is an argument: whether \<open>sigaction\<close> succeeds and the id that
  \<open>timer_create\<close> stores.  Time is in seconds since the timers were armed.
\<close>

definition UPDATE_TIMER_VAL :: nat where "UPDATE_TIMER_VAL = 5"

section \<open>Timers\<close>

text \<open>The two global variables whose addresses \<open>create_timer\<close> gets.\<close>

datatype timer_var = Rip_Update_Timer | Rip_Refresh_Timer

text \<open>
  The contents of the variables, whether the signal handler is installed, and the armed timers: id,
  \<open>sival_ptr\<close>, \<open>it_value\<close> and \<open>it_interval\<close>.
\<close>

record alarms =
  handler_set :: bool
  timer_ids :: "timer_var \<Rightarrow> nat"
  armed :: "(nat \<times> timer_var \<times> nat \<times> nat) list"

definition no_alarms :: alarms where
  "no_alarms = \<lparr>handler_set = False, timer_ids = (\<lambda>v. 0), armed = []\<rparr>"

definition create_timer :: "bool \<Rightarrow> nat \<Rightarrow> timer_var \<Rightarrow> nat \<Rightarrow> nat \<Rightarrow> alarms \<Rightarrow> int \<times> alarms" where
  "create_timer sigaction_ok tid timer expire_sec interval_sec a =
     (if \<not> sigaction_ok then (-1, a)
      else (0, a\<lparr>handler_set := True, timer_ids := (timer_ids a)(timer := tid),
                 armed := armed a @ [(tid, timer, expire_sec, interval_sec)]\<rparr>))"

text \<open>
  The signals of a second, each with its \<open>sival_ptr\<close>: a timer fires first after \<open>it_value\<close> and then every
  \<open>it_interval\<close> seconds (only once when that is 0).
\<close>

definition signals :: "alarms \<Rightarrow> nat \<Rightarrow> timer_var list" where
  "signals a s = map (\<lambda>(tid, timer, v, i). timer) (filter (\<lambda>(tid, timer, v, i). v \<le> s \<and> (s - v) mod i = 0) (armed a))"

text \<open>The handler reads the id through \<open>sival_ptr\<close> and compares it with the two variables.\<close>

definition at_second :: "alarms \<Rightarrow> nat \<Rightarrow> node \<Rightarrow> node" where
  "at_second a s n = fold (\<lambda>tidp. timerHandler (timer_ids a tidp) (timer_ids a Rip_Update_Timer)
     (timer_ids a Rip_Refresh_Timer)) (signals a s) n"

section \<open>main\<close>

text \<open>
  What the environment answers: to the debug module, the sockets, the resolver, the clock, \<open>fopen\<close>, the
  two \<open>create_timer\<close> calls and each command.
\<close>

record machine =
  dbg_env :: "string option"
  sockets :: "nat \<Rightarrow> attempt list option"
  resolve :: resolver
  times :: "nat \<Rightarrow> timeval"
  files :: "string \<Rightarrow> string option"
  sigaction_1 :: bool
  timer_id_1 :: nat
  sigaction_2 :: bool
  timer_id_2 :: nat
  command_env :: "nat \<Rightarrow> env"

definition usage_text :: "string \<Rightarrow> string" where
  "usage_text prog = ''usage: '' @ prog @ '' <linkfile>'' @ [CHR 0x0A]"

text \<open>The exit status, and the node with its timers when there is one.\<close>

fun main_program :: "machine \<Rightarrow> string list \<Rightarrow> string list \<Rightarrow> fault + int \<times> (node \<times> alarms) option" where
  "main_program m [prog, fname] lines =
     bindE (node_ctor (sockets m) (resolve m) (times m) (files m fname)) (\<lambda>n.
       let (r1, a) = create_timer (sigaction_1 m) (timer_id_1 m) Rip_Update_Timer UPDATE_TIMER_VAL UPDATE_TIMER_VAL no_alarms;
           (r2, a) = create_timer (sigaction_2 m) (timer_id_2 m) Rip_Refresh_Timer
              (unat REFRESH_TIMER_VAL) (unat REFRESH_TIMER_VAL) a
       in bindE (main_loop (command_env m) 0 lines n []) (\<lambda>(n, hist). Inr (0, Some (n, a))))"
| "main_program m argv lines =
     bindE (dbg (dbg_env m) DBG_ERROR (usage_text (case argv of [] \<Rightarrow> '''' | prog # _ \<Rightarrow> prog)) dbg_start) (\<lambda>st. Inr (-1, None))"

lemma fires_iff: "0 < p \<Longrightarrow> p \<le> s \<and> (s - p) mod p = 0 \<longleftrightarrow> 0 < s \<and> p dvd s" for p s :: nat
  by (metis dvd_imp_le dvd_minus_self le_add_diff_inverse less_le_trans mod_0_imp_dvd mod_eq_0_iff_dvd not_less)

text \<open>The ids that come due in a second when both timers run.\<close>

definition timers_due :: "nat \<Rightarrow> int list" where
  "timers_due s =
     (if 0 < s \<and> 5 dvd s then [UPDATE_TIMER_ID] else []) @ (if 0 < s \<and> 12 dvd s then [REFRESH_TIMER_ID] else [])"

lemma at_second_two:
  assumes "t1 \<noteq> t2" and "timer_ids a = (timer_ids no_alarms)(Rip_Update_Timer := t1, Rip_Refresh_Timer := t2)"
    and "armed a = [(t1, Rip_Update_Timer, 5, 5), (t2, Rip_Refresh_Timer, 12, 12)]"
  shows "at_second a s n = n\<lparr>timerQueue := timerQueue n @ timers_due s\<rparr>"
  using assms fires_iff [of 5 s] fires_iff [of 12 s]
  by (auto simp: at_second_def signals_def timerHandler_def timers_due_def)

section \<open>Properties\<close>

text \<open>
  C34: with a configuration file the program, when the command loop ends, returns 0 with a node that
  satisfies the invariant and has the interfaces of the file; when both timers are set up, with distinct ids, the timer queue gets the
  update id every 5 seconds and the refresh id every 12 seconds, in this order when both are due, and nothing else.
  When both calls of \<open>sigaction\<close> fail the program does not notice: it goes on without any timer and still returns 0.
\<close>

theorem main_timers:
  assumes "main_program m [prog, fname] lines = Inr (ret, res)" and "timer_id_1 m \<noteq> timer_id_2 m"
  shows "ret = 0 \<and> (\<exists>n a info. res = Some (n, a) \<and> node_inv n
    \<and> parse_links (files m fname) = Inr (Some info) \<and> statics n = map configured (lnx_body info)
    \<and> (sigaction_1 m \<and> sigaction_2 m \<longrightarrow> (\<forall>s n. at_second a s n = n\<lparr>timerQueue := timerQueue n @ timers_due s\<rparr>))
    \<and> (\<not> sigaction_1 m \<and> \<not> sigaction_2 m \<longrightarrow> (\<forall>s n. at_second a s n = n)))"
proof -
  let ?a = "\<lparr>handler_set = True, timer_ids = (timer_ids no_alarms)(Rip_Update_Timer := timer_id_1 m, Rip_Refresh_Timer := timer_id_2 m),
    armed = [(timer_id_1 m, Rip_Update_Timer, 5, 5), (timer_id_2 m, Rip_Refresh_Timer, 12, 12)]\<rparr>"
  obtain r1 a1 where a1: "create_timer (sigaction_1 m) (timer_id_1 m) Rip_Update_Timer UPDATE_TIMER_VAL UPDATE_TIMER_VAL no_alarms = (r1, a1)"
    by fastforce
  obtain r2 a where a2: "create_timer (sigaction_2 m) (timer_id_2 m) Rip_Refresh_Timer (unat REFRESH_TIMER_VAL) (unat REFRESH_TIMER_VAL) a1 = (r2, a)"
    by fastforce
  from assms(1) obtain n0 where c: "node_ctor (sockets m) (resolve m) (times m) (files m fname) = Inr n0" by auto
  with assms(1) a1 a2 obtain n hist where l: "main_loop (command_env m) 0 lines n0 [] = Inr (n, hist)"
    and r: "ret = 0" "res = Some (n, a)" by auto
  from node_ctor_InrD [OF c] obtain info where info: "parse_links (files m fname) = Inr (Some info)"
    "statics n0 = map configured (lnx_body info)" "node_inv n0"
    using reachable_keeps by (auto simp: configured_def)
  from main_loop_wp [OF info(3), of "command_env m" 0 lines "[]"] l have "keeps n0 n" by simp
  then have "node_inv n" "statics n = map configured (lnx_body info)" using info(2) by (simp_all add: keeps_def)
  moreover have "a = ?a" if "sigaction_1 m" "sigaction_2 m"
    using a1 a2 that by (auto simp: create_timer_def no_alarms_def UPDATE_TIMER_VAL_def REFRESH_TIMER_VAL_def)
  then have "sigaction_1 m \<and> sigaction_2 m \<longrightarrow> (\<forall>s n. at_second a s n = n\<lparr>timerQueue := timerQueue n @ timers_due s\<rparr>)"
    using at_second_two [OF assms(2), of ?a] by simp
  moreover have "a = no_alarms" if "\<not> sigaction_1 m" "\<not> sigaction_2 m"
    using a1 a2 that by (simp add: create_timer_def)
  then have "\<not> sigaction_1 m \<and> \<not> sigaction_2 m \<longrightarrow> (\<forall>s n. at_second a s n = n)"
    by (simp add: at_second_def signals_def no_alarms_def)
  ultimately show ?thesis using r info(1) by (intro conjI exI [of _ n] exI [of _ a] exI [of _ info]) simp_all
qed

text \<open>Node A, one line typed, with and without the signal handler.\<close>

definition A_machine :: "bool \<Rightarrow> machine" where
  "A_machine ok = \<lparr>dbg_env = None, sockets = (\<lambda>_. Some [Binds 3]), resolve = loopback, times = (\<lambda>_. at_sec 100),
     files = (\<lambda>f. if f = ''A.lnx'' then Some A_lnx else None), sigaction_1 = ok, timer_id_1 = 7, sigaction_2 = ok,
     timer_id_2 = 9, command_env = (\<lambda>_. (None, at_sec 101))\<rparr>"

theorem main_timers_witness:
  "\<exists>a. main_program (A_machine True) [''node'', ''A.lnx''] [''q''] = Inr (0, Some (A_start, a))
     \<and> timerQueue (at_second a 60 A_start) = [UPDATE_TIMER_ID, REFRESH_TIMER_ID] \<and> timerQueue (at_second a 61 A_start) = []"
proof -
  have w: "scan_word ''q'' = Some (''q'', [])" by (simp add: scan_word_def is_space_def ch_code_def)
  have t: "timerQueue A_start = []" by (simp add: A_start_def A_node_def node_of_def)
  have "\<exists>a. main_program (A_machine True) [''node'', ''A.lnx''] [''q''] = Inr (0, Some (A_start, a))"
    using node_ctor_A w by (simp add: A_machine_def create_timer_def fits_def LINE_MAX_def)
  then obtain a where a: "main_program (A_machine True) [''node'', ''A.lnx''] [''q''] = Inr (0, Some (A_start, a))" ..
  have "timer_id_1 (A_machine True) \<noteq> timer_id_2 (A_machine True)" by (simp add: A_machine_def)
  from main_timers [OF a this] have
    "\<forall>s n. at_second a s n = n\<lparr>timerQueue := timerQueue n @ timers_due s\<rparr>"
    by (auto simp: A_machine_def)
  with a t show ?thesis by (auto simp: timers_due_def)
qed

end
