(* ===== verification/Links_Memory.thy ===== *)
theory Links_Memory
  imports Parse_Links "HOL-Library.Sublist"
begin

text \<open>
  \<open>parse_links\<close> and \<open>free_links\<close> (\<open>src/parselinks.c\<close>) on memory: the objects that \<open>malloc\<close> returns, the chain of
  \<open>next\<close> pointers and the way it is built, the failures of \<open>malloc\<close>, and the stream that \<open>fopen\<close> opens.
  \<open>Parse_Links\<close> has the same function on lists.
\<close>

section \<open>Memory\<close>

text \<open>Addresses are natural numbers, \<open>0\<close> is \<open>NULL\<close>; a field that nobody has written is \<open>None\<close>.\<close>

type_synonym addr = nat

record lnxbody_obj =
  o_remote_phys_host :: "string option"
  o_remote_phys_port :: "u16 option"
  o_local_virt_ip :: "u32 option"
  o_remote_virt_ip :: "u32 option"
  o_next :: "addr option"

record lnxinfo_obj =
  o_local_phys_port :: "u16 option"
  o_num_links :: "u8 option"
  o_body :: "addr option"

record lheap =
  infos :: "addr \<rightharpoonup> lnxinfo_obj"
  bodies :: "addr \<rightharpoonup> lnxbody_obj"
  streams :: nat

definition blank_body :: lnxbody_obj where
  "blank_body = \<lparr>o_remote_phys_host = None, o_remote_phys_port = None, o_local_virt_ip = None, o_remote_virt_ip = None,
     o_next = None\<rparr>"

definition blank_info :: lnxinfo_obj where
  "blank_info = \<lparr>o_local_phys_port = None, o_num_links = None, o_body = None\<rparr>"

text \<open>Assignments through a pointer, reads of a field, and \<open>free\<close>.\<close>

definition set_info :: "addr \<Rightarrow> (lnxinfo_obj \<Rightarrow> lnxinfo_obj) \<Rightarrow> lheap \<Rightarrow> fault + lheap" where
  "set_info a f h = (case infos h a of None \<Rightarrow> Inl Dangling | Some x \<Rightarrow> Inr (h\<lparr>infos := (infos h)(a \<mapsto> f x)\<rparr>))"

definition set_body :: "addr \<Rightarrow> (lnxbody_obj \<Rightarrow> lnxbody_obj) \<Rightarrow> lheap \<Rightarrow> fault + lheap" where
  "set_body a f h = (case bodies h a of None \<Rightarrow> Inl Dangling | Some x \<Rightarrow> Inr (h\<lparr>bodies := (bodies h)(a \<mapsto> f x)\<rparr>))"

definition get_field :: "(addr \<rightharpoonup> 'o) \<Rightarrow> ('o \<Rightarrow> 'c option) \<Rightarrow> addr \<Rightarrow> fault + 'c" where
  "get_field m f a = (case m a of None \<Rightarrow> Inl Dangling | Some x \<Rightarrow> (case f x of None \<Rightarrow> Inl Indeterminate | Some v \<Rightarrow> Inr v))"

definition free_lnxinfo :: "addr \<Rightarrow> lheap \<Rightarrow> fault + lheap" where
  "free_lnxinfo a h = (case infos h a of None \<Rightarrow> Inl Bad_Free | Some x \<Rightarrow> Inr (h\<lparr>infos := (infos h)(a := None)\<rparr>))"

definition free_lnxbody :: "addr \<Rightarrow> lheap \<Rightarrow> fault + lheap" where
  "free_lnxbody a h = (case bodies h a of None \<Rightarrow> Inl Bad_Free | Some x \<Rightarrow> Inr (h\<lparr>bodies := (bodies h)(a := None)\<rparr>))"

definition fopen :: "lheap \<Rightarrow> lheap" where "fopen h = h\<lparr>streams := Suc (streams h)\<rparr>"
definition fclose :: "lheap \<Rightarrow> lheap" where "fclose h = h\<lparr>streams := streams h - 1\<rparr>"

section \<open>free_links\<close>

text \<open>The loop; \<open>None\<close> when it does not end.\<close>

partial_function (option) free_loop :: "addr \<Rightarrow> lheap \<Rightarrow> (fault + lheap) option" where
  "free_loop cur h =
     (if cur = 0 then Some (Inr h)
      else case bindE (get_field (bodies h) o_next cur) (\<lambda>next. bindE (free_lnxbody cur h) (\<lambda>h. Inr (next, h))) of
        Inl e \<Rightarrow> Some (Inl e)
      | Inr (next, h) \<Rightarrow> free_loop next h)"

definition free_links :: "addr \<Rightarrow> lheap \<Rightarrow> (fault + lheap) option" where
  "free_links lnx h =
     (case get_field (infos h) o_body lnx of
        Inl e \<Rightarrow> Some (Inl e)
      | Inr cur \<Rightarrow> map_option (\<lambda>r. bindE r (free_lnxinfo lnx)) (free_loop cur h))"

section \<open>parse_links\<close>

text \<open>What \<open>next\<close> points at: the \<open>body\<close> of the info, or the \<open>next\<close> of the last link.\<close>

datatype place = Body addr | Next addr

definition store_at :: "place \<Rightarrow> addr \<Rightarrow> lheap \<Rightarrow> fault + lheap" where
  "store_at nxt p h = (case nxt of
      Body a \<Rightarrow> set_info a (\<lambda>x. x\<lparr>o_body := Some p\<rparr>) h
    | Next a \<Rightarrow> set_body a (\<lambda>x. x\<lparr>o_next := Some p\<rparr>) h)"

text \<open>\<open>*next = link; link->next = NULL; lnx->num_links++;\<close>\<close>

definition append_link :: "addr \<Rightarrow> place \<Rightarrow> addr \<Rightarrow> lheap \<Rightarrow> fault + lheap" where
  "append_link lnx nxt link h =
     bindE (store_at nxt link h) (\<lambda>h. bindE (store_at (Next link) 0 h) (\<lambda>h.
     bindE (get_field (infos h) o_num_links lnx) (\<lambda>k. set_info lnx (\<lambda>x. x\<lparr>o_num_links := Some (k + 1)\<rparr>) h)))"

text \<open>
  The loop over the lines, \<open>al i\<close> being the address \<open>malloc\<close> returns for link \<open>i\<close> (\<open>0\<close> when it fails); the second
  result is whether \<open>ret\<close> is not negative at the end.
\<close>

function build_loop :: "(nat \<Rightarrow> addr) \<Rightarrow> nat \<Rightarrow> addr \<Rightarrow> place \<Rightarrow> string \<Rightarrow> lheap \<Rightarrow> fault + lheap \<times> bool" where
  "build_loop al i lnx nxt f h =
     (if f = [] then Inr (h, True)
      else case fscanf_link f of
        Inl e \<Rightarrow> Inl e
      | Inr ret \<Rightarrow>
          (let link = al i in
           if ret = Scan_Eof then Inr (h, True)
           else if link = 0 then Inr (h, False)
           else bindE (append_link lnx nxt link (h\<lparr>bodies := (bodies h)(link \<mapsto> blank_body)\<rparr>)) (\<lambda>h.
             case ret of
               Scan_Full rhost port lv rv r \<Rightarrow>
                 (if bad_port port then Inr (h, False)
                  else case inet_pton lv of
                    None \<Rightarrow> Inr (h, False)
                  | Some l \<Rightarrow> bindE (set_body link (\<lambda>x. x\<lparr>o_local_virt_ip := Some l\<rparr>) h) (\<lambda>h.
                      case inet_pton rv of
                        None \<Rightarrow> Inr (h, False)
                      | Some rm \<Rightarrow> bindE (set_body link (\<lambda>x. x\<lparr>o_remote_virt_ip := Some rm\<rparr>) h) (\<lambda>h.
                          bindE (set_body link (\<lambda>x. x\<lparr>o_remote_phys_host := Some rhost\<rparr>) h) (\<lambda>h.
                          bindE (set_body link (\<lambda>x. x\<lparr>o_remote_phys_port := Some (of_int port)\<rparr>) h) (\<lambda>h.
                            build_loop al (Suc i) lnx (Next link) r h)))))
             | _ \<Rightarrow> Inr (h, False))))"
  by pat_completeness auto
termination
  by (relation "measure (\<lambda>(al, i, lnx, nxt, f, h). length f)") (auto dest: fscanf_link_shorter)

declare build_loop.simps [simp del]

text \<open>The end of the function: after an error the stream is closed and everything is released.\<close>

definition finish_links :: "addr \<Rightarrow> fault + lheap \<times> bool \<Rightarrow> (fault + addr \<times> lheap) option" where
  "finish_links lnx r =
     (case r of
        Inl e \<Rightarrow> Some (Inl e)
      | Inr (h, ok) \<Rightarrow>
          if \<not> ok then map_option (\<lambda>r. bindE r (\<lambda>h. Inr (0, h))) (free_links lnx (fclose h))
          else Some (Inr (lnx, h)))"

text \<open>\<open>p\<close> is the address \<open>malloc\<close> returns for the info.  The first result is the pointer that \<open>parse_links\<close> returns.\<close>

definition parse_links_mem :: "addr \<Rightarrow> (nat \<Rightarrow> addr) \<Rightarrow> string option \<Rightarrow> lheap \<Rightarrow> (fault + addr \<times> lheap) option" where
  "parse_links_mem p al file h =
     (case file of
        None \<Rightarrow> Some (Inr (0, h))
      | Some f \<Rightarrow>
          (let h = fopen h in
           if p = 0 then Some (Inr (0, fclose h))
           else
             let lnx = p; h = h\<lparr>infos := (infos h)(lnx \<mapsto> blank_info\<lparr>o_body := Some 0\<rparr>)\<rparr>;
                 fail = (\<lambda>h. bindE (free_lnxinfo lnx h) (\<lambda>h. Inr (0, fclose h)))
             in case scan_word f of
                  None \<Rightarrow> Some (fail h)
                | Some (w, r1) \<Rightarrow>
                    (case fits HOST_MAX_LENGTH w of
                       Inl e \<Rightarrow> Some (Inl e)
                     | Inr lhost \<Rightarrow>
                         (case scan_int r1 of
                            None \<Rightarrow> Some (fail h)
                          | Some (v, r2) \<Rightarrow>
                              (case to_int v of
                                 Inl e \<Rightarrow> Some (Inl e)
                               | Inr port \<Rightarrow>
                                   if bad_port port then Some (fail h)
                                   else finish_links lnx
                                     (bindE (set_info lnx (\<lambda>x. x\<lparr>o_local_phys_port := Some (of_int port)\<rparr>) h) (\<lambda>h.
                                      bindE (set_info lnx (\<lambda>x. x\<lparr>o_num_links := Some 0\<rparr>) h) (\<lambda>h.
                                        build_loop al 0 lnx (Body lnx) r2 h))))))))"

section \<open>Chains\<close>

text \<open>The objects of a chain that ends with the pointer \<open>e\<close>.\<close>

fun link_seg :: "addr \<Rightarrow> addr list \<Rightarrow> lnxbody_obj list \<Rightarrow> (addr \<times> lnxbody_obj) list" where
  "link_seg e (p # ps) (x # xs) = (p, x\<lparr>o_next := Some (hd (ps @ [e]))\<rparr>) # link_seg e ps xs"
| "link_seg e _ _ = []"

lemma link_seg_snoc:
  "length ps = length xs \<Longrightarrow> link_seg e (ps @ [p]) (xs @ [x]) = link_seg p ps xs @ [(p, x\<lparr>o_next := Some e\<rparr>)]"
proof (induction ps xs rule: list_induct2)
  case (Cons q ps y xs)
  then show ?case by (cases ps) simp_all
qed simp

lemma link_seg_fst: "length ps = length xs \<Longrightarrow> map fst (link_seg e ps xs) = ps"
  by (induction ps xs rule: list_induct2) simp_all

lemma map_of_snoc: "q \<notin> set (map fst l) \<Longrightarrow> B ++ map_of (l @ [(q, v)]) = (B ++ map_of l)(q \<mapsto> v)"
  by (induction l) (auto simp: map_add_def fun_eq_iff)

text \<open>The heap with the info at \<open>lnx\<close> and its chain of links.\<close>

definition built :: "lheap \<Rightarrow> addr \<Rightarrow> u16 \<Rightarrow> addr list \<Rightarrow> lnxbody_obj list \<Rightarrow> lheap" where
  "built h lnx port ps xs = h\<lparr>infos := (infos h)(lnx \<mapsto> \<lparr>o_local_phys_port = Some port,
       o_num_links = Some (of_nat (length xs)), o_body = Some (hd (ps @ [0]))\<rparr>),
     bodies := bodies h ++ map_of (link_seg 0 ps xs)\<rparr>"

definition tail_place :: "addr \<Rightarrow> addr list \<Rightarrow> place" where
  "tail_place lnx ps = (if ps = [] then Body lnx else Next (last ps))"

lemma tail_place_snoc [simp]: "tail_place lnx (ps @ [p]) = Next p"
  by (simp add: tail_place_def)

lemma built_snoc:
  assumes "length ps = length xs" and "p \<notin> set ps"
  shows "bodies (built h lnx port (ps @ [p]) (xs @ [x])) = (bodies h ++ map_of (link_seg p ps xs))(p \<mapsto> x\<lparr>o_next := Some 0\<rparr>)"
  using assms by (simp add: built_def link_seg_snoc map_of_snoc link_seg_fst del: map_of_append)

lemma append_link_built:
  assumes "length ps = length xs" and "distinct (ps @ [p])"
  shows "append_link lnx (tail_place lnx ps) p
      ((built h lnx port ps xs)\<lparr>bodies := (bodies (built h lnx port ps xs))(p \<mapsto> blank_body)\<rparr>)
    = Inr (built h lnx port (ps @ [p]) (xs @ [blank_body]))"
proof (cases ps rule: rev_cases)
  case Nil
  then show ?thesis using assms
    by (simp add: append_link_def store_at_def set_info_def set_body_def get_field_def built_def blank_body_def tail_place_def)
next
  case (snoc qs q)
  with assms(1) obtain ys y where xs: "xs = ys @ [y]" by (cases xs rule: rev_cases) auto
  with assms snoc have l: "length qs = length ys" and d: "q \<notin> set qs" "p \<notin> set qs" "p \<noteq> q" by auto
  let ?B = "bodies h ++ map_of (link_seg q qs ys)"
  have b1: "bodies (built h lnx port ps xs) = ?B(q \<mapsto> y\<lparr>o_next := Some 0\<rparr>)"
    unfolding snoc xs by (rule built_snoc [OF l d(1)])
  have b2: "bodies (built h lnx port (ps @ [p]) (xs @ [blank_body]))
      = ?B(q \<mapsto> y\<lparr>o_next := Some p\<rparr>, p \<mapsto> blank_body\<lparr>o_next := Some 0\<rparr>)"
    using built_snoc [of ps xs p h lnx port blank_body] assms l d
    by (simp add: snoc xs link_seg_snoc map_of_snoc link_seg_fst del: map_of_append)
  define H H' where "H = built h lnx port ps xs" and "H' = built h lnx port (ps @ [p]) (xs @ [blank_body])"
  have hd: "hd (ps @ [p, 0]) = hd (ps @ [0])" using snoc by (cases qs) simp_all
  have i: "infos H = (infos h)(lnx \<mapsto> \<lparr>o_local_phys_port = Some port, o_num_links = Some (of_nat (length xs)),
      o_body = Some (hd (ps @ [0]))\<rparr>)"
    "infos H' = (infos h)(lnx \<mapsto> \<lparr>o_local_phys_port = Some port, o_num_links = Some (1 + of_nat (length xs)),
      o_body = Some (hd (ps @ [0]))\<rparr>)"
    and st: "streams H = streams h" "streams H' = streams h"
    using hd by (simp_all add: H_def H'_def built_def)
  have t: "tail_place lnx ps = Next q" by (simp add: snoc)
  have "append_link lnx (Next q) p (H\<lparr>bodies := (bodies H)(p \<mapsto> blank_body)\<rparr>) = Inr H'"
    using d(3) by (simp add: append_link_def store_at_def set_info_def set_body_def get_field_def i st
        b1 [folded H_def] b2 [folded H'_def] fun_upd_twist lheap.equality add.commute)
  then show ?thesis by (simp add: t H_def H'_def)
qed

lemma set_body_built:
  assumes "length ps = length xs" and "p \<notin> set ps" and "\<And>x n. f (x\<lparr>o_next := n\<rparr>) = (f x)\<lparr>o_next := n\<rparr>"
  shows "set_body p f (built h lnx port (ps @ [p]) (xs @ [x])) = Inr (built h lnx port (ps @ [p]) (xs @ [f x]))"
proof -
  have "built h lnx port (ps @ [p]) (xs @ [f x])
      = (built h lnx port (ps @ [p]) (xs @ [x]))\<lparr>bodies := (bodies h ++ map_of (link_seg p ps xs))(p \<mapsto> f x\<lparr>o_next := Some 0\<rparr>)\<rparr>"
    using assms by (simp add: built_def link_seg_snoc map_of_snoc link_seg_fst del: map_of_append)
  with built_snoc [OF assms(1,2)] assms(3) show ?thesis by (simp add: set_body_def)
qed

lemma free_loop_chain:
  assumes "length ps = length xs" and "distinct ps" and "0 \<notin> set ps" and "set ps \<inter> dom B = {}"
  shows "bodies h = B ++ map_of (link_seg 0 ps xs) \<Longrightarrow> free_loop (hd (ps @ [0])) h = Some (Inr (h\<lparr>bodies := B\<rparr>))"
  using assms
proof (induction ps xs arbitrary: h rule: list_induct2)
  case Nil
  then show ?case by (simp add: free_loop.simps [of 0])
next
  case (Cons p ps x xs)
  have b: "bodies h p = Some (x\<lparr>o_next := Some (hd (ps @ [0]))\<rparr>)" using Cons.prems(1) by simp
  have "p \<notin> set (map fst (link_seg 0 ps xs))" using Cons.prems(2) Cons.hyps by (simp add: link_seg_fst)
  then have "map_of (link_seg 0 ps xs) p = None" by (simp add: map_of_eq_None_iff)
  moreover have "B p = None" using Cons.prems(4) by auto
  ultimately have "(bodies h)(p := None) = B ++ map_of (link_seg 0 ps xs)"
    using Cons.prems(1) by (auto simp: fun_eq_iff map_add_def)
  then have "free_loop (hd (ps @ [0])) (h\<lparr>bodies := (bodies h)(p := None)\<rparr>) = Some (Inr (h\<lparr>bodies := B\<rparr>))"
    using Cons.IH [of "h\<lparr>bodies := (bodies h)(p := None)\<rparr>"] Cons.prems(2-4) by simp
  with Cons.prems(3) b show ?case by (simp add: free_loop.simps [of p] get_field_def free_lnxbody_def)
qed

lemma free_links_built:
  assumes "length ps = length xs" and "distinct ps" and "0 \<notin> set ps" and "set ps \<inter> dom (bodies h) = {}"
    and "infos h lnx = None"
  shows "free_links lnx (built h lnx port ps xs) = Some (Inr h)"
proof -
  have "free_loop (hd (ps @ [0])) (built h lnx port ps xs)
      = Some (Inr ((built h lnx port ps xs)\<lparr>bodies := bodies h\<rparr>))"
    by (rule free_loop_chain [OF assms(1-4)]) (simp add: built_def)
  moreover have "(infos h)(lnx := None) = infos h" using assms(5) by auto
  ultimately show ?thesis
    by (simp add: free_links_def get_field_def free_lnxinfo_def built_def)
qed

section \<open>The loop against the loop on lists\<close>

text \<open>A link of the list as an object; its \<open>next\<close> is set by the chain.\<close>

definition obj_of :: "lnxbody \<Rightarrow> lnxbody_obj" where
  "obj_of b = \<lparr>o_remote_phys_host = Some (remote_phys_host b), o_remote_phys_port = Some (remote_phys_port b),
     o_local_virt_ip = Some (local_virt_ip b), o_remote_virt_ip = Some (remote_virt_ip b), o_next = None\<rparr>"

text \<open>What \<open>malloc\<close> promises of the addresses it returns for the links.\<close>

definition fresh_links :: "(nat \<Rightarrow> addr) \<Rightarrow> lheap \<Rightarrow> bool" where
  "fresh_links al h \<longleftrightarrow> (\<forall>j. al j \<noteq> 0 \<longrightarrow> al j \<notin> dom (bodies h) \<and> (\<forall>k. al k = al j \<longrightarrow> k = j))"

definition first_links :: "(nat \<Rightarrow> addr) \<Rightarrow> nat \<Rightarrow> addr list" where
  "first_links al n = map al [0..<n]"

lemma first_links_Suc: "first_links al (Suc n) = first_links al n @ [al n]"
  by (simp add: first_links_def)

lemma first_links_ok:
  assumes "fresh_links al h" and "\<forall>j < n. al j \<noteq> 0"
  shows "length (first_links al n) = n" and "distinct (first_links al n)" and "0 \<notin> set (first_links al n)"
    and "set (first_links al n) \<inter> dom (bodies h) = {}" and "al n \<noteq> 0 \<Longrightarrow> al n \<notin> set (first_links al n)"
proof -
  have inj: "k = j" if "al j \<noteq> 0" "al k = al j" for j k using assms(1) that unfolding fresh_links_def by blast
  show "length (first_links al n) = n" by (simp add: first_links_def)
  show "distinct (first_links al n)"
    unfolding first_links_def distinct_map by (intro conjI distinct_upt inj_onI, rule inj) (use assms(2) in simp_all)
  show "0 \<notin> set (first_links al n)" using assms(2) unfolding first_links_def by force
  show "set (first_links al n) \<inter> dom (bodies h) = {}"
    using assms unfolding first_links_def fresh_links_def by force
  show "al n \<notin> set (first_links al n)" if "al n \<noteq> 0"
    using inj [OF that] unfolding first_links_def by force
qed

text \<open>How many links the loop and the function ask \<open>malloc\<close> for: one per line that is read, the first malformed one included.\<close>

function link_requests :: "string \<Rightarrow> nat" where
  "link_requests f =
     (if f = [] then 0
      else case fscanf_link f of
        Inr Scan_Short \<Rightarrow> 1
      | Inr (Scan_Full rhost port lv rv r) \<Rightarrow>
          (if bad_port port \<or> inet_pton lv = None \<or> inet_pton rv = None then 1 else Suc (link_requests r))
      | _ \<Rightarrow> 0)"
  by pat_completeness auto
termination
  by (relation "measure length") (auto dest: fscanf_link_shorter)

declare link_requests.simps [simp del]

definition file_requests :: "string option \<Rightarrow> nat" where
  "file_requests file =
     (case file of
        None \<Rightarrow> 0
      | Some f \<Rightarrow> (case scan_word f of
          None \<Rightarrow> 0
        | Some (w, r1) \<Rightarrow> (case scan_int r1 of None \<Rightarrow> 0 | Some (v, r2) \<Rightarrow> link_requests r2)))"

text \<open>What the loop leaves: all links, or a chain whose last link may be incomplete.\<close>

definition loop_result :: "nat \<Rightarrow> (nat \<Rightarrow> addr) \<Rightarrow> addr \<Rightarrow> lheap \<Rightarrow> u16 \<Rightarrow> fault + lnxbody list option \<Rightarrow> fault + lheap \<times> bool \<Rightarrow> bool" where
  "loop_result lim al lnx h port spec r \<longleftrightarrow>
     (case r of
        Inl e \<Rightarrow> spec = Inl e
      | Inr (h', ok) \<Rightarrow> \<exists>n xs. h' = built h lnx port (first_links al n) xs \<and> length xs = n \<and> (\<forall>j < n. al j \<noteq> 0)
          \<and> (if ok then \<exists>body. spec = Inr (Some body) \<and> xs = map obj_of body
             else spec = Inr None \<or> (\<exists>j < lim. al j = 0)))"

lemma loop_result_failI:
  "\<lbrakk>h' = built h lnx port (first_links al n) xs; length xs = n; \<forall>j < n. al j \<noteq> 0; spec = Inr None \<or> (\<exists>j < lim. al j = 0)\<rbrakk>
    \<Longrightarrow> loop_result lim al lnx h port spec (Inr (h', False))"
  by (auto simp: loop_result_def)

lemma loop_result_okI:
  "\<lbrakk>h' = built h lnx port (first_links al (length body)) (map obj_of body); \<forall>j < length body. al j \<noteq> 0; spec = Inr (Some body)\<rbrakk>
    \<Longrightarrow> loop_result lim al lnx h port spec (Inr (h', True))"
  by (auto simp: loop_result_def)

text \<open>One round of the loop when \<open>malloc\<close> succeeds.\<close>

lemma build_loop_round:
  assumes "length ps = length xs" and "distinct (ps @ [al i])" and "f \<noteq> []" and "al i \<noteq> 0"
  shows "build_loop al i lnx (tail_place lnx ps) f (built h lnx port ps xs) =
    (let grown = (\<lambda>x. built h lnx port (ps @ [al i]) (xs @ [x])) in
     case fscanf_link f of
       Inl e \<Rightarrow> Inl e
     | Inr Scan_Eof \<Rightarrow> Inr (built h lnx port ps xs, True)
     | Inr Scan_Short \<Rightarrow> Inr (grown blank_body, False)
     | Inr (Scan_Full rhost prt lv rv r) \<Rightarrow>
         (if bad_port prt then Inr (grown blank_body, False)
          else case inet_pton lv of
            None \<Rightarrow> Inr (grown blank_body, False)
          | Some l \<Rightarrow>
              (case inet_pton rv of
                 None \<Rightarrow> Inr (grown (blank_body\<lparr>o_local_virt_ip := Some l\<rparr>), False)
               | Some rm \<Rightarrow> build_loop al (Suc i) lnx (Next (al i)) r (grown (obj_of
                   \<lparr>remote_phys_host = rhost, remote_phys_port = of_int prt, local_virt_ip = l, remote_virt_ip = rm\<rparr>)))))"
proof -
  have d: "al i \<notin> set ps" using assms(2) by simp
  have o: "blank_body\<lparr>o_local_virt_ip := Some l, o_remote_virt_ip := Some rm, o_remote_phys_host := Some rhost,
      o_remote_phys_port := Some prt\<rparr>
    = obj_of \<lparr>remote_phys_host = rhost, remote_phys_port = prt, local_virt_ip = l, remote_virt_ip = rm\<rparr>" for l rm rhost prt
    by (simp add: obj_of_def blank_body_def)
  show ?thesis
    by (simp add: build_loop.simps [of _ _ _ _ f] Let_def assms(3,4) append_link_built [OF assms(1,2)]
        set_body_built [OF assms(1) d] o split: sum.split scan4.split option.split)
qed

lemma build_loop_result:
  assumes "fresh_links al h" and "\<forall>j < length body. al j \<noteq> 0"
  shows "loop_result (length body + link_requests f) al lnx h port (link_loop f body)
    (build_loop al (length body) lnx (tail_place lnx (first_links al (length body))) f
      (built h lnx port (first_links al (length body)) (map obj_of body)))"
  using assms(2)
proof (induction f body rule: link_loop.induct)
  case (1 f body)
  let ?i = "length body" and ?ps = "first_links al (length body)" and ?xs = "map obj_of body"
  note l = first_links_ok [OF assms(1) "1.prems"]
  have full: "loop_result lim al lnx h port (Inr (Some body)) (Inr (built h lnx port ?ps ?xs, True))" for lim
    using "1.prems" by (simp add: loop_result_okI)
  consider "f = []" | "f \<noteq> []" "al ?i = 0" | "f \<noteq> []" "al ?i \<noteq> 0" by blast
  then show ?case
  proof cases
    case ended: 1
    with full show ?thesis by (simp add: build_loop.simps [of _ _ _ _ "[]"] link_loop.simps [of "[]"])
  next
    case nomem: 2
    have none: "loop_result (?i + k) al lnx h port spec (Inr (built h lnx port ?ps ?xs, False))" if "0 < k" for spec k
      by (rule loop_result_failI [where n = ?i]) (use nomem "1.prems" that in \<open>auto intro!: exI [of _ ?i]\<close>)
    have k: "0 < link_requests f" if "fscanf_link f = Inr sc" "sc \<noteq> Scan_Eof" for sc
      using that nomem(1) by (cases sc) (simp_all add: link_requests.simps [of f])
    show ?thesis
    proof (cases "fscanf_link f")
      case (Inl e)
      with nomem(1) show ?thesis
        by (simp add: build_loop.simps [of _ _ _ _ f] link_loop.simps [of f] loop_result_def)
    next
      case (Inr sc)
      show ?thesis
      proof (cases "sc = Scan_Eof")
        case True
        with Inr nomem(1) full show ?thesis by (simp add: build_loop.simps [of _ _ _ _ f] link_loop.simps [of f])
      next
        case False
        from none [OF k [OF Inr False], of "link_loop f body"] Inr False nomem show ?thesis
          by (simp add: build_loop.simps [of _ _ _ _ f] Let_def)
      qed
    qed
  next
    case round: 3
    have d: "length ?ps = length ?xs" "distinct (?ps @ [al ?i])" using l round(2) by simp_all
    have failed: "loop_result lim al lnx h port (Inr None) (Inr (built h lnx port (?ps @ [al ?i]) (?xs @ [x]), False))" for x lim
      by (rule loop_result_failI [where n = "Suc ?i" and xs = "?xs @ [x]"]) (use round "1.prems" in \<open>simp_all add: first_links_Suc less_Suc_eq\<close>)
    have more: "loop_result (Suc (?i + link_requests r)) al lnx h port (link_loop r (body @ [b]))
        (build_loop al (Suc ?i) lnx (Next (al ?i)) r (built h lnx port (?ps @ [al ?i]) (?xs @ [obj_of b])))"
      if "fscanf_link f = Inr (Scan_Full rhost prt lv rv r)" "\<not> bad_port prt" "inet_pton lv = Some lva" "inet_pton rv = Some rva"
        "b = \<lparr>remote_phys_host = rhost, remote_phys_port = of_int prt, local_virt_ip = lva, remote_virt_ip = rva\<rparr>"
      for rhost prt lv rv r lva rva b
      using "1.IH" [OF round(1) that(1) refl that(2-4)] round "1.prems" that(5) by (auto simp: first_links_Suc less_Suc_eq)
    show ?thesis unfolding build_loop_round [of ?ps ?xs al ?i, OF d round] link_loop.simps [of f] link_requests.simps [of f] Let_def
      using round(1) full failed more
      by (auto simp: loop_result_def [of _ _ _ _ _ _ "Inl e" for e] split: sum.split scan4.split option.split)
  qed
qed

section \<open>Properties\<close>

lemma build_loop_start:
  assumes "fresh_links al h" and "infos h p = None"
  shows "loop_result (link_requests r) al p h (of_int port) (link_loop r [])
    (bindE (set_info p (\<lambda>x. x\<lparr>o_local_phys_port := Some (of_int port)\<rparr>) (h\<lparr>infos := (infos h)(p \<mapsto> blank_info\<lparr>o_body := Some 0\<rparr>)\<rparr>)) (\<lambda>h.
     bindE (set_info p (\<lambda>x. x\<lparr>o_num_links := Some 0\<rparr>) h) (\<lambda>h. build_loop al 0 p (Body p) r h)))"
  using build_loop_result [OF assms(1), where body = "[]"]
  by (simp add: set_info_def built_def blank_info_def first_links_def tail_place_def)

lemma free_links_result:
  assumes "fresh_links al h" and "infos h p = None" and "length xs = n" and "\<forall>j < n. al j \<noteq> 0"
  shows "free_links p (built h p port (first_links al n) xs) = Some (Inr h)"
  using first_links_ok [OF assms(1,4)] assms(2,3) by (simp add: free_links_built)

lemma fclose_built: "fclose (built (fopen h) p port ps xs) = built h p port ps xs"
  by (simp add: fclose_def fopen_def built_def)

lemma fail_result: "infos h p = None \<Longrightarrow> free_lnxinfo p (fopen h\<lparr>infos := (infos h)(p \<mapsto> x)\<rparr>) = Inr (fopen h)"
proof -
  assume "infos h p = None"
  then have "(infos h)(p := None) = infos h" by (rule fun_upd_idem)
  then show ?thesis by (simp add: free_lnxinfo_def fopen_def)
qed

lemma fclose_fopen [simp]: "fclose (fopen h) = h"
  by (simp add: fclose_def fopen_def)

lemma fopen_sel [simp]: "infos (fopen h) = infos h" "bodies (fopen h) = bodies h"
  by (simp_all add: fopen_def)

lemma finish_links_result:
  assumes "loop_result lim al p (fopen h) port spec r" and "fresh_links al h" and "infos h p = None" and "p \<noteq> 0"
  shows "(\<exists>e. finish_links p r = Some (Inl e) \<and> spec = Inl e)
    \<or> (finish_links p r = Some (Inr (0, h)) \<and> (spec = Inr None \<or> (\<exists>j < lim. al j = 0)))
    \<or> (\<exists>body h'. finish_links p r = Some (Inr (p, h')) \<and> spec = Inr (Some body)
         \<and> h' = built (fopen h) p port (first_links al (length body)) (map obj_of body)
         \<and> free_links p h' = Some (Inr (fopen h)))"
proof (cases r)
  case (Inl e)
  with assms(1) show ?thesis by (simp add: finish_links_def loop_result_def)
next
  case (Inr hb)
  obtain h' ok where hb: "hb = (h', ok)" by fastforce
  from assms(1) Inr hb obtain n xs where h': "h' = built (fopen h) p port (first_links al n) xs" "length xs = n" "\<forall>j < n. al j \<noteq> 0"
    and ok: "if ok then \<exists>body. spec = Inr (Some body) \<and> xs = map obj_of body else spec = Inr None \<or> (\<exists>j < lim. al j = 0)"
    unfolding loop_result_def by auto
  have fresh: "fresh_links al (fopen h)" "infos (fopen h) p = None" using assms(2,3) by (simp_all add: fresh_links_def)
  note free = free_links_result [OF fresh h'(2,3)] free_links_result [OF assms(2,3) h'(2,3)]
  show ?thesis
  proof (cases ok)
    case True
    with ok obtain body where "spec = Inr (Some body)" "xs = map obj_of body" by auto
    with True Inr hb h'(1,2) free show ?thesis by (auto simp: finish_links_def)
  next
    case False
    with ok have "spec = Inr None \<or> (\<exists>j < lim. al j = 0)" by simp
    with False Inr hb h'(1) free show ?thesis by (simp add: finish_links_def fclose_built)
  qed
qed

text \<open>
  The texts on which a read is undefined: \<open>%s\<close> stores a word that does not fit the smallest of its buffers, or \<open>%d\<close> a
  number outside \<open>int\<close>.
\<close>

definition wild_read :: "string \<Rightarrow> fault \<Rightarrow> bool" where
  "wild_read f e \<longleftrightarrow> (\<exists>r. suffix r f
     \<and> ((\<exists>w r'. scan_word r = Some (w, r') \<and> INET_ADDRSTRLEN \<le> length w \<and> e = Out_Of_Bounds)
       \<or> (\<exists>v r'. scan_int r = Some (v, r') \<and> (v < - (2 ^ 31) \<or> 2 ^ 31 \<le> v) \<and> e = Indeterminate)))"

lemma wild_word: "scan_word r = Some (w, r') \<Longrightarrow> fits cap w = Inl e \<Longrightarrow> INET_ADDRSTRLEN \<le> cap \<Longrightarrow> wild_read r e"
  unfolding wild_read_def fits_def by (intro exI [of _ r]) (auto split: if_splits)

lemma wild_int: "scan_int r = Some (v, r') \<Longrightarrow> to_int v = Inl e \<Longrightarrow> wild_read r e"
  unfolding wild_read_def to_int_def by (intro exI [of _ r]) (auto split: if_splits)

lemma wild_suffix: "wild_read r e \<Longrightarrow> suffix r f \<Longrightarrow> wild_read f e"
  unfolding wild_read_def by (blast intro: suffix_order.trans)

lemma suffix_dropWhile: "suffix (dropWhile P s) s"
  by (metis suffixI takeWhile_dropWhile_id)

lemma scan_word_suffix: "scan_word s = Some (w, r) \<Longrightarrow> suffix r s"
  by (auto simp: scan_word_def Let_def split: if_splits intro: suffix_order.trans [OF suffix_drop suffix_dropWhile])

lemma scan_int_suffix: "scan_int s = Some (v, r) \<Longrightarrow> suffix r s"
proof -
  assume a: "scan_int s = Some (v, r)"
  then obtain c t where t: "dropWhile is_space s = c # t" by (auto simp: scan_int_def split: list.splits)
  then have s: "suffix (c # t) s" using suffix_dropWhile by metis
  then have "suffix t s" by (rule suffix_ConsD)
  with s have d: "scan_digits u = Some (x, r) \<Longrightarrow> u = t \<or> u = c # t \<Longrightarrow> suffix r s" for u x
    by (auto simp: scan_digits_def Let_def split: if_splits intro: suffix_order.trans [OF suffix_drop])
  from a t show ?thesis by (auto simp: scan_int_def split: if_splits intro: d)
qed

lemmas scan_suffix = scan_word_suffix scan_int_suffix

lemma fscanf_link_suffix:
  assumes "fscanf_link s = Inr (Scan_Full rhost port lv rv r)"
  shows "suffix r s"
proof -
  from assms obtain w1 v w2 w3 r1 r2 r3 where
    w: "scan_word s = Some (w1, r1)" "scan_int r1 = Some (v, r2)" "scan_word r2 = Some (w2, r3)" "scan_word r3 = Some (w3, r)"
    by (auto simp: fscanf_link_def bindE_Inr_iff split: option.splits)
  from scan_word_suffix [OF w(1)] scan_int_suffix [OF w(2)] scan_word_suffix [OF w(3)] scan_word_suffix [OF w(4)]
  show ?thesis by (blast intro: suffix_order.trans)
qed

lemma fscanf_link_wild:
  assumes "fscanf_link s = Inl e"
  shows "wild_read s e"
proof -
  have b: "INET_ADDRSTRLEN \<le> HOST_MAX_LENGTH" by (simp add: INET_ADDRSTRLEN_def HOST_MAX_LENGTH_def)
  obtain w r1 where w: "scan_word s = Some (w, r1)" using assms by (auto simp: fscanf_link_def split: option.splits)
  note s1 = scan_word_suffix [OF w]
  show ?thesis
  proof (cases "fits HOST_MAX_LENGTH w")
    case (Inl e')
    with assms w b show ?thesis by (auto simp: fscanf_link_def intro: wild_word)
  next
    case (Inr rhost)
    then obtain v r2 where v: "scan_int r1 = Some (v, r2)"
      using assms w by (auto simp: fscanf_link_def split: option.splits)
    note s2 = suffix_order.trans [OF scan_int_suffix [OF v] s1]
    show ?thesis
    proof (cases "to_int v")
      case (Inl e')
      with assms w v \<open>fits HOST_MAX_LENGTH w = Inr rhost\<close> have "to_int v = Inl e" by (simp add: fscanf_link_def)
      from wild_suffix [OF wild_int [OF v this] s1] show ?thesis .
    next
      case (Inr port)
      then obtain w2 r3 where w2: "scan_word r2 = Some (w2, r3)"
        using assms w v \<open>fits HOST_MAX_LENGTH w = Inr rhost\<close> by (auto simp: fscanf_link_def split: option.splits)
      note s3 = suffix_order.trans [OF scan_word_suffix [OF w2] s2]
      have "fits INET_ADDRSTRLEN w2 = Inl e \<or> (\<exists>w3 r4. scan_word r3 = Some (w3, r4) \<and> fits INET_ADDRSTRLEN w3 = Inl e)"
        using assms w v w2 \<open>fits HOST_MAX_LENGTH w = Inr rhost\<close> Inr
        by (cases "fits INET_ADDRSTRLEN w2") (auto simp: fscanf_link_def bindE_Inl_iff split: option.splits)
      then show ?thesis
        using wild_suffix [OF wild_word [OF w2] s2] wild_suffix [OF wild_word s3] by blast
    qed
  qed
qed

lemma link_loop_wild: "link_loop f body = Inl e \<Longrightarrow> wild_read f e"
proof (induction f body rule: link_loop.induct)
  case (1 f body)
  from "1.prems" have f: "f \<noteq> []" by (auto simp: link_loop.simps [of "[]"])
  show ?case
  proof (cases "fscanf_link f")
    case (Inl e')
    with "1.prems" f fscanf_link_wild [of f e] show ?thesis by (simp add: link_loop.simps [of f])
  next
    case (Inr sc)
    with "1.prems" f obtain rhost port lv rv r l rm where sc: "sc = Scan_Full rhost port lv rv r"
      and c: "\<not> bad_port port" "inet_pton lv = Some l" "inet_pton rv = Some rm"
      and e: "link_loop r (body @ [\<lparr>remote_phys_host = rhost, remote_phys_port = of_int port,
                local_virt_ip = l, remote_virt_ip = rm\<rparr>]) = Inl e"
      by (auto simp: link_loop.simps [of f] split: scan4.splits if_splits option.splits)
    from wild_suffix [OF "1.IH" [OF f Inr sc c e] fscanf_link_suffix [OF Inr [unfolded sc]]] show ?thesis .
  qed
qed

lemma parse_links_wild:
  assumes "parse_links file = Inl e"
  shows "\<exists>f. file = Some f \<and> wild_read f e"
proof -
  have b: "INET_ADDRSTRLEN \<le> HOST_MAX_LENGTH" by (simp add: INET_ADDRSTRLEN_def HOST_MAX_LENGTH_def)
  obtain f w r1 where f: "file = Some f" "scan_word f = Some (w, r1)"
    using assms by (auto simp: parse_links_def split: option.splits)
  note s1 = scan_word_suffix [OF f(2)]
  show ?thesis
  proof (cases "fits HOST_MAX_LENGTH w")
    case (Inl e')
    with assms f b show ?thesis by (auto simp: parse_links_def intro: wild_word)
  next
    case (Inr lhost)
    then obtain v r2 where v: "scan_int r1 = Some (v, r2)"
      using assms f by (auto simp: parse_links_def split: option.splits)
    note s2 = suffix_order.trans [OF scan_int_suffix [OF v] s1]
    have "to_int v = Inl e \<or> link_loop r2 [] = Inl e"
      using assms f v Inr by (cases "to_int v") (auto simp: parse_links_def bindE_Inl_iff split: if_splits)
    then show ?thesis
      using f(1) wild_suffix [OF wild_int [OF v] s1] wild_suffix [OF link_loop_wild s2] by blast
  qed
qed

text \<open>
  C32: \<open>parse_links\<close> on memory, whatever \<open>malloc\<close> answers, ends.  It uses memory that is not its own only where the
  reads themselves do, with the same fault as on lists; then the file has a word of 16 or more characters (the smallest buffer
  of a \<open>%s\<close> holds 15) or a number outside \<open>int\<close>, so that every other file is processed without a fault.  When it returns \<open>NULL\<close> everything it allocated is released and the stream is closed; that
  happens only when the file is malformed or one of the allocations that the file asks for failed.  Otherwise it returns the links of the
  file as a chain of completely written objects in order, and leaves the stream open; \<open>free_links\<close> then ends and
  releases exactly the info and its links.
\<close>

theorem parse_links_in_memory:
  assumes "fresh_links al h" and "infos h p = None"
  shows "case parse_links_mem p al file h of
      None \<Rightarrow> False
    | Some (Inl e) \<Rightarrow> parse_links file = Inl e \<and> (\<exists>f. file = Some f \<and> wild_read f e)
    | Some (Inr (lnx, h')) \<Rightarrow>
        (if lnx = 0 then h' = h \<and> (parse_links file = Inr None \<or> p = 0 \<or> (\<exists>j < file_requests file. al j = 0))
         else \<exists>info. lnx = p \<and> parse_links file = Inr (Some info)
           \<and> h' = built (fopen h) lnx (local_phys_port info) (first_links al (length (lnx_body info))) (map obj_of (lnx_body info))
           \<and> free_links lnx h' = Some (Inr (fopen h)))"
proof (cases "p = 0 \<or> file = None")
  case True
  then show ?thesis by (auto simp: parse_links_mem_def parse_links_def Let_def split: option.splits)
next
  case False
  then obtain f where f: "file = Some f" and p: "p \<noteq> 0" by auto
  have fresh: "fresh_links al (fopen h)" "infos (fopen h) p = None" using assms by (simp_all add: fresh_links_def)
  have wild: "parse_links file = Inl e \<Longrightarrow> wild_read f e" for e using parse_links_wild f by fastforce
  show ?thesis
  proof (cases "\<exists>w r1 lhost v r2 port. scan_word f = Some (w, r1) \<and> fits HOST_MAX_LENGTH w = Inr lhost
      \<and> scan_int r1 = Some (v, r2) \<and> to_int v = Inr port \<and> \<not> bad_port port")
    case True
    then obtain w r1 lhost v r2 port where s: "scan_word f = Some (w, r1)" "fits HOST_MAX_LENGTH w = Inr lhost"
      "scan_int r1 = Some (v, r2)" "to_int v = Inr port" "\<not> bad_port port" by blast
    from finish_links_result [OF build_loop_start [OF fresh] assms p, of port r2] wild show ?thesis
      by (elim disjE exE conjE) (use p in \<open>auto simp: parse_links_mem_def parse_links_def file_requests_def Let_def f s\<close>)
  next
    case no: False
    with p fail_result [OF assms(2)] wild show ?thesis
      by (auto simp: parse_links_mem_def parse_links_def Let_def f split: sum.split option.split if_split)
  qed
qed

definition no_heap :: lheap where
  "no_heap = \<lparr>infos = Map.empty, bodies = Map.empty, streams = 0\<rparr>"

theorem parse_links_in_memory_witness:
  "\<exists>h'. parse_links_mem 1 (\<lambda>j. j + 2) (Some A_lnx) no_heap = Some (Inr (1, h'))
     \<and> free_links 1 h' = Some (Inr (fopen no_heap))"
proof -
  have "fresh_links (\<lambda>j. j + 2) no_heap" "infos no_heap 1 = None" by (simp_all add: fresh_links_def no_heap_def)
  from parse_links_in_memory [OF this, of "Some A_lnx"] show ?thesis
    by (simp add: parse_A_lnx split: option.splits sum.splits prod.splits if_splits)
qed

end
