(* ===== verification/Console_Text.thy ===== *)
theory Console_Text
  imports Commands
begin

text \<open>
  The text of the lines of the console, format by format: what \<open>interfaces\<close>, \<open>routes\<close>, \<open>help\<close> and the
  delivery of a packet print (\<open>src/NodeImpl.cc\<close>, \<open>src/RipLayer.cc\<close>, \<open>src/Node.hh\<close>, \<open>src/NetworkLayer.cc\<close>).  The listings
  can be read back, and the help names exactly the commands that are understood.
\<close>

section \<open>Formats\<close>

definition TAB :: char where "TAB = CHR 0x09"
definition LF :: char where "LF = CHR 0x0A"

text \<open>\<open>%d\<close>.\<close>

definition format_d :: "int \<Rightarrow> string" where
  "format_d i = (if i < 0 then ''-'' @ decimal (nat (- i)) else decimal (nat i))"

definition interfaces_header :: string where
  "interfaces_header = ''id'' @ [TAB] @ ''rem'' @ [TAB, TAB] @ ''loc'' @ [LF]"

definition interface_row_text :: "nat \<Rightarrow> string \<Rightarrow> string \<Rightarrow> string" where
  "interface_row_text ifid str1 str2 = decimal ifid @ [TAB] @ str1 @ [TAB] @ str2 @ [LF]"

definition routes_header :: string where
  "routes_header = ''cost '' @ [TAB, TAB] @ '' dst '' @ [TAB, TAB] @ '' loc '' @ [LF]"

definition route_row_text :: "u32 \<Rightarrow> string \<Rightarrow> string \<Rightarrow> string" where
  "route_row_text c s1 s2 = decimal (unat c) @ '' '' @ [TAB] @ '' '' @ s1 @ '' '' @ [TAB] @ '' '' @ s2 @ [LF]"

definition received_text :: "int \<Rightarrow> u32 \<Rightarrow> u32 \<Rightarrow> u8 \<Rightarrow> int \<Rightarrow> byte list \<Rightarrow> string" where
  "received_text interfaceid src dst proto len payload =
     ''---Node received packet!---'' @ [LF]
     @ [TAB] @ ''arrived link: '' @ format_d interfaceid @ [LF]
     @ [TAB] @ ''source IP: '' @ inet_ntop src @ [LF, TAB] @ ''received IP: '' @ inet_ntop dst @ [LF]
     @ [TAB] @ ''protocol: '' @ decimal (unat proto) @ [LF, TAB] @ ''payload length: '' @ format_d len
     @ [LF, TAB] @ ''payload:'' @ map (\<lambda>b. char_of (unat b)) payload @ [LF]"

definition help_text :: string where
  "help_text =
     ''- help, h: Print this list of commands'' @ [LF]
     @ ''- interfaces, li: Print information about each interface, one per line'' @ [LF]
     @ ''- routes, lr: Print information about the route to each known destination, one per line'' @ [LF]
     @ ''- up [integer]: Bring an interface \"up\" (it must be an existing interface, probably one you brought down)'' @ [LF]
     @ ''- down [integer]: Bring an interface \"down\"'' @ [LF]
     @ ''- send [ip] [protocol] [payload]: sends payload with protocol=protocol to virtual-ip ip'' @ [LF]
     @ ''- q: quit this node'' @ [LF]"

text \<open>The lines that have one of these formats.\<close>

fun line_text :: "console_line \<Rightarrow> string option" where
  "line_text Interfaces_Header = Some interfaces_header"
| "line_text (Interface_Row ifid rem loc) = Some (interface_row_text ifid rem loc)"
| "line_text Routes_Header = Some routes_header"
| "line_text (Route_Row c dst loc) = Some (route_row_text c dst loc)"
| "line_text (Received_Packet ifid src dst proto len payload) = Some (received_text ifid src dst proto len payload)"
| "line_text Help_Text = Some help_text"
| "line_text _ = None"

section \<open>Reading a listing\<close>

text \<open>Rows of a number and two addresses, separated by white space, up to the first one that is not of this form.\<close>

function read_rows :: "string \<Rightarrow> (int \<times> u32 option \<times> u32 option) list" where
  "read_rows s =
     (case scan_int s of
        None \<Rightarrow> []
      | Some (v, r1) \<Rightarrow>
          (case scan_word r1 of
             None \<Rightarrow> []
           | Some (a, r2) \<Rightarrow>
               (case scan_word r2 of
                  None \<Rightarrow> []
                | Some (b, r3) \<Rightarrow> (v, inet_pton a, inet_pton b) # read_rows r3)))"
  by pat_completeness auto
termination
  by (relation "measure length") (auto dest!: scan_word_shorter scan_int_shorter)

declare read_rows.simps [simp del]

lemma tab_chars [simp]: "is_space TAB" "is_space LF" "\<not> is_digit TAB" "\<not> is_digit LF"
  by (simp_all add: TAB_def LF_def is_space_def is_digit_def ch_code_def)

lemma scan_int_space: "is_space c \<Longrightarrow> scan_int (c # s) = scan_int s"
  by (simp add: scan_int_def)

lemma scan_int_number: "r = [] \<or> \<not> is_digit (hd r) \<Longrightarrow> scan_int (decimal p @ r) = Some (int p, r)"
  using scan_int_decimal [of r p] by (simp add: scan_int_space)

lemma scan_word_ntop: "is_space c \<Longrightarrow> scan_word (inet_ntop a @ c # r) = Some (inet_ntop a, c # r)"
  using scan_word_at [OF inet_ntop_not_Nil, of a "c # r"] inet_ntop_chars [of _ a] by simp

lemma read_rows_end [simp]: "read_rows [] = []" "read_rows [LF] = []"
  by (simp_all add: read_rows.simps [of "[]"] read_rows.simps [of "[LF]"] scan_int_def)

lemma read_route_row:
  "read_rows (LF # route_row_text c (inet_ntop a) (inet_ntop b) @ r)
   = (int (unat c), Some a, Some b) # read_rows (LF # r)"
  by (subst read_rows.simps) (simp add: route_row_text_def
      scan_int_space scan_int_number scan_word_space scan_word_ntop inet_pton_ntop)

lemma read_interface_row:
  "read_rows (LF # interface_row_text i (inet_ntop a) (inet_ntop b) @ r)
   = (int i, Some a, Some b) # read_rows (LF # r)"
  by (subst read_rows.simps) (simp add: interface_row_text_def
      scan_int_space scan_int_number scan_word_space scan_word_ntop inet_pton_ntop)

text \<open>The text of a listing without its header.\<close>

definition rows_text :: "console_line list \<Rightarrow> string" where
  "rows_text rows = LF # concat (map (\<lambda>x. the (line_text x)) rows)"

lemma read_interface_rows:
  "read_rows (rows_text (interface_rows i ifs))
   = map (\<lambda>(k, l). (int k, Some (htonl (vip_remote l)), Some (htonl (vip_local l)))) (enumerate i (filter isup ifs))"
  by (induction ifs arbitrary: i) (simp_all add: rows_text_def read_interface_row)

lemma read_route_rows:
  "read_rows (rows_text (map (\<lambda>(k, ets). Route_Row (cost (ent ets)) (inet_ntop (htonl (address (ent ets))))
      (inet_ntop (htonl (next_hop ets)))) rt))
   = map (\<lambda>(k, ets). (int (unat (cost (ent ets))), Some (htonl (address (ent ets))), Some (htonl (next_hop ets)))) rt"
  by (induction rt) (simp_all add: rows_text_def read_route_row split: prod.split)

section \<open>The commands of the help\<close>

text \<open>The names in front of the colons of the help.\<close>

fun split_at :: "char \<Rightarrow> string \<Rightarrow> string list" where
  "split_at c [] = []"
| "split_at c (x # xs) = (if x = c then [] # split_at c xs
     else (case split_at c xs of [] \<Rightarrow> [[x]] | w # ws \<Rightarrow> (x # w) # ws))"

definition line_names :: "string \<Rightarrow> string list" where
  "line_names l = map (\<lambda>w. takeWhile (\<lambda>c. \<not> is_space c) (dropWhile is_space w))
     (split_at CHR '','' (takeWhile (\<lambda>c. c \<noteq> CHR '':'') (drop 2 l)))"

definition help_names :: "string list" where
  "help_names = concat (map line_names (split_at LF help_text))"

lemma help_names_eq:
  "help_names = [''help'', ''h'', ''interfaces'', ''li'', ''routes'', ''lr'', ''up'', ''down'', ''send'', ''q'']"
  by code_simp

section \<open>Properties\<close>

text \<open>
  What \<open>interfaces\<close> and \<open>routes\<close> print under their headers reads back exactly: one row for each interface
  that is up, numbered from 0, with its remote and local address; one row for each route, in the order of the table, with its cost,
  destination and next hop.
\<close>

theorem listings_read_back:
  shows "\<exists>ifc_rows route_rows.
      print_interfaces n = prints (Interfaces_Header # ifc_rows) n
    \<and> read_rows (rows_text ifc_rows)
      = map (\<lambda>(k, l). (int k, Some (htonl (vip_remote l)), Some (htonl (vip_local l)))) (enumerate 0 (filter isup (interfaces n)))
    \<and> print_route_table n = prints (Routes_Header # route_rows) n
    \<and> read_rows (rows_text route_rows)
      = map (\<lambda>(k, ets). (int (unat (cost (ent ets))), Some (htonl (address (ent ets))), Some (htonl (next_hop ets)))) (rtable n)"
  unfolding print_interfaces_def print_route_table_def using read_interface_rows read_route_rows by blast

text \<open>
  The commands that the dispatcher understands, and enters into the history, are exactly those of the help except \<open>q\<close>, which
  the loop of \<open>main\<close> takes; every other word prints the help after an error and stays out of the history.
\<close>

theorem help_lists_commands:
  assumes "execute_cmd env cmd mem n = Inr (hist, n')"
  shows "hist = (cmd \<in> set help_names - {''q''})
    \<and> (cmd \<notin> set help_names - {''q''} \<longrightarrow> n' = prints [No_Valid_Command, Help_Text] n)"
proof -
  have "set help_names - {''q''} = {''help'', ''h'', ''interfaces'', ''li'', ''routes'', ''lr'', ''up'', ''down'', ''send''}"
    by (auto simp: help_names_eq)
  with assms show ?thesis
    by (auto simp: execute_cmd_def prints_def print_def split: if_splits)
qed

theorem help_lists_commands_witness:
  "execute_cmd (None, at_sec 0) ''quit'' (''quit'' @ [NUL]) B_node
     = Inr (False, prints [No_Valid_Command, Help_Text] B_node) \<and> ''quit'' \<notin> set help_names"
proof -
  have e: "execute_cmd (None, at_sec 0) ''quit'' (''quit'' @ [NUL]) B_node
      = Inr (False, print Help_Text (print No_Valid_Command B_node))"
    by (simp add: execute_cmd_def)
  from help_lists_commands [OF e] e show ?thesis by simp
qed

end
