(* ===== verification/Fgets_Main.thy ===== *)
theory Fgets_Main
  imports Console_Text
begin

text \<open>
  The command loop of \<open>main\<close> (\<open>src/node.cc\<close>) compiled without \<open>READLINE\<close>: \<open>fgets\<close> into an array of the frame,
  whose contents behind the line are what earlier lines left there.  The prompt is not recorded.  The loop is compared with the one of the
  \<open>READLINE\<close> build in \<open>Commands\<close>.
\<close>

section \<open>Reading a line\<close>

text \<open>\<open>fgets(line, size, stdin)\<close>: the characters stored in front of the NUL and what is left of the input.\<close>

fun fgets_chars :: "nat \<Rightarrow> string \<Rightarrow> string \<times> string" where
  "fgets_chars 0 s = ([], s)"
| "fgets_chars (Suc k) [] = ([], [])"
| "fgets_chars (Suc k) (c # s) = (if c = LF then ([c], s) else (let (l, r) = fgets_chars k s in (c # l, r)))"

definition fgets :: "nat \<Rightarrow> string \<Rightarrow> (string \<times> string) option" where
  "fgets sz stdin = (if stdin = [] then None else Some (fgets_chars (sz - 1) stdin))"

text \<open>The array after the call: the line, the NUL, and the old contents.\<close>

definition store_line :: "string \<Rightarrow> string \<Rightarrow> string" where
  "store_line l buf = l @ NUL # drop (Suc (length l)) buf"

text \<open>\<open>if (strlen(line) > 0 && line[strlen(line)-1] == '\n') line[strlen(line)-1] = 0;\<close>\<close>

definition strip_newline :: "string \<Rightarrow> fault + string" where
  "strip_newline mem = bindE (cstr mem) (\<lambda>line.
     Inr (if 0 < length line \<and> mem ! (length line - 1) = LF then mem[length line - 1 := NUL] else mem))"

lemma fgets_chars_length: "fgets_chars k s = (l, r) \<Longrightarrow> length l + length r = length s"
  by (induction k s arbitrary: l r rule: fgets_chars.induct) (auto split: if_splits prod.splits)

lemma fgets_chars_not_Nil: "fgets_chars (Suc k) (c # s) = (l, r) \<Longrightarrow> l \<noteq> []"
  by (auto split: if_splits prod.splits)

lemma fgets_shorter: "fgets LINE_MAX stdin = Some (l, r) \<Longrightarrow> length r < length stdin"
proof -
  assume a: "fgets LINE_MAX stdin = Some (l, r)"
  obtain k where k: "LINE_MAX - 1 = Suc k" using not0_implies_Suc [of "LINE_MAX - 1"] by (auto simp: LINE_MAX_def)
  from a obtain c s where s: "stdin = c # s" by (cases stdin) (simp_all add: fgets_def)
  have f: "fgets_chars (Suc k) (c # s) = (l, r)"
    using a unfolding s fgets_def k by (simp only: list.simps if_False option.inject)
  from fgets_chars_length [OF f] fgets_chars_not_Nil [OF f] s show ?thesis by (cases l) auto
qed

text \<open>The loop; the array holds \<open>buf\<close> as far as it has been written.\<close>

function main_fgets :: "(nat \<Rightarrow> env) \<Rightarrow> nat \<Rightarrow> string \<Rightarrow> string \<Rightarrow> node \<Rightarrow> fault + node" where
  "main_fgets env t stdin buf n =
     (case fgets LINE_MAX stdin of
        None \<Rightarrow> Inr n
      | Some (l, stdin) \<Rightarrow> bindE (strip_newline (store_line l buf)) (\<lambda>mem. bindE (cstr mem) (\<lambda>line.
          case scan_word line of
            None \<Rightarrow> main_fgets env (Suc t) stdin mem n
          | Some (w, r) \<Rightarrow> bindE (fits LINE_MAX w) (\<lambda>cmd.
              if cmd = ''q'' then Inr n
              else bindE (execute_cmd (env t) cmd mem n) (\<lambda>(append_hist, n').
                main_fgets env (Suc t) stdin mem n')))))"
  by pat_completeness auto
termination
  by (relation "measure (\<lambda>(env, t, stdin, buf, n). length stdin)") (auto dest: fgets_shorter)

declare main_fgets.simps [simp del]

section \<open>More memory behind a line\<close>

lemma cstr_more: "cstr mem = Inr s \<Longrightarrow> cstr (mem @ junk) = Inr s"
  by (auto simp: cstr_def split: if_splits)

lemma cstr_drop_more:
  assumes "cstr (drop k mem) = Inr s"
  shows "cstr (drop k (mem @ junk)) = Inr s"
proof -
  have "drop k mem \<noteq> []" using assms by (auto simp: cstr_def)
  then have "drop k (mem @ junk) = drop k mem @ junk" by simp
  with cstr_more [OF assms] show ?thesis by simp
qed

lemma bind_cstr_more: "bindE (cstr mem) f = Inr r \<Longrightarrow> bindE (cstr (mem @ junk)) f = Inr r"
  by (cases "cstr mem") (simp_all add: cstr_more)

lemma send_cmd_more:
  assumes "send_cmd mem n = Inr n'"
  shows "send_cmd (mem @ junk) n = Inr n'"
proof -
  from assms obtain line r where line: "cstr mem = Inr line" and r: "scan_send line = Inr r"
    by (auto simp: send_cmd_def)
  have d: "bindE (cstr (drop k (mem @ junk))) f = Inr x" if "bindE (cstr (drop k mem)) f = Inr x"
    for k and f :: "string \<Rightarrow> fault + node" and x
    using that by (cases "cstr (drop k mem)") (simp_all add: cstr_drop_more del: drop_append)
  show ?thesis
  proof (cases r)
    case None
    with assms line r cstr_more [OF line] show ?thesis by (simp add: send_cmd_def)
  next
    case (Some x)
    obtain w p k where x: "x = (w, p, k)" by (cases x)
    with assms line r Some cstr_more [OF line] d show ?thesis
      by (cases "inet_pton w") (simp_all add: send_cmd_def del: drop_append)
  qed
qed

lemmas more_memory = interfaces_cmd_def routes_cmd_def up_line_def down_line_def

lemma if_keep: "\<lbrakk>(if b then x else y) = r; x = r \<Longrightarrow> x' = r; y = r \<Longrightarrow> y' = r\<rbrakk> \<Longrightarrow> (if b then x' else y') = r"
  by (cases b) simp_all

lemma execute_cmd_more:
  assumes "execute_cmd env cmd mem n = Inr r"
  shows "execute_cmd env cmd (mem @ junk) n = Inr r"
proof -
  have c: "bindE (bindE (cstr (mem @ junk)) f) g = Inr x" if "bindE (bindE (cstr mem) f) g = Inr x"
    for f :: "string \<Rightarrow> fault + node" and g :: "node \<Rightarrow> fault + bool \<times> node" and x
    using that unfolding bindE_assoc by (rule bind_cstr_more)
  have s: "bindE (send_cmd (mem @ junk) n) g = Inr x" if "bindE (send_cmd mem n) g = Inr x"
    for g :: "node \<Rightarrow> fault + bool \<times> node" and x
    using that by (cases "send_cmd mem n") (simp_all add: send_cmd_more)
  show ?thesis
    using assms unfolding execute_cmd_def more_memory by (elim if_keep) (assumption | erule c | erule s)+
qed

section \<open>Lines typed\<close>

definition typed :: "string \<Rightarrow> bool" where
  "typed l \<longleftrightarrow> LF \<notin> set l \<and> NUL \<notin> set l \<and> length l < LINE_MAX - 1"

lemma fgets_chars_line: "LF \<notin> set l \<Longrightarrow> length l < k \<Longrightarrow> fgets_chars k (l @ LF # s) = (l @ [LF], s)"
proof (induction l arbitrary: k)
  case Nil
  then show ?case by (cases k) auto
next
  case (Cons c l)
  then show ?case by (cases k) auto
qed

lemma fgets_line: "typed l \<Longrightarrow> fgets LINE_MAX (l @ LF # s) = Some (l @ [LF], s)"
  by (simp add: fgets_def typed_def fgets_chars_line)

lemma strip_line:
  assumes "typed l"
  shows "\<exists>junk. strip_newline (store_line (l @ [LF]) buf) = Inr ((l @ [NUL]) @ NUL # junk)"
proof -
  have "cstr ((l @ [LF]) @ NUL # drop (Suc (length (l @ [LF]))) buf) = Inr (l @ [LF])"
    by (rule cstr_terminated) (use assms in \<open>simp add: typed_def LF_def NUL_def\<close>)
  then show ?thesis by (simp add: strip_newline_def store_line_def nth_append list_update_append)
qed

lemma main_fgets_line:
  assumes "typed l"
  obtains junk where "main_fgets env t (l @ LF # s) buf n =
    (case scan_word l of
       None \<Rightarrow> main_fgets env (Suc t) s ((l @ [NUL]) @ NUL # junk) n
     | Some (w, r) \<Rightarrow> bindE (fits LINE_MAX w) (\<lambda>cmd.
         if cmd = ''q'' then Inr n
         else bindE (execute_cmd (env t) cmd ((l @ [NUL]) @ NUL # junk) n) (\<lambda>(append_hist, n').
           main_fgets env (Suc t) s ((l @ [NUL]) @ NUL # junk) n')))"
proof -
  from strip_line [OF assms] obtain junk where m: "strip_newline (store_line (l @ [LF]) buf) = Inr ((l @ [NUL]) @ NUL # junk)" by blast
  have "cstr ((l @ [NUL]) @ NUL # junk) = Inr l" using assms by (simp add: typed_def)
  with m show ?thesis
    by (intro that [of junk]) (simp only: main_fgets.simps [of env t "l @ LF # s"] fgets_line [OF assms] option.case prod.case bindE_simps)
qed

lemma main_fgets_refines:
  assumes "\<forall>l \<in> set lines. typed l" and "main_loop env t lines n hist = Inr (n', hist')"
  shows "main_fgets env t (concat (map (\<lambda>l. l @ [LF]) lines)) buf n = Inr n'"
  using assms
proof (induction lines arbitrary: t n hist buf)
  case Nil
  then show ?case by (simp add: main_fgets.simps [of _ _ "[]"] fgets_def)
next
  case (Cons l lines)
  have l: "typed l" and ls: "\<forall>l \<in> set lines. typed l" using Cons.prems(1) by simp_all
  obtain junk where m: "main_fgets env t (l @ LF # concat (map (\<lambda>l. l @ [LF]) lines)) buf n =
    (case scan_word l of
       None \<Rightarrow> main_fgets env (Suc t) (concat (map (\<lambda>l. l @ [LF]) lines)) ((l @ [NUL]) @ NUL # junk) n
     | Some (w, r) \<Rightarrow> bindE (fits LINE_MAX w) (\<lambda>cmd.
         if cmd = ''q'' then Inr n
         else bindE (execute_cmd (env t) cmd ((l @ [NUL]) @ NUL # junk) n) (\<lambda>(append_hist, n').
           main_fgets env (Suc t) (concat (map (\<lambda>l. l @ [LF]) lines)) ((l @ [NUL]) @ NUL # junk) n')))"
    by (rule main_fgets_line [OF l])
  show ?case
  proof (cases "scan_word l")
    case None
    with Cons.prems(2) have "main_loop env (Suc t) lines n hist = Inr (n', hist')" by simp
    from Cons.IH [OF ls this] None m show ?thesis by simp
  next
    case (Some wr)
    obtain w r where wr: "wr = (w, r)" by fastforce
    with Some Cons.prems(2) obtain cmd where c: "fits LINE_MAX w = Inr cmd" by auto
    show ?thesis
    proof (cases "cmd = ''q''")
      case True
      with Some wr c Cons.prems(2) m show ?thesis by simp
    next
      case False
      with Some wr c Cons.prems(2) obtain h n1 where e: "execute_cmd (env t) cmd (l @ [NUL]) n = Inr (h, n1)"
        and rest: "main_loop env (Suc t) lines n1 (if h then hist @ [l] else hist) = Inr (n', hist')" by auto
      from execute_cmd_more [OF e, of "NUL # junk"] Cons.IH [OF ls rest] Some wr c False m show ?thesis by simp
    qed
  qed
qed

section \<open>Properties\<close>

lemma typed_send_text: "p < 256 \<Longrightarrow> typed (send_text a p)"
proof -
  assume "p < 256"
  then have "length (decimal p) \<le> 3" using decimal_length by blast
  moreover have "LF \<notin> set (inet_ntop a)" "LF \<notin> set (decimal p)"
    using inet_ntop_chars [of LF a] decimal_digits [of LF p] by auto
  moreover have "NUL \<notin> set (send_text a p)" by (rule send_text_no_NUL)
  ultimately show ?thesis
    using inet_ntop_length [of a] by (auto simp: typed_def send_text_def LF_def LINE_MAX_def INET_ADDRSTRLEN_def)
qed

lemma send_without_payload:
  assumes "p < 256"
  shows "send_cmd (send_text a p @ [NUL]) n = Inl Indeterminate"
    and "send_cmd ((send_text a p @ [NUL]) @ NUL # junk) n = Inr (print Payload_Unspecified n)"
proof -
  have s: "scan_send (send_text a p) = Inr (Some (inet_ntop a, p, length (send_text a p)))"
    using scan_send_text [OF assms, of "[]" a] by simp
  have c: "cstr (send_text a p @ NUL # r) = Inr (send_text a p)" for r by (rule cstr_terminated [OF send_text_no_NUL])
  from s c show "send_cmd (send_text a p @ [NUL]) n = Inl Indeterminate"
    by (simp add: send_cmd_def inet_pton_ntop cstr_def)
  from s c show "send_cmd ((send_text a p @ [NUL]) @ NUL # junk) n = Inr (print Payload_Unspecified n)"
    by (simp add: send_cmd_def inet_pton_ntop cstr_def)
qed

text \<open>
  Whatever lines are typed (shorter than the array), when the loop of the \<open>READLINE\<close> build ends without a
  fault, the loop with \<open>fgets\<close> ends in the same node, whatever earlier lines left in the array.  The converse fails for \<open>send\<close> without a
  payload: the \<open>READLINE\<close> build reads behind its line, the other one reports the missing payload, because
  the newline it overwrote leaves a second NUL.
\<close>

theorem fgets_build_agrees:
  assumes "\<forall>l \<in> set lines. typed l" and "p < 256"
  shows "(\<forall>n' hist'. main_loop env t lines n hist = Inr (n', hist')
      \<longrightarrow> main_fgets env t (concat (map (\<lambda>l. l @ [LF]) lines)) buf n = Inr n')
    \<and> main_loop env t [send_text a p] n hist = Inl Indeterminate
    \<and> main_fgets env t (send_text a p @ [LF]) buf n = Inr (print Payload_Unspecified n)"
proof (intro conjI allI impI)
  show "main_fgets env t (concat (map (\<lambda>l. l @ [LF]) lines)) buf n = Inr n'"
    if "main_loop env t lines n hist = Inr (n', hist')" for n' hist'
    by (rule main_fgets_refines [OF assms(1) that])
  have "scan_word (''send'' @ '' '' @ inet_ntop a @ '' '' @ decimal p) = Some (''send'', '' '' @ inet_ntop a @ '' '' @ decimal p)"
    by (rule scan_word_at) (simp_all add: is_space_def ch_code_def)
  then have w: "scan_word (send_text a p) = Some (''send'', '' '' @ inet_ntop a @ '' '' @ decimal p)"
    by (simp add: send_text_def)
  have f: "fits LINE_MAX ''send'' = Inr ''send''" by (simp add: fits_def LINE_MAX_def)
  show "main_loop env t [send_text a p] n hist = Inl Indeterminate"
    using w f send_without_payload(1) [OF assms(2)] by (simp add: execute_cmd_def)
  obtain junk where "main_fgets env t (send_text a p @ LF # []) buf n =
    (case scan_word (send_text a p) of
       None \<Rightarrow> main_fgets env (Suc t) [] ((send_text a p @ [NUL]) @ NUL # junk) n
     | Some (w, r) \<Rightarrow> bindE (fits LINE_MAX w) (\<lambda>cmd.
         if cmd = ''q'' then Inr n
         else bindE (execute_cmd (env t) cmd ((send_text a p @ [NUL]) @ NUL # junk) n) (\<lambda>(append_hist, n').
           main_fgets env (Suc t) [] ((send_text a p @ [NUL]) @ NUL # junk) n')))"
    by (rule main_fgets_line [OF typed_send_text [OF assms(2)]])
  with w f send_without_payload(2) [OF assms(2), of a junk n]
  show "main_fgets env t (send_text a p @ [LF]) buf n = Inr (print Payload_Unspecified n)"
    by (simp add: execute_cmd_def main_fgets.simps [of _ _ "[]"] fgets_def)
qed

theorem fgets_build_agrees_witness:
  "main_fgets (\<lambda>_. (None, at_sec 0)) 0 (concat (map (\<lambda>l. l @ [LF]) [''help'', ''q''])) [] B_node = Inr (print Help_Text B_node)"
proof -
  have w: "scan_word ''q'' = Some (''q'', [])" "scan_word ''help'' = Some (''help'', [])"
    by (simp_all add: scan_word_def is_space_def ch_code_def)
  have t: "\<forall>l \<in> set [''help'', ''q'']. typed l" by (simp add: typed_def LF_def NUL_def LINE_MAX_def)
  have "main_loop (\<lambda>_. (None, at_sec 0)) 0 [''help'', ''q''] B_node [] = Inr (print Help_Text B_node, [''help''])"
    by (simp add: w fits_def LINE_MAX_def execute_cmd_def)
  with fgets_build_agrees [OF t, of 17 "\<lambda>_. (None, at_sec 0)" 0 B_node "[]" "[]"] show ?thesis by simp
qed

end
