(* ===== verification/Layer_Ifc.thy ===== *)
theory Layer_Ifc
  imports Commands
begin

text \<open>
  \<open>src/LayerIfc.hh\<close>: the base class through whose pointers the layers call each other.  Its virtual functions
  print that they are not implemented; \<open>NetworkLayer\<close> and \<open>RipLayer\<close> each override some.  Which function runs
  depends on the class of the object the pointer holds.
\<close>

section \<open>Virtual functions\<close>

text \<open>A call with its arguments; the reference parameter of \<open>get_next_address\<close> comes with its old value.\<close>

datatype virtual_call =
    Print_Route_Table
  | Transfer_Application_To_Ip u32 u8 "byte list" nat
  | Transfer_Rip_To_Ip int "byte list" nat
  | Transfer_Ip_To_Rip "byte list" u32
  | Transfer_Link_To_Ip "byte list" nat u32
  | Get_Next_Address u32 u32
  | Add_Ifc_Entry u32
  | Remove_Ifc_Entry u32

text \<open>The functions of the base class: the text each prints.\<close>

fun base_text :: "virtual_call \<Rightarrow> string" where
  "base_text Print_Route_Table = ''base implementation for print_route_table''"
| "base_text (Transfer_Application_To_Ip dest proto data sz) = ''no implementation for transfer_application_to_ip ''"
| "base_text (Transfer_Rip_To_Ip ifid data sz) = ''no implementation for transfer_rip_to_ip''"
| "base_text (Transfer_Ip_To_Rip data nxt) = ''no implementation for transfer_ip_to_rip''"
| "base_text (Transfer_Link_To_Ip data len nxt) = ''no implementation for transfer_link_to_ip ''"
| "base_text (Get_Next_Address d old) = ''no implementation for get_next_address ''"
| "base_text (Add_Ifc_Entry a) = ''no implementation for add_ifc_entry ''"
| "base_text (Remove_Ifc_Entry a) = ''no implementation for remove_ifc_entry ''"

text \<open>The value of the reference parameter when nothing writes it.\<close>

fun unwritten :: "virtual_call \<Rightarrow> u32" where
  "unwritten (Get_Next_Address d old) = old"
| "unwritten c = 0"

definition base_call :: "virtual_call \<Rightarrow> node \<Rightarrow> fault + node \<times> u32" where
  "base_call c n = Inr (print (Base_Message (base_text c)) n, unwritten c)"

section \<open>Dispatch\<close>

datatype layer_class = Network_Object | Rip_Object

text \<open>The result: the node and the reference parameter; \<open>clock\<close> are the answers of \<open>gettimeofday\<close>.\<close>

fun layer_call :: "(nat \<Rightarrow> timeval) \<Rightarrow> layer_class \<Rightarrow> virtual_call \<Rightarrow> node \<Rightarrow> fault + node \<times> u32" where
  "layer_call clock Network_Object (Transfer_Application_To_Ip dest proto data sz) n =
     bindE (transfer_application_to_ip dest proto data sz n) (\<lambda>n. Inr (n, 0))"
| "layer_call clock Network_Object (Transfer_Rip_To_Ip ifid data sz) n =
     bindE (transfer_rip_to_ip ifid data sz n) (\<lambda>n. Inr (n, 0))"
| "layer_call clock Network_Object (Transfer_Link_To_Ip data len nxt) n =
     bindE (transfer_link_to_ip data len nxt n) (\<lambda>n. Inr (n, 0))"
| "layer_call clock Rip_Object (Transfer_Ip_To_Rip data nxt) n =
     bindE (transfer_ip_to_rip clock data nxt n) (\<lambda>n. Inr (n, 0))"
| "layer_call clock Rip_Object Print_Route_Table n = Inr (print_route_table n, 0)"
| "layer_call clock Rip_Object (Get_Next_Address d old) n = Inr (n, get_next_address (rtable n) d old)"
| "layer_call clock Rip_Object (Add_Ifc_Entry a) n = Inr (add_ifc_entry (clock 0) a n, 0)"
| "layer_call clock Rip_Object (Remove_Ifc_Entry a) n = bindE (remove_ifc_entry a n) (\<lambda>n. Inr (n, 0))"
| "layer_call clock obj c n = base_call c n"

section \<open>The calls of the program\<close>

text \<open>A call on an object of the other class prints one line, whatever its arguments, and changes nothing else.\<close>

fun overrides :: "layer_class \<Rightarrow> virtual_call \<Rightarrow> bool" where
  "overrides Network_Object (Transfer_Application_To_Ip dest proto data sz) = True"
| "overrides Network_Object (Transfer_Rip_To_Ip ifid data sz) = True"
| "overrides Network_Object (Transfer_Link_To_Ip data len nxt) = True"
| "overrides Network_Object c = False"
| "overrides Rip_Object (Transfer_Application_To_Ip dest proto data sz) = False"
| "overrides Rip_Object (Transfer_Rip_To_Ip ifid data sz) = False"
| "overrides Rip_Object (Transfer_Link_To_Ip data len nxt) = False"
| "overrides Rip_Object c = True"

lemma layer_call_base: "\<not> overrides obj c \<Longrightarrow> layer_call clock obj c n = base_call c n"
  by (cases obj; cases c) simp_all

lemma one_class_overrides: "overrides Network_Object c \<longleftrightarrow> \<not> overrides Rip_Object c"
  by (cases c) simp_all

text \<open>The call sites: each reaches the overriding function.\<close>

lemma recv_data_call:
  "recv_data rs n =
     bindE (recv_loop rs [] 0 0 None) (\<lambda>res.
       case res of
         None \<Rightarrow> Inr None
       | Some (buf, totalbytes, port, rs') \<Rightarrow>
           (case port of
              None \<Rightarrow> Inl Indeterminate
            | Some p \<Rightarrow>
                bindE (interface_at (interfaces n) (get_interfaceid_with_port (interfaces n) p)) (\<lambda>l.
                  if totalbytes < 0 then Inl Out_Of_Bounds
                  else bindE (layer_call clock Network_Object (Transfer_Link_To_Ip buf (nat totalbytes) (vip_local l)) n)
                    (\<lambda>(n', _). Inr (Some (n', rs'))))))"
proof -
  have e: "bindE (bindE m (\<lambda>n. Inr (n, 0 :: u32))) (\<lambda>(n', _). Inr (Some (n', r))) = bindE m (\<lambda>n'. Inr (Some (n', r)))"
    for m :: "fault + node" and r :: "recv_result list"
    by (cases m) simp_all
  show ?thesis by (simp only: recv_data_def layer_call.simps e)
qed

lemma transfer_application_call:
  "transfer_application_to_ip dest proto data datasz n =
     bindE (layer_call clock Rip_Object (Get_Next_Address (ntohl dest) DEFAULT_ADDR) n) (\<lambda>(n, next_addr).
       case get_interface (interfaces n) next_addr of
         None \<Rightarrow> Inr (print Destination_Unreachable n)
       | Some i \<Rightarrow>
           bindE (build_ip_packet (vip_local (interfaces n ! i)) (ntohl dest) proto data datasz) (\<lambda>pkt.
             Inr (n\<lparr>incomingqueue := incomingqueue n
                    @ [\<lparr>ifc = i, msize = unat MIN_HDR_LEN * 4 + datasz, ippacket = pkt\<rparr>]\<rparr>)))"
  by (simp add: transfer_application_to_ip_def Let_def)

lemma down_cmd_call:
  "down_cmd interface n =
     bindE (interface_at (interfaces n) (int interface)) (\<lambda>l.
       let (msgs, l') = link_down l
       in bindE (layer_call clock Rip_Object (Remove_Ifc_Entry (vip_local l)) (set_link interface l' (prints msgs n)))
            (\<lambda>(n, _). Inr n))"
proof -
  have e: "bindE (bindE m (\<lambda>n. Inr (n, 0 :: u32))) (\<lambda>(n, _). Inr n) = m" for m :: "fault + node"
    by (cases m) simp_all
  show ?thesis by (simp only: down_cmd_def layer_call.simps e)
qed

end
