(* ===== verification/Table_Race.thy ===== *)
theory Table_Race
  imports Rip_Table
begin

text \<open>
  The routing table at the grain of its accesses (\<open>src/RipLayer.cc\<close>): the thread of \<open>update_refresh_rt\<close>, the
  thread of \<open>process_out_queue\<close> and the command thread use \<open>_rtable\<close> at the same time.  \<open>_rlock\<close> is held only
  around single assignments and erasures; iterators and lookups take no lock.  An element of the map is a node
  with an identity, because an erased node is gone even when its key comes back; an iterator names a node.  A step
  is one call on the map, taken as atomic; which steps are data races, so that the language does not give them this
  atomic meaning, is stated beside.
\<close>

section \<open>The map as nodes\<close>

record shared =
  cells :: "(u32, nat \<times> entry_wts) std_map"
  next_node :: nat
  rlock :: "nat option"

datatype iter = End_Iter | Node_Iter u32 nat

fun iter_of :: "(u32 \<times> nat \<times> entry_wts) list \<Rightarrow> iter" where
  "iter_of [] = End_Iter"
| "iter_of ((k, i, w) # rest) = Node_Iter k i"

text \<open>\<open>*itr\<close> and \<open>++itr\<close>; an iterator whose node has been erased dangles.\<close>

fun read_iter :: "iter \<Rightarrow> shared \<Rightarrow> fault + u32 \<times> entry_wts" where
  "read_iter End_Iter s = Inl Out_Of_Bounds"
| "read_iter (Node_Iter k i) s =
     (case map_find (cells s) k of
        None \<Rightarrow> Inl Dangling
      | Some (j, w) \<Rightarrow> if j = i then Inr (k, w) else Inl Dangling)"

definition succ_iter :: "iter \<Rightarrow> shared \<Rightarrow> fault + iter" where
  "succ_iter it s = bindE (read_iter it s) (\<lambda>(k, w). Inr (iter_of (filter (\<lambda>(k', c). k < k') (cells s))))"

text \<open>\<open>_rtable[k] = w\<close>: an existing node keeps its identity.\<close>

definition store :: "u32 \<Rightarrow> entry_wts \<Rightarrow> shared \<Rightarrow> shared" where
  "store k w s =
     (case map_find (cells s) k of
        None \<Rightarrow> s\<lparr>cells := map_assign k (next_node s, w) (cells s), next_node := next_node s + 1\<rparr>
      | Some (i, old) \<Rightarrow> s\<lparr>cells := map_assign k (i, w) (cells s)\<rparr>)"

text \<open>The value that \<open>_rtable[k]\<close> creates when there is no node.\<close>

definition zero_route :: entry_wts where
  "zero_route = \<lparr>ent = \<lparr>cost = 0, address = 0, emask = 0\<rparr>, next_hop = 0, tstamp = \<lparr>tv_sec = 0, tv_usec = 0\<rparr>\<rparr>"

section \<open>The operations, one access at a time\<close>

text \<open>The two loops that erase, and which elements they erase.\<close>

datatype sweep = Refresh timeval | Remove u32

fun swept :: "link list \<Rightarrow> sweep \<Rightarrow> u32 \<Rightarrow> entry_wts \<Rightarrow> bool" where
  "swept ifs (Refresh now) k w = (\<not> is_my_interface ifs k \<and> expired now (tstamp w))"
| "swept ifs (Remove gone) k w = (next_hop w = gone \<or> k = gone)"

text \<open>
  Where a thread is.  \<open>Scan\<close> is a loop that only reads (\<open>prepare_msg_ifc\<close>, \<open>get_next_address\<close>,
  \<open>print_route_table\<close>) and collects the elements; \<open>Sweep\<close> a loop that erases (\<open>refresh_route_table\<close>,
  \<open>remove_ifc_entry\<close>); \<open>Upd\<close> is \<open>update_route_table\<close> with the next hop, the number of entries done and the entries
  to do, and the locked assignment of \<open>add_ifc_entry\<close>.  \<open>prepare_msg_ifc\<close> first reads \<open>_rtable.size()\<close> for the
  header (\<open>Adv_Size\<close>) and scans then, with the count it wrote; \<open>Adv n (Done rows)\<close> is the message built.
\<close>

datatype rt_pc =
    Done "(u32 \<times> entry_wts) list"
  | Scan_Begin | Scan_Test iter "(u32 \<times> entry_wts) list" | Scan_Next iter "(u32 \<times> entry_wts) list"
  | Sweep_Begin sweep | Sweep_Test sweep iter | Sweep_Read sweep iter iter | Sweep_Lock sweep iter iter
  | Sweep_Erase sweep iter iter | Sweep_Unlock sweep iter
  | Upd_Find u32 nat "entry list" | Upd_Read u32 nat entry "entry list" | Upd_Lock u32 entry_wts u32 nat "entry list"
  | Upd_Store u32 entry_wts u32 nat "entry list" | Upd_Unlock u32 nat "entry list"
  | Adv_Size | Adv nat rt_pc

fun finished :: "rt_pc \<Rightarrow> bool" where
  "finished (Done rows) = True"
| "finished p = False"

definition new_route :: "timeval \<Rightarrow> u32 \<Rightarrow> entry \<Rightarrow> entry_wts" where
  "new_route now nxt e = \<lparr>ent = \<lparr>cost = ntohl (cost e) + 1, address = ntohl (address e), emask = ntohl (emask e)\<rparr>,
     next_hop = nxt, tstamp = now\<rparr>"

definition better_route :: "timeval \<Rightarrow> u32 \<Rightarrow> entry \<Rightarrow> entry_wts \<Rightarrow> entry_wts" where
  "better_route now nxt e ets = ets\<lparr>tstamp := now,
     ent := (ent ets)\<lparr>cost := ntohl (cost e) + 1, address := ntohl (address e), emask := ntohl (emask e)\<rparr>, next_hop := nxt\<rparr>"

text \<open>The next access of thread \<open>t\<close>: \<open>None\<close> when it has nothing to do or waits for the mutex.\<close>

fun rt_access :: "link list \<Rightarrow> (nat \<Rightarrow> timeval) \<Rightarrow> nat \<Rightarrow> rt_pc \<Rightarrow> shared \<Rightarrow> (fault + rt_pc \<times> shared) option" where
  "rt_access ifs clock t (Done rows) s = None"
| "rt_access ifs clock t Scan_Begin s = Some (Inr (Scan_Test (iter_of (cells s)) [], s))"
| "rt_access ifs clock t (Scan_Test it rows) s =
     Some (if it = End_Iter then Inr (Done rows, s)
           else bindE (read_iter it s) (\<lambda>row. Inr (Scan_Next it (rows @ [row]), s)))"
| "rt_access ifs clock t (Scan_Next it rows) s = Some (bindE (succ_iter it s) (\<lambda>nxt. Inr (Scan_Test nxt rows, s)))"
| "rt_access ifs clock t (Sweep_Begin sw) s = Some (Inr (Sweep_Test sw (iter_of (cells s)), s))"
| "rt_access ifs clock t (Sweep_Test sw it) s =
     Some (if it = End_Iter then Inr (Done [], s)
           else bindE (succ_iter it s) (\<lambda>nxt. Inr (Sweep_Read sw it nxt, s)))"
| "rt_access ifs clock t (Sweep_Read sw it nxt) s =
     Some (bindE (read_iter it s) (\<lambda>(k, w).
       Inr (if swept ifs sw k w then Sweep_Lock sw it nxt else Sweep_Test sw nxt, s)))"
| "rt_access ifs clock t (Sweep_Lock sw it nxt) s =
     (if rlock s = None then Some (Inr (Sweep_Erase sw it nxt, s\<lparr>rlock := Some t\<rparr>)) else None)"
| "rt_access ifs clock t (Sweep_Erase sw it nxt) s =
     Some (bindE (read_iter it s) (\<lambda>(k, w). Inr (Sweep_Unlock sw nxt, s\<lparr>cells := map_erase k (cells s)\<rparr>)))"
| "rt_access ifs clock t (Sweep_Unlock sw nxt) s = Some (Inr (Sweep_Test sw nxt, s\<lparr>rlock := None\<rparr>))"
| "rt_access ifs clock t (Upd_Find hop i []) s = Some (Inr (Done [], s))"
| "rt_access ifs clock t (Upd_Find hop i (e # es)) s =
     Some (Inr (if is_my_interface ifs (ntohl (address e)) \<or> ntohl (cost e) = RIP_MAX_COST then Upd_Find hop (Suc i) es
       else case map_find (cells s) (ntohl (address e)) of
         None \<Rightarrow> Upd_Lock (ntohl (address e)) (new_route (clock i) hop e) hop (Suc i) es
       | Some c \<Rightarrow> Upd_Read hop i e es, s))"
| "rt_access ifs clock t (Upd_Read hop i e es) s =
     (let k = ntohl (address e);
          s = (if map_find (cells s) k = None then store k zero_route s else s)
      in Some (case map_find (cells s) k of
           None \<Rightarrow> Inl Dangling
         | Some (j, ets) \<Rightarrow>
             Inr (if cost (ent ets) > ntohl (cost e) + 1 then Upd_Lock k (better_route (clock i) hop e ets) hop (Suc i) es
                  else Upd_Find hop (Suc i) es, s)))"
| "rt_access ifs clock t (Upd_Lock k ets hop i es) s =
     (if rlock s = None then Some (Inr (Upd_Store k ets hop i es, s\<lparr>rlock := Some t\<rparr>)) else None)"
| "rt_access ifs clock t (Upd_Store k ets hop i es) s = Some (Inr (Upd_Unlock hop i es, store k ets s))"
| "rt_access ifs clock t (Upd_Unlock hop i es) s = Some (Inr (Upd_Find hop i es, s\<lparr>rlock := None\<rparr>))"
| "rt_access ifs clock t Adv_Size s = Some (Inr (Adv (length (cells s)) Scan_Begin, s))"
| "rt_access ifs clock t (Adv n p) s =
     (if finished p then Some (Inr (p, s))
      else map_option (\<lambda>r. bindE r (\<lambda>(p', s'). Inr (Adv n p', s'))) (rt_access ifs clock t p s))"


record rt_race =
  shm :: shared
  pcs :: "nat \<Rightarrow> rt_pc"


definition node_list :: "rtable \<Rightarrow> (u32, nat \<times> entry_wts) std_map" where
  "node_list rt = map (\<lambda>(i, (k, w)). (k, i, w)) (zip [0..<length rt] rt)"

definition race_start :: "rtable \<Rightarrow> rt_race" where
  "race_start rt = \<lparr>shm = \<lparr>cells = node_list rt, next_node = length rt, rlock = None\<rparr>, pcs = (\<lambda>t. Done [])\<rparr>"





section \<open>The plain table\<close>

definition table :: "shared \<Rightarrow> rtable" where
  "table s = map (\<lambda>(k, i, w). (k, w)) (cells s)"

lemma map_fst_table [simp]: "map fst (table s) = map fst (cells s)"
  by (simp add: table_def case_prod_unfold)

lemma map_invar_table [simp]: "map_invar (table s) = map_invar (cells s)"
  by (simp add: map_invar_def)

lemma table_find: "map_find (table s) k = map_option snd (map_find (cells s) k)"
proof -
  have "map_find (map (\<lambda>(k, i, w). (k, w)) m) k = map_option snd (map_find m k)" for m :: "(u32, nat \<times> entry_wts) std_map"
    by (induction m) auto
  then show ?thesis by (simp add: table_def)
qed

lemma table_store: "table (store k w s) = map_assign k w (table s)"
proof -
  have "map (\<lambda>(k, i, w). (k, w)) (map_assign k (i, w) m) = map_assign k w (map (\<lambda>(k, i, w). (k, w)) m)"
    for i and m :: "(u32, nat \<times> entry_wts) std_map"
    by (induction m) auto
  then show ?thesis by (auto simp: table_def store_def split: option.split)
qed

lemma table_lock [simp]: "table (s\<lparr>rlock := l\<rparr>) = table s" "cells (store k w (s\<lparr>rlock := l\<rparr>)) = cells (store k w s)"
  by (simp_all add: table_def store_def split: option.split)

lemma store_lock [simp]: "rlock (store k w s) = rlock s"
  by (simp add: store_def split: option.split)

lemma store_invar: "map_invar (cells s) \<Longrightarrow> map_invar (cells (store k w s))"
  by (simp add: store_def map_invar_assign split: option.split)

text \<open>Iterators at a position of the map.\<close>

lemma read_at:
  assumes "map_invar (as @ (k, i, w) # bs)" and "cells s = as @ (k, i, w) # bs"
  shows "read_iter (Node_Iter k i) s = Inr (k, w)"
proof -
  have "map_find (cells s) k = Some (i, w)" using map_find_in [OF assms(1), of k "(i, w)"] assms(2) by simp
  then show ?thesis by simp
qed

lemma succ_at:
  assumes "map_invar (as @ (k, i, w) # bs)" and "cells s = as @ (k, i, w) # bs"
  shows "succ_iter (Node_Iter k i) s = Inr (iter_of bs)"
proof -
  have "sorted (map fst as @ k # map fst bs)" "distinct (map fst as @ k # map fst bs)"
    using assms(1) by (simp_all add: map_invar_def)
  then have "filter (\<lambda>(k', c). k < k') as = []" "filter (\<lambda>(k', c). k < k') bs = bs"
    by (auto simp: sorted_append filter_empty_conv filter_id_conv less_le image_iff)
  with read_at [OF assms] assms(2) show ?thesis by (simp add: succ_iter_def)
qed

section \<open>A thread alone\<close>

text \<open>Steps of one thread while the others do nothing.\<close>

definition alone :: "link list \<Rightarrow> (nat \<Rightarrow> timeval) \<Rightarrow> nat \<Rightarrow> rt_pc \<times> shared \<Rightarrow> rt_pc \<times> shared \<Rightarrow> bool" where
  "alone ifs clock t x y \<longleftrightarrow> rt_access ifs clock t (fst x) (snd x) = Some (Inr y)"

lemma alone_step: "rt_access ifs clock t p s = Some (Inr y) \<Longrightarrow> (alone ifs clock t)\<^sup>*\<^sup>* y z \<Longrightarrow> (alone ifs clock t)\<^sup>*\<^sup>* (p, s) z"
  by (rule converse_rtranclp_into_rtranclp) (simp_all add: alone_def)

lemma scan_alone:
  assumes "map_invar (as @ bs)" and "cells s = as @ bs"
  shows "(alone ifs clock t)\<^sup>*\<^sup>* (Scan_Test (iter_of bs) rows, s) (Done (rows @ map (\<lambda>(k, i, w). (k, w)) bs), s)"
  using assms
proof (induction bs arbitrary: as rows)
  case Nil
  show ?case by (rule alone_step, simp) simp
next
  case (Cons c bs)
  obtain k i w where c: "c = (k, i, w)" by (cases c)
  note at = Cons.prems [unfolded c]
  have "(alone ifs clock t)\<^sup>*\<^sup>* (Scan_Test (iter_of bs) (rows @ [(k, w)]), s)
      (Done ((rows @ [(k, w)]) @ map (\<lambda>(k, i, w). (k, w)) bs), s)"
    by (rule Cons.IH [of "as @ [(k, i, w)]"]) (use at in simp_all)
  then have "(alone ifs clock t)\<^sup>*\<^sup>* (Scan_Next (Node_Iter k i) (rows @ [(k, w)]), s)
      (Done (rows @ (k, w) # map (\<lambda>(k, i, w). (k, w)) bs), s)"
    by (intro alone_step) (simp_all add: succ_at [OF at])
  with read_at [OF at] show ?case by (intro alone_step) (simp_all add: c del: read_iter.simps)
qed

lemma advertise_alone:
  assumes "(alone ifs clock t)\<^sup>*\<^sup>* (p, s) (p', s')"
  shows "(alone ifs clock t)\<^sup>*\<^sup>* (Adv n p, s) (Adv n p', s')"
  using assms
proof (induction "(p, s)" "(p', s')" arbitrary: p' s' rule: rtranclp.induct)
  case (rtrancl_into_rtrancl y)
  obtain p1 s1 where y: "y = (p1, s1)" by (cases y)
  have a: "rt_access ifs clock t p1 s1 = Some (Inr (p', s'))" using rtrancl_into_rtrancl(3) by (simp add: alone_def y)
  then have "\<not> finished p1" by (cases p1) auto
  with a have "alone ifs clock t (Adv n p1, s1) (Adv n p', s')" by (simp add: alone_def)
  with rtrancl_into_rtrancl(2) [OF y] show ?case by (rule rtranclp.rtrancl_into_rtrancl)
qed simp

lemma erase_at: "map_invar (as @ (k, c) # bs) \<Longrightarrow> map_erase k (as @ (k, c) # bs) = as @ bs"
  by (induction as) (auto simp: map_invar_Cons)

lemma sweep_alone:
  assumes "map_invar (as @ bs)" and "cells s = as @ bs" and "rlock s = None"
  shows "(alone ifs clock t)\<^sup>*\<^sup>* (Sweep_Test sw (iter_of bs), s)
    (Done [], s\<lparr>cells := as @ filter (\<lambda>(k, i, w). \<not> swept ifs sw k w) bs\<rparr>)"
  using assms
proof (induction bs arbitrary: as s)
  case Nil
  then have "s\<lparr>cells := as\<rparr> = s" by simp
  moreover have "(alone ifs clock t)\<^sup>*\<^sup>* (Sweep_Test sw End_Iter, s) (Done [], s)"
    by (rule alone_step, simp) simp
  ultimately show ?case by simp
next
  case (Cons c bs)
  obtain k i w where c: "c = (k, i, w)" by (cases c)
  note at = Cons.prems(1,2) [unfolded c]
  note first = succ_at [OF at] read_at [OF at]
  show ?case
  proof (cases "swept ifs sw k w")
    case False
    have "(alone ifs clock t)\<^sup>*\<^sup>* (Sweep_Test sw (iter_of bs), s)
      (Done [], s\<lparr>cells := (as @ [(k, i, w)]) @ filter (\<lambda>(k, i, w). \<not> swept ifs sw k w) bs\<rparr>)"
      by (rule Cons.IH) (use at Cons.prems(3) in simp_all)
    then have "(alone ifs clock t)\<^sup>*\<^sup>* (Sweep_Read sw (Node_Iter k i) (iter_of bs), s)
      (Done [], s\<lparr>cells := (as @ [(k, i, w)]) @ filter (\<lambda>(k, i, w). \<not> swept ifs sw k w) bs\<rparr>)"
      by (intro alone_step) (simp_all add: first False del: read_iter.simps)
    with first False show ?thesis by (intro alone_step) (simp_all add: c del: read_iter.simps)
  next
    case True
    let ?s = "s\<lparr>cells := as @ bs\<rparr>"
    have e: "map_erase k (cells s) = as @ bs" using erase_at [OF at(1)] at(2) by simp
    have r: "read_iter (Node_Iter k i) (s\<lparr>rlock := Some t\<rparr>) = Inr (k, w)"
      by (rule read_at [OF at(1)]) (simp add: at(2))
    have "map_invar (as @ bs)" using at(1) by (auto simp: map_invar_def sorted_append)
    then have "(alone ifs clock t)\<^sup>*\<^sup>* (Sweep_Test sw (iter_of bs), ?s)
      (Done [], ?s\<lparr>cells := as @ filter (\<lambda>(k, i, w). \<not> swept ifs sw k w) bs\<rparr>)"
      by (intro Cons.IH) (simp_all add: Cons.prems(3))
    then have "(alone ifs clock t)\<^sup>*\<^sup>* (Sweep_Unlock sw (iter_of bs), ?s\<lparr>rlock := Some t\<rparr>)
      (Done [], s\<lparr>cells := as @ filter (\<lambda>(k, i, w). \<not> swept ifs sw k w) bs\<rparr>)"
      using Cons.prems(3) by (intro alone_step) simp_all
    then have "(alone ifs clock t)\<^sup>*\<^sup>* (Sweep_Erase sw (Node_Iter k i) (iter_of bs), s\<lparr>rlock := Some t\<rparr>)
      (Done [], s\<lparr>cells := as @ filter (\<lambda>(k, i, w). \<not> swept ifs sw k w) bs\<rparr>)"
      by (intro alone_step) (simp_all add: r e del: read_iter.simps)
    then have "(alone ifs clock t)\<^sup>*\<^sup>* (Sweep_Lock sw (Node_Iter k i) (iter_of bs), s)
      (Done [], s\<lparr>cells := as @ filter (\<lambda>(k, i, w). \<not> swept ifs sw k w) bs\<rparr>)"
      using Cons.prems(3) by (intro alone_step) simp_all
    then have "(alone ifs clock t)\<^sup>*\<^sup>* (Sweep_Read sw (Node_Iter k i) (iter_of bs), s)
      (Done [], s\<lparr>cells := as @ filter (\<lambda>(k, i, w). \<not> swept ifs sw k w) bs\<rparr>)"
      by (intro alone_step) (simp_all add: first True del: read_iter.simps)
    with first True show ?thesis by (intro alone_step) (simp_all add: c del: read_iter.simps)
  qed
qed

lemma store_unlocked: "rlock s = None \<Longrightarrow> (store k w (s\<lparr>rlock := l\<rparr>))\<lparr>rlock := None\<rparr> = store k w s"
  by (simp add: store_def split: option.split)

lemma locked_store_alone:
  assumes "rlock s = None"
  shows "(alone ifs clock t)\<^sup>*\<^sup>* (Upd_Lock k w hop i es, s) (Upd_Find hop i es, store k w s)"
proof -
  let ?s = "s\<lparr>rlock := Some t\<rparr>"
  have "(alone ifs clock t)\<^sup>*\<^sup>* (Upd_Unlock hop i es, store k w ?s) (Upd_Find hop i es, store k w s)"
    by (rule alone_step, simp) (simp add: store_unlocked assms)
  then have "(alone ifs clock t)\<^sup>*\<^sup>* (Upd_Store k w hop i es, ?s) (Upd_Find hop i es, store k w s)"
    by (intro alone_step) simp_all
  with assms show ?thesis by (intro alone_step) simp_all
qed

lemma update_entry_alone:
  assumes "map_invar (cells s)" and "rlock s = None"
  shows "\<exists>s'. (alone ifs clock t)\<^sup>*\<^sup>* (Upd_Find hop i (e # es), s) (Upd_Find hop (Suc i) es, s')
    \<and> table s' = update_entry (clock i) hop ifs e (table s) \<and> map_invar (cells s') \<and> rlock s' = None"
proof -
  let ?k = "ntohl (address e)" and ?c = "ntohl (cost e)"
  note u = update_entry_def Let_def table_find
  consider "is_my_interface ifs ?k \<or> ?c = RIP_MAX_COST"
    | "\<not> is_my_interface ifs ?k" "?c \<noteq> RIP_MAX_COST" "map_find (cells s) ?k = None"
    | j ets where "\<not> is_my_interface ifs ?k" "?c \<noteq> RIP_MAX_COST" "map_find (cells s) ?k = Some (j, ets)"
    by (metis option.exhaust surj_pair)
  then show ?thesis
  proof cases
    case 1
    then have "(alone ifs clock t)\<^sup>*\<^sup>* (Upd_Find hop i (e # es), s) (Upd_Find hop (Suc i) es, s)"
      by (intro alone_step [of _ _ _ "Upd_Find hop i (e # es)" s "(Upd_Find hop (Suc i) es, s)"]) auto
    with 1 assms show ?thesis by (intro exI [of _ s]) (auto simp: u)
  next
    case 2
    let ?w = "new_route (clock i) hop e"
    have "rt_access ifs clock t (Upd_Find hop i (e # es)) s = Some (Inr (Upd_Lock ?k ?w hop (Suc i) es, s))"
      using 2 by simp
    from alone_step [OF this locked_store_alone [OF assms(2)]] 2 assms show ?thesis
      by (intro exI [of _ "store ?k ?w s"]) (auto simp: u table_store store_invar new_route_def)
  next
    case (3 j ets)
    have f: "rt_access ifs clock t (Upd_Find hop i (e # es)) s = Some (Inr (Upd_Read hop i e es, s))"
      using 3 by simp
    show ?thesis
    proof (cases "cost (ent ets) > ?c + 1")
      case True
      let ?w = "better_route (clock i) hop e ets"
      have "rt_access ifs clock t (Upd_Read hop i e es) s = Some (Inr (Upd_Lock ?k ?w hop (Suc i) es, s))"
        using 3 True by simp
      from alone_step [OF f alone_step [OF this locked_store_alone [OF assms(2)]]] 3 True assms show ?thesis
        by (intro exI [of _ "store ?k ?w s"]) (auto simp: u table_store store_invar better_route_def)
    next
      case False
      then have "rt_access ifs clock t (Upd_Read hop i e es) s = Some (Inr (Upd_Find hop (Suc i) es, s))"
        using 3 by simp
      from alone_step [OF f alone_step [OF this rtranclp.rtrancl_refl]] 3 False assms show ?thesis
        by (intro exI [of _ s]) (auto simp: u)
    qed
  qed
qed

lemma update_alone:
  assumes "map_invar (cells s)" and "rlock s = None"
  shows "\<exists>s'. (alone ifs clock t)\<^sup>*\<^sup>* (Upd_Find hop i es, s) (Done [], s')
    \<and> table s' = apply_entries clock hop ifs i es (table s) \<and> map_invar (cells s') \<and> rlock s' = None"
  using assms
proof (induction es arbitrary: i s)
  case Nil
  have "(alone ifs clock t)\<^sup>*\<^sup>* (Upd_Find hop i [], s) (Done [], s)" by (rule alone_step, simp) simp
  with Nil show ?case by auto
next
  case (Cons e es)
  from update_entry_alone [OF Cons.prems, of ifs clock t hop i e es] obtain s1 where
    s1: "(alone ifs clock t)\<^sup>*\<^sup>* (Upd_Find hop i (e # es), s) (Upd_Find hop (Suc i) es, s1)"
      "table s1 = update_entry (clock i) hop ifs e (table s)" "map_invar (cells s1)" "rlock s1 = None" by blast
  from Cons.IH [OF s1(3,4), of "Suc i"] s1(1,2) show ?case by (auto intro: rtranclp_trans)
qed

section \<open>Threads together\<close>












text \<open>Nodes stay: all the other threads may do without an erasure.\<close>

definition grows :: "shared \<Rightarrow> shared \<Rightarrow> bool" where
  "grows s s' \<longleftrightarrow> (\<forall>k i w. map_find (cells s) k = Some (i, w) \<longrightarrow> (\<exists>w'. map_find (cells s') k = Some (i, w')))"

lemma grows_refl [simp]: "cells s' = cells s \<Longrightarrow> grows s s'"
  by (simp add: grows_def)

lemma grows_store [simp]: "grows s (store k w s)"
  by (auto simp: grows_def store_def map_find_assign split: option.split)




lemma node_list_fst: "map fst (node_list rt) = map fst rt"
proof -
  have "map fst (map (\<lambda>(i, (k, w)). (k, i, w)) (zip [m..<m + length rt] rt)) = map fst rt" for m
  proof (induction rt arbitrary: m)
    case (Cons x rt)
    from Cons [of "Suc m"] show ?case by (simp add: upt_conv_Cons case_prod_unfold del: upt_Suc)
  qed simp
  from this [of 0] show ?thesis by (simp add: node_list_def)
qed



lemma table_race_start: "table (shm (race_start rt)) = rt"
proof -
  have "table (shm (race_start rt)) = map snd (zip [0..<length rt] rt)"
    by (simp add: table_def race_start_def node_list_def case_prod_unfold o_def)
  then show ?thesis by simp
qed

section \<open>Two schedules\<close>


















section \<open>Properties\<close>

text \<open>
  C17: as long as the other threads leave the table alone, the accesses of each operation, one by one, end
  without a fault, give the mutex back and do to the table exactly what the operation does in one step: the loops that
  read see the table, a message is built with the size of the table and its elements, the erasing loops, the update
  and the assignment of an own entry are the functions of the RIP layer.
\<close>

theorem table_ops_alone:
  assumes "map_invar (cells s)" and "rlock s = None"
  shows "(alone ifs clock t)\<^sup>*\<^sup>* (Scan_Begin, s) (Done (table s), s)
    \<and> (alone ifs clock t)\<^sup>*\<^sup>* (Adv_Size, s) (Adv (length (table s)) (Done (table s)), s)
    \<and> (\<exists>s'. (alone ifs clock t)\<^sup>*\<^sup>* (Sweep_Begin (Refresh now), s) (Done [], s')
        \<and> table s' = refresh_loop now ifs (table s) (table s) \<and> rlock s' = None)
    \<and> (\<exists>s'. (alone ifs clock t)\<^sup>*\<^sup>* (Sweep_Begin (Remove gone), s) (Done [], s')
        \<and> table s' = remove_loop gone (table s) (table s) \<and> rlock s' = None)
    \<and> (\<exists>s'. (alone ifs clock t)\<^sup>*\<^sup>* (Upd_Find hop 0 es, s) (Done [], s')
        \<and> table s' = apply_entries clock hop ifs 0 es (table s) \<and> rlock s' = None)
    \<and> (\<exists>s'. (alone ifs clock t)\<^sup>*\<^sup>* (Upd_Lock a (own_entry now a) hop 0 [], s) (Done [], s')
        \<and> table s' = map_assign a (own_entry now a) (table s) \<and> rlock s' = None)"
proof (intro conjI)
  have inv: "map_invar ([] @ cells s)" "cells s = [] @ cells s" using assms(1) by simp_all
  show scan: "(alone ifs clock t)\<^sup>*\<^sup>* (Scan_Begin, s) (Done (table s), s)"
    using scan_alone [OF inv, of ifs clock t "[]"] by (intro alone_step) (simp_all add: table_def)
  show "(alone ifs clock t)\<^sup>*\<^sup>* (Adv_Size, s) (Adv (length (table s)) (Done (table s)), s)"
    using advertise_alone [OF scan] by (intro alone_step) (simp_all add: table_def)
  have sw: "(alone ifs clock t)\<^sup>*\<^sup>* (Sweep_Begin sw, s)
      (Done [], s\<lparr>cells := filter (\<lambda>(k, i, w). \<not> swept ifs sw k w) (cells s)\<rparr>)" for sw
    using sweep_alone [OF inv assms(2), of ifs clock t sw] by (intro alone_step) simp_all
  have f: "table (s\<lparr>cells := filter (\<lambda>(k, i, w). \<not> swept ifs sw k w) (cells s)\<rparr>) = filter (\<lambda>(k, w). \<not> swept ifs sw k w) (table s)"
    for sw by (simp add: table_def filter_map o_def case_prod_unfold)
  have "refresh_loop now ifs (table s) (table s) = filter (\<lambda>(k, w). \<not> swept ifs (Refresh now) k w) (table s)"
    using assms(1) by (simp add: refresh_loop_eq)
  with sw [of "Refresh now"] f [of "Refresh now"] assms(2)
  show "\<exists>s'. (alone ifs clock t)\<^sup>*\<^sup>* (Sweep_Begin (Refresh now), s) (Done [], s')
        \<and> table s' = refresh_loop now ifs (table s) (table s) \<and> rlock s' = None"
    by (intro exI conjI) (assumption, simp_all)
  have "remove_loop gone (table s) (table s) = filter (\<lambda>(k, w). \<not> swept ifs (Remove gone) k w) (table s)"
    using assms(1) by (simp add: remove_loop_eq)
  with sw [of "Remove gone"] f [of "Remove gone"] assms(2)
  show "\<exists>s'. (alone ifs clock t)\<^sup>*\<^sup>* (Sweep_Begin (Remove gone), s) (Done [], s')
        \<and> table s' = remove_loop gone (table s) (table s) \<and> rlock s' = None"
    by (intro exI conjI) (assumption, simp_all)
  show "\<exists>s'. (alone ifs clock t)\<^sup>*\<^sup>* (Upd_Find hop 0 es, s) (Done [], s')
        \<and> table s' = apply_entries clock hop ifs 0 es (table s) \<and> rlock s' = None"
    using update_alone [OF assms, of ifs clock t hop 0 es] by blast
  have "(alone ifs clock t)\<^sup>*\<^sup>* (Upd_Find hop 0 [], store a (own_entry now a) s) (Done [], store a (own_entry now a) s)"
    by (rule alone_step, simp) simp
  from rtranclp_trans [OF locked_store_alone [OF assms(2)] this] assms(2)
  show "\<exists>s'. (alone ifs clock t)\<^sup>*\<^sup>* (Upd_Lock a (own_entry now a) hop 0 [], s) (Done [], s')
        \<and> table s' = map_assign a (own_entry now a) (table s) \<and> rlock s' = None"
    by (intro exI [of _ "store a (own_entry now a) s"]) (simp add: table_store)
qed


theorem table_ops_alone_witness:
  "\<exists>s'. (alone B_ifs (\<lambda>_. at_sec 100) 1)\<^sup>*\<^sup>* (Sweep_Begin (Remove 0x0A000009), shm (race_start B_rt)) (Done [], s')
     \<and> table s' = [(0x0A000001, route 0x0A000001 1 0x0A00000E 101), (0x0A00000E, route 0x0A00000E 0 0x0A00000E 100)]"
proof -
  have "map_invar (cells (shm (race_start B_rt)))" "rlock (shm (race_start B_rt)) = None"
    using map_invar_B by (simp_all add: race_start_def map_invar_def node_list_fst)
  note alone = table_ops_alone [OF this, of B_ifs "\<lambda>_. at_sec 100" 1 "at_sec 100" "0x0A000009", unfolded table_race_start]
  have "remove_loop 0x0A000009 B_rt B_rt
      = [(0x0A000001, route 0x0A000001 1 0x0A00000E 101), (0x0A00000E, route 0x0A00000E 0 0x0A00000E 100)]"
    by (simp add: remove_loop_eq [OF map_invar_B]) (simp add: B_rt_def route_def)
  with conjunct1 [OF conjunct2 [OF conjunct2 [OF conjunct2 [OF alone]]]] show ?thesis by metis
qed


end
