(* ===== verification/Linked_List.thy ===== *)
theory Linked_List
  imports Prelude
begin

text \<open>
  \<open>src/list.h\<close>: circular doubly linked lists whose links are part of the listed objects.  Addresses are
  natural numbers, \<open>0\<close> is \<open>NULL\<close>.  Memory is the list of live blocks (base and size) and one map per
  field; a field that is accessed must lie in a live block, and one that is read must have been written.
  A client's record extends \<open>mem\<close> with the fields of its objects.
\<close>

section \<open>Memory\<close>

type_synonym addr = nat

record mem =
  blocks :: "(addr \<times> nat) list"
  l_next :: "addr \<rightharpoonup> addr"
  l_prev :: "addr \<rightharpoonup> addr"

definition sizeof_list :: nat where "sizeof_list = 16"

definition owned :: "'a mem_scheme \<Rightarrow> addr \<Rightarrow> nat \<Rightarrow> bool" where
  "owned m a n \<longleftrightarrow> list_ex (\<lambda>(b, s). b \<le> a \<and> a + n \<le> b + s) (blocks m)"

definition access :: "'a mem_scheme \<Rightarrow> addr \<Rightarrow> nat \<Rightarrow> fault + unit" where
  "access m a n = (if a = 0 then Inl Null_Pointer else if owned m a n then Inr () else Inl Dangling)"

definition read_field :: "'a mem_scheme \<Rightarrow> addr \<Rightarrow> nat \<Rightarrow> (addr \<rightharpoonup> 'c) \<Rightarrow> fault + 'c" where
  "read_field m a n f = bindE (access m a n) (\<lambda>_. case f a of None \<Rightarrow> Inl Indeterminate | Some x \<Rightarrow> Inr x)"

definition get_next :: "addr \<Rightarrow> 'a mem_scheme \<Rightarrow> fault + addr" where
  "get_next a m = read_field m a sizeof_list (l_next m)"

definition get_prev :: "addr \<Rightarrow> 'a mem_scheme \<Rightarrow> fault + addr" where
  "get_prev a m = read_field m a sizeof_list (l_prev m)"

definition set_next :: "addr \<Rightarrow> addr \<Rightarrow> 'a mem_scheme \<Rightarrow> fault + 'a mem_scheme" where
  "set_next a x m = bindE (access m a sizeof_list) (\<lambda>_. Inr (m\<lparr>l_next := (l_next m)(a \<mapsto> x)\<rparr>))"

definition set_prev :: "addr \<Rightarrow> addr \<Rightarrow> 'a mem_scheme \<Rightarrow> fault + 'a mem_scheme" where
  "set_prev a x m = bindE (access m a sizeof_list) (\<lambda>_. Inr (m\<lparr>l_prev := (l_prev m)(a \<mapsto> x)\<rparr>))"

section \<open>The operations\<close>

definition list_init :: "addr \<Rightarrow> 'a mem_scheme \<Rightarrow> fault + 'a mem_scheme" where
  "list_init l m = bindE (set_prev l l m) (set_next l l)"

definition list_link_init :: "addr \<Rightarrow> 'a mem_scheme \<Rightarrow> fault + 'a mem_scheme" where
  "list_link_init link m = bindE (set_prev link 0 m) (set_next link 0)"

definition list_empty :: "addr \<Rightarrow> 'a mem_scheme \<Rightarrow> fault + bool" where
  "list_empty l m = bindE (get_next l m) (\<lambda>x. Inr (x = l))"

definition list_insert_before :: "addr \<Rightarrow> addr \<Rightarrow> 'a mem_scheme \<Rightarrow> fault + 'a mem_scheme" where
  "list_insert_before old new m =
     (let prev = new; next = old in
      bindE (set_next prev next m) (\<lambda>m.
      bindE (get_prev next m) (\<lambda>p. bindE (set_prev prev p m) (\<lambda>m.
      bindE (get_prev next m) (\<lambda>p. bindE (set_next p prev m) (\<lambda>m.
        set_prev next prev m))))))"

definition list_insert_head :: "addr \<Rightarrow> addr \<Rightarrow> 'a mem_scheme \<Rightarrow> fault + 'a mem_scheme" where
  "list_insert_head l link m = bindE (get_next l m) (\<lambda>old. list_insert_before old link m)"

definition list_insert_tail :: "addr \<Rightarrow> addr \<Rightarrow> 'a mem_scheme \<Rightarrow> fault + 'a mem_scheme" where
  "list_insert_tail l link m = list_insert_before l link m"

definition list_remove :: "addr \<Rightarrow> 'a mem_scheme \<Rightarrow> fault + 'a mem_scheme" where
  "list_remove link m =
     (let ll = link in
      bindE (get_prev ll m) (\<lambda>prev. bindE (get_next ll m) (\<lambda>next.
      bindE (set_next prev next m) (\<lambda>m. bindE (set_prev next prev m) (\<lambda>m.
      bindE (set_prev ll 0 m) (\<lambda>m. set_next ll 0 m))))))"

definition list_remove_head :: "addr \<Rightarrow> 'a mem_scheme \<Rightarrow> fault + 'a mem_scheme" where
  "list_remove_head l m = bindE (get_next l m) (\<lambda>x. list_remove x m)"

definition list_remove_tail :: "addr \<Rightarrow> 'a mem_scheme \<Rightarrow> fault + 'a mem_scheme" where
  "list_remove_tail l m = bindE (get_prev l m) (\<lambda>x. list_remove x m)"

text \<open>\<open>list_item\<close> with the offset of the member in the object.\<close>

definition list_item :: "addr \<Rightarrow> nat \<Rightarrow> addr" where
  "list_item link off = link - off"

definition list_head :: "addr \<Rightarrow> nat \<Rightarrow> 'a mem_scheme \<Rightarrow> fault + addr" where
  "list_head l off m = bindE (get_next l m) (\<lambda>x. Inr (list_item x off))"

definition list_tail :: "addr \<Rightarrow> nat \<Rightarrow> 'a mem_scheme \<Rightarrow> fault + addr" where
  "list_tail l off m = bindE (get_prev l m) (\<lambda>x. Inr (list_item x off))"

section \<open>Iteration\<close>

text \<open>
  The body gets the item and the memory with the client's variables; it goes on (\<open>None\<close>) or returns from
  the enclosing function (\<open>Some r\<close>).  The result \<open>None\<close> of an iteration is a loop that does not end.
\<close>

type_synonym ('a, 's, 'r) body = "addr \<Rightarrow> 'a mem_scheme \<times> 's \<Rightarrow> fault + ('a mem_scheme \<times> 's) \<times> 'r option"

partial_function (option) iterate_loop ::
  "('a, 's, 'r) body \<Rightarrow> nat \<Rightarrow> addr \<Rightarrow> addr \<Rightarrow> 'a mem_scheme \<times> 's \<Rightarrow> (fault + ('a mem_scheme \<times> 's) \<times> 'r option) option" where
  "iterate_loop body off l link st =
     (if link = l then Some (Inr (st, None))
      else case get_next link (fst st) of
        Inl f \<Rightarrow> Some (Inl f)
      | Inr next \<Rightarrow>
          (case body (list_item link off) st of
             Inl f \<Rightarrow> Some (Inl f)
           | Inr (st', r) \<Rightarrow>
               (case r of None \<Rightarrow> iterate_loop body off l next st' | Some x \<Rightarrow> Some (Inr (st', Some x)))))"

definition list_iterate ::
  "addr \<Rightarrow> nat \<Rightarrow> ('a, 's, 'r) body \<Rightarrow> 'a mem_scheme \<times> 's \<Rightarrow> (fault + ('a mem_scheme \<times> 's) \<times> 'r option) option" where
  "list_iterate l off body st =
     (case get_next l (fst st) of Inl f \<Rightarrow> Some (Inl f) | Inr link \<Rightarrow> iterate_loop body off l link st)"

partial_function (option) iterate_reverse_loop ::
  "('a, 's, 'r) body \<Rightarrow> nat \<Rightarrow> addr \<Rightarrow> addr \<Rightarrow> 'a mem_scheme \<times> 's \<Rightarrow> (fault + ('a mem_scheme \<times> 's) \<times> 'r option) option" where
  "iterate_reverse_loop body off l link st =
     (if link = l then Some (Inr (st, None))
      else case get_prev link (fst st) of
        Inl f \<Rightarrow> Some (Inl f)
      | Inr prev \<Rightarrow>
          (case body (list_item link off) st of
             Inl f \<Rightarrow> Some (Inl f)
           | Inr (st', r) \<Rightarrow>
               (case r of None \<Rightarrow> iterate_reverse_loop body off l prev st' | Some x \<Rightarrow> Some (Inr (st', Some x)))))"

definition list_iterate_reverse ::
  "addr \<Rightarrow> nat \<Rightarrow> ('a, 's, 'r) body \<Rightarrow> 'a mem_scheme \<times> 's \<Rightarrow> (fault + ('a mem_scheme \<times> 's) \<times> 'r option) option" where
  "list_iterate_reverse l off body st =
     (case get_prev l (fst st) of Inl f \<Rightarrow> Some (Inl f) | Inr link \<Rightarrow> iterate_reverse_loop body off l link st)"


section \<open>Rings\<close>

text \<open>\<open>linked m xs\<close>: neighbours in \<open>xs\<close> point at each other.  A list is the ring through its head.\<close>

fun linked :: "'a mem_scheme \<Rightarrow> addr list \<Rightarrow> bool" where
  "linked m (x # y # zs) \<longleftrightarrow> l_next m x = Some y \<and> l_prev m y = Some x \<and> linked m (y # zs)"
| "linked m _ \<longleftrightarrow> True"

definition live :: "'a mem_scheme \<Rightarrow> addr \<Rightarrow> bool" where
  "live m a \<longleftrightarrow> a \<noteq> 0 \<and> owned m a sizeof_list"

definition ring :: "'a mem_scheme \<Rightarrow> addr \<Rightarrow> addr list \<Rightarrow> bool" where
  "ring m l xs \<longleftrightarrow> linked m (l # xs @ [l]) \<and> distinct (l # xs) \<and> (\<forall>x \<in> set (l # xs). live m x)"

text \<open>The rest of the memory is as before.\<close>

definition same_outside :: "addr set \<Rightarrow> 'a mem_scheme \<Rightarrow> 'a mem_scheme \<Rightarrow> bool" where
  "same_outside S m m' \<longleftrightarrow> blocks m' = blocks m \<and> mem.more m' = mem.more m
     \<and> (\<forall>a. a \<notin> S \<longrightarrow> l_next m' a = l_next m a \<and> l_prev m' a = l_prev m a)"

lemma linked_append:
  "linked m (as @ x # y # bs) \<longleftrightarrow> linked m (as @ [x]) \<and> l_next m x = Some y \<and> l_prev m y = Some x \<and> linked m (y # bs)"
proof (induction as)
  case (Cons a as)
  then show ?case by (cases as) auto
qed simp

lemma linked_cong:
  assumes "\<And>x. x \<in> set (butlast xs) \<Longrightarrow> l_next m' x = l_next m x"
    and "\<And>x. x \<in> set (tl xs) \<Longrightarrow> l_prev m' x = l_prev m x"
  shows "linked m' xs = linked m xs"
  using assms by (induction m xs rule: linked.induct) auto

lemma owned_blocks: "blocks m' = blocks m \<Longrightarrow> owned m' = owned m"
  by (simp add: owned_def fun_eq_iff)

lemma live_upd [simp]:
  "live (l_next_update f m) = live m" "live (l_prev_update f m) = live m"
  by (simp_all add: live_def owned_def fun_eq_iff)

lemma live_access [simp]: "live m a \<Longrightarrow> access m a sizeof_list = Inr ()"
  by (simp add: live_def access_def)

lemma live_fields:
  assumes "live m a"
  shows "set_next a x m = Inr (m\<lparr>l_next := (l_next m)(a \<mapsto> x)\<rparr>)"
    and "set_prev a x m = Inr (m\<lparr>l_prev := (l_prev m)(a \<mapsto> x)\<rparr>)"
    and "l_next m a = Some y \<Longrightarrow> get_next a m = Inr y"
    and "l_prev m a = Some y \<Longrightarrow> get_prev a m = Inr y"
  using assms by (simp_all add: set_next_def set_prev_def get_next_def get_prev_def read_field_def)

lemma ring_same_outside:
  assumes "same_outside S m m'" and "ring m l xs" and "S \<inter> set (l # xs) = {}"
  shows "ring m' l xs"
proof -
  have "linked m' (l # xs @ [l]) = linked m (l # xs @ [l])"
    by (rule linked_cong) (use assms(1,3) in \<open>auto simp: same_outside_def butlast_append dest: in_set_butlastD\<close>)
  moreover have "live m' = live m" using assms(1) by (auto simp: same_outside_def live_def owned_def)
  ultimately show ?thesis using assms(2) by (simp add: ring_def)
qed

text \<open>A position of the ring: the links before and after it.\<close>

lemma ring_position:
  assumes "ring m l (xs @ ys)"
  obtains as p n bs where "l # xs = as @ [p]" and "ys @ [l] = n # bs"
    and "l_next m p = Some n" and "l_prev m n = Some p"
    and "linked m (as @ [p])" and "linked m (n # bs)" and "live m p" and "live m n"
    and "p \<notin> set as" and "n \<notin> set bs" and "n \<notin> set xs" and "p \<notin> set ys"
proof -
  obtain as p where as: "l # xs = as @ [p]" by (metis append_butlast_last_id list.distinct(1))
  obtain n bs where bs: "ys @ [l] = n # bs" by (metis append_is_Nil_conv list.distinct(1) neq_Nil_conv)
  have "linked m ((l # xs) @ ys @ [l])" using assms by (simp add: ring_def)
  then have "linked m (as @ p # n # bs)" by (simp only: as bs append.assoc append_Cons append_Nil)
  then have "linked m (as @ [p])" "linked m (n # bs)" "l_next m p = Some n" "l_prev m n = Some p"
    by (simp_all add: linked_append)
  moreover have e: "set (l # xs) = set (as @ [p])" "set (ys @ [l]) = set (n # bs)" by (simp_all only: as bs)
  then have "p \<in> set (l # xs)" "n \<in> set (ys @ [l])" by simp_all
  then have "live m p" "live m n" using assms by (auto simp: ring_def)
  moreover have d: "distinct (l # xs @ ys)" using assms by (simp add: ring_def)
  have "distinct (as @ [p])" "distinct (n # bs)" using d by (simp_all flip: as bs)
  then have "p \<notin> set as" "n \<notin> set bs" by simp_all
  moreover have "n \<notin> set xs" "p \<notin> set ys" using d \<open>p \<in> set (l # xs)\<close> \<open>n \<in> set (ys @ [l])\<close> by auto
  ultimately show ?thesis using that as bs by blast
qed

lemma ring_next: "ring m l xs \<Longrightarrow> l_next m l = Some (hd (xs @ [l]))"
  by (rule ring_position [of m l "[]" xs]) auto

lemma ring_prev:
  assumes "ring m l xs"
  shows "l_prev m l = Some (last (l # xs))"
proof -
  obtain as p where "l # xs = as @ [p]" "l_prev m l = Some p"
    by (rule ring_position [of m l xs "[]"]) (use assms in auto)
  then show ?thesis by simp
qed

lemma ring_live: "ring m l xs \<Longrightarrow> x \<in> set (l # xs) \<Longrightarrow> live m x"
  by (auto simp: ring_def)


text \<open>Assignments to fields of links outside a chain.\<close>

lemma linked_upd_next: "a \<notin> set (butlast xs) \<Longrightarrow> linked (m\<lparr>l_next := (l_next m)(a := v)\<rparr>) xs = linked m xs"
  by (rule linked_cong) auto

lemma linked_upd_prev: "a \<notin> set (tl xs) \<Longrightarrow> linked (m\<lparr>l_prev := (l_prev m)(a := v)\<rparr>) xs = linked m xs"
  by (rule linked_cong) auto

section \<open>What the operations do to a ring\<close>

lemma list_init_ring:
  assumes "live m l"
  shows "\<exists>m'. list_init l m = Inr m' \<and> ring m' l [] \<and> same_outside {l} m m'"
  using assms by (auto simp: list_init_def live_fields ring_def same_outside_def)

lemma list_empty_ring:
  assumes "ring m l xs"
  shows "list_empty l m = Inr (xs = [])"
proof -
  have "hd (xs @ [l]) = l \<longleftrightarrow> xs = []" using assms by (cases xs) (auto simp: ring_def)
  with live_fields(3) [OF ring_live [OF assms] ring_next [OF assms]] show ?thesis by (simp add: list_empty_def)
qed

text \<open>\<open>old\<close> is an element of the list, or the head: then the new element comes last.\<close>

lemma list_insert_before_ring:
  assumes "ring m l (xs @ ys)" and "live m new" and "new \<notin> set (l # xs @ ys)"
  shows "\<exists>m'. list_insert_before (hd (ys @ [l])) new m = Inr m' \<and> ring m' l (xs @ new # ys)
    \<and> same_outside (set (l # new # xs @ ys)) m m'"
proof -
  from assms(1) obtain as p n bs where as: "l # xs = as @ [p]" and bs: "ys @ [l] = n # bs"
    and pn: "l_next m p = Some n" "l_prev m n = Some p" "linked m (as @ [p])" "linked m (n # bs)" "live m p" "live m n"
    and out: "p \<notin> set as" "n \<notin> set bs" "n \<notin> set xs" "p \<notin> set ys"
    by (rule ring_position)
  have sets: "set (l # xs) = insert p (set as)" "insert l (set ys) = insert n (set bs)"
    using arg_cong [OF as, of set] arg_cong [OF bs, of set] by simp_all
  then have new: "new \<noteq> p" "new \<noteq> n" "new \<notin> set as" "new \<notin> set bs" using assms(3) by auto
  let ?m = "m\<lparr>l_next := (l_next m)(new \<mapsto> n, p \<mapsto> new), l_prev := (l_prev m)(new \<mapsto> p, n \<mapsto> new)\<rparr>"
  have i: "list_insert_before n new m = Inr ?m"
    using pn assms(2) new by (simp add: list_insert_before_def Let_def live_fields)
  have tl: "set (tl (as @ [p])) = set xs" "set (butlast (n # bs)) = set ys"
    by (simp_all flip: as bs)
  have "linked ?m (as @ [p]) = linked m (as @ [p])"
    by (rule linked_cong) (use out new tl assms(3) in \<open>auto simp del: tl_append2\<close>)
  moreover have "linked ?m (n # bs) = linked m (n # bs)"
    by (rule linked_cong) (use out new tl assms(3) in \<open>auto simp del: butlast.simps\<close>)
  ultimately have "linked ?m (as @ p # new # n # bs)"
    using new pn(3,4) by (simp add: linked_append [of _ as p])
  moreover have "l # (xs @ new # ys) @ [l] = as @ p # new # n # bs" using as bs by simp
  moreover have "live ?m = live m" by (simp add: live_def owned_def fun_eq_iff)
  ultimately have "ring ?m l (xs @ new # ys)" using assms by (auto simp: ring_def)
  moreover have "same_outside (set (l # new # xs @ ys)) m ?m" using sets by (auto simp: same_outside_def)
  moreover have "hd (ys @ [l]) = n" by (simp add: bs)
  ultimately show ?thesis using i by blast
qed

lemma list_remove_ring:
  assumes "ring m l (xs @ x # ys)"
  shows "\<exists>m'. list_remove x m = Inr m' \<and> ring m' l (xs @ ys) \<and> same_outside (set (l # x # xs @ ys)) m m'
    \<and> l_next m' x = Some 0 \<and> l_prev m' x = Some 0"
proof -
  from assms obtain as p x' bs' where as: "l # xs = as @ [p]" and x': "(x # ys) @ [l] = x' # bs'"
      "l_next m p = Some x'" "l_prev m x' = Some p" "linked m (as @ [p])" "live m p" "live m x'"
    and out: "p \<notin> set as" "p \<notin> set (x # ys)"
    by (rule ring_position)
  from x'(1) have "x' = x" by simp
  with x'(2-) have x: "l_next m p = Some x" "l_prev m x = Some p" "linked m (as @ [p])" "live m p" "live m x"
    by simp_all
  from assms have "ring m l ((xs @ [x]) @ ys)" by simp
  then obtain as' x'' n bs where x'': "l # xs @ [x] = as' @ [x'']" and bs: "ys @ [l] = n # bs"
      "l_next m x'' = Some n" "l_prev m n = Some x''" "linked m (n # bs)" "live m n"
    and out': "n \<notin> set bs" "n \<notin> set (xs @ [x])"
    by (rule ring_position)
  have "x'' = x" using arg_cong [OF x'', of last] by simp
  with bs(2-) have n: "l_next m x = Some n" "l_prev m n = Some x" "linked m (n # bs)" "live m n"
    by simp_all
  note bs = bs(1)
  have d: "x \<notin> set (l # xs @ ys)" "distinct (l # xs @ ys)" using assms by (auto simp: ring_def)
  have sets: "set (l # xs) = insert p (set as)" "insert l (set ys) = insert n (set bs)"
    using arg_cong [OF as, of set] arg_cong [OF bs, of set] by simp_all
  then have nx: "x \<noteq> p" "x \<noteq> n" "x \<notin> set as" "x \<notin> set bs" using d(1) by auto
  let ?m = "m\<lparr>l_next := (l_next m)(p \<mapsto> n, x \<mapsto> 0), l_prev := (l_prev m)(n \<mapsto> p, x \<mapsto> 0)\<rparr>"
  have i: "list_remove x m = Inr ?m"
    using x n nx by (simp add: list_remove_def Let_def live_fields)
  have tl: "set (tl (as @ [p])) = set xs" "set (butlast (n # bs)) = set ys"
    by (simp_all flip: as bs)
  have "linked ?m (as @ [p]) = linked m (as @ [p])"
    by (rule linked_cong) (use out out' nx tl d in \<open>auto simp del: tl_append2\<close>)
  moreover have "linked ?m (n # bs) = linked m (n # bs)"
    by (rule linked_cong) (use out out' nx tl d in \<open>auto simp del: butlast.simps\<close>)
  ultimately have "linked ?m (as @ p # n # bs)"
    using nx x(3) n(3) by (simp add: linked_append [of _ as p])
  moreover have "l # (xs @ ys) @ [l] = as @ p # n # bs" using as bs by simp
  moreover have "live ?m = live m" by (simp add: live_def owned_def fun_eq_iff)
  ultimately have "ring ?m l (xs @ ys)" using assms by (auto simp: ring_def)
  moreover have "same_outside (set (l # x # xs @ ys)) m ?m" using sets by (auto simp: same_outside_def)
  moreover have "l_next ?m x = Some 0" "l_prev ?m x = Some 0" by simp_all
  ultimately show ?thesis using i by blast
qed

lemma list_insert_head_ring:
  assumes "ring m l xs" and "live m new" and "new \<notin> set (l # xs)"
  shows "\<exists>m'. list_insert_head l new m = Inr m' \<and> ring m' l (new # xs) \<and> same_outside (set (l # new # xs)) m m'"
  using list_insert_before_ring [of m l "[]" xs new] assms ring_next [OF assms(1)] ring_live [OF assms(1), of l]
  by (simp add: list_insert_head_def live_fields(3))

lemma list_insert_tail_ring:
  assumes "ring m l xs" and "live m new" and "new \<notin> set (l # xs)"
  shows "\<exists>m'. list_insert_tail l new m = Inr m' \<and> ring m' l (xs @ [new]) \<and> same_outside (set (l # new # xs)) m m'"
  using list_insert_before_ring [of m l xs "[]" new] assms by (simp add: list_insert_tail_def)

lemma list_remove_head_ring:
  assumes "ring m l (x # xs)"
  shows "\<exists>m'. list_remove_head l m = Inr m' \<and> ring m' l xs \<and> same_outside (set (l # x # xs)) m m'"
  using list_remove_ring [of m l "[]" x xs] assms ring_next [OF assms] ring_live [OF assms, of l]
  by (auto simp add: list_remove_head_def live_fields(3))

lemma list_remove_tail_ring:
  assumes "ring m l (xs @ [x])"
  shows "\<exists>m'. list_remove_tail l m = Inr m' \<and> ring m' l xs \<and> same_outside (set (l # x # xs)) m m'"
  using list_remove_ring [of m l xs x "[]"] assms ring_prev [OF assms] ring_live [OF assms, of l]
  by (auto simp add: list_remove_tail_def live_fields(4))

text \<open>Called on an empty list, \<open>list_remove_head\<close> takes the head itself apart.\<close>

lemma list_remove_head_empty:
  assumes "ring m l []"
  shows "\<exists>m'. list_remove_head l m = Inr m' \<and> l_next m' l = Some 0 \<and> l_prev m' l = Some 0"
  using assms by (simp add: ring_def list_remove_head_def list_remove_def live_fields)

section \<open>Iteration ends\<close>

text \<open>The same body, item by item along a list that is fixed beforehand.\<close>

fun visit :: "('a, 's, 'r) body \<Rightarrow> nat \<Rightarrow> addr list \<Rightarrow> 'a mem_scheme \<times> 's
    \<Rightarrow> fault + ('a mem_scheme \<times> 's) \<times> 'r option" where
  "visit body off [] st = Inr (st, None)"
| "visit body off (x # xs) st = bindE (body (list_item x off) st) (\<lambda>(st', r).
     case r of None \<Rightarrow> visit body off xs st' | Some v \<Rightarrow> Inr (st', Some v))"

text \<open>\<open>J\<close> holds of the items still to come; it must give the link that is read before the body runs.\<close>

lemma iterate_loop_visit:
  assumes "\<And>x bs st. J (x # bs) st \<Longrightarrow> get_next x (fst st) = Inr (hd (bs @ [l]))"
    and "\<And>x bs st st'. J (x # bs) st \<Longrightarrow> body (list_item x off) st = Inr (st', None) \<Longrightarrow> J bs st'"
    and "J xs st" and "l \<notin> set xs"
  shows "iterate_loop body off l (hd (xs @ [l])) st = Some (visit body off xs st)"
  using assms(3,4)
proof (induction xs arbitrary: st)
  case Nil
  then show ?case by (simp add: iterate_loop.simps)
next
  case (Cons x xs)
  show ?case
  proof (cases "body (list_item x off) st")
    case (Inl f)
    with Cons.prems assms(1) [OF Cons.prems(1)] show ?thesis by (simp add: iterate_loop.simps [of _ _ _ x])
  next
    case (Inr y)
    obtain st' r where y: "y = (st', r)" by (cases y)
    show ?thesis
    proof (cases r)
      case None
      with Cons.IH [OF assms(2) [OF Cons.prems(1)]] Cons.prems assms(1) [OF Cons.prems(1)] Inr y
      show ?thesis by (simp add: iterate_loop.simps [of _ _ _ x])
    next
      case (Some v)
      with Cons.prems assms(1) [OF Cons.prems(1)] Inr y show ?thesis by (simp add: iterate_loop.simps [of _ _ _ x])
    qed
  qed
qed

lemma iterate_reverse_loop_visit:
  assumes "\<And>x bs st. J (x # bs) st \<Longrightarrow> get_prev x (fst st) = Inr (hd (bs @ [l]))"
    and "\<And>x bs st st'. J (x # bs) st \<Longrightarrow> body (list_item x off) st = Inr (st', None) \<Longrightarrow> J bs st'"
    and "J xs st" and "l \<notin> set xs"
  shows "iterate_reverse_loop body off l (hd (xs @ [l])) st = Some (visit body off xs st)"
  using assms(3,4)
proof (induction xs arbitrary: st)
  case Nil
  then show ?case by (simp add: iterate_reverse_loop.simps)
next
  case (Cons x xs)
  show ?case
  proof (cases "body (list_item x off) st")
    case (Inl f)
    with Cons.prems assms(1) [OF Cons.prems(1)] show ?thesis by (simp add: iterate_reverse_loop.simps [of _ _ _ x])
  next
    case (Inr y)
    obtain st' r where y: "y = (st', r)" by (cases y)
    show ?thesis
    proof (cases r)
      case None
      with Cons.IH [OF assms(2) [OF Cons.prems(1)]] Cons.prems assms(1) [OF Cons.prems(1)] Inr y
      show ?thesis by (simp add: iterate_reverse_loop.simps [of _ _ _ x])
    next
      case (Some v)
      with Cons.prems assms(1) [OF Cons.prems(1)] Inr y show ?thesis by (simp add: iterate_reverse_loop.simps [of _ _ _ x])
    qed
  qed
qed

text \<open>The link after, and the link before, an element.\<close>

lemma ring_get_next: "ring m l (as @ x # bs) \<Longrightarrow> get_next x m = Inr (hd (bs @ [l]))"
proof -
  assume r: "ring m l (as @ x # bs)"
  then have "ring m l ((as @ [x]) @ bs)" by simp
  then obtain ps p n ns where "l # as @ [x] = ps @ [p]" "bs @ [l] = n # ns" "l_next m p = Some n"
    by (rule ring_position)
  moreover from this(1) have "p = x" by (metis append_Cons last_snoc)
  ultimately show ?thesis using live_fields(3) ring_live [OF r, of x] by simp
qed

lemma ring_get_prev: "ring m l (as @ x # bs) \<Longrightarrow> get_prev x m = Inr (last (l # as))"
proof -
  assume r: "ring m l (as @ x # bs)"
  then obtain ps p n ns where "l # as = ps @ [p]" "(x # bs) @ [l] = n # ns" "l_prev m n = Some p"
    by (rule ring_position)
  then show ?thesis using live_fields(4) ring_live [OF r, of x] by simp
qed

lemma list_iterate_visit:
  assumes "ring (fst st) l xs"
    and "\<And>as x bs st st'. ring (fst st) l (as @ x # bs) \<Longrightarrow> body (list_item x off) st = Inr (st', None)
      \<Longrightarrow> \<exists>as'. ring (fst st') l (as' @ bs)"
  shows "list_iterate l off body st = Some (visit body off xs st)"
proof -
  have "iterate_loop body off l (hd (xs @ [l])) st = Some (visit body off xs st)"
  proof (rule iterate_loop_visit [where J = "\<lambda>bs st. \<exists>as. ring (fst st) l (as @ bs)"])
    show "l \<notin> set xs" using assms(1) by (simp add: ring_def)
    show "\<exists>as. ring (fst st) l (as @ xs)" using assms(1) by (intro exI [of _ "[]"]) simp
  qed (use assms(2) ring_get_next in blast)+
  moreover have "get_next l (fst st) = Inr (hd (xs @ [l]))"
    using live_fields(3) [OF ring_live [OF assms(1)] ring_next [OF assms(1)]] by simp
  ultimately show ?thesis by (simp add: list_iterate_def)
qed

lemma list_iterate_reverse_visit:
  assumes "ring (fst st) l xs"
    and "\<And>as x bs st st'. ring (fst st) l (as @ x # bs) \<Longrightarrow> body (list_item x off) st = Inr (st', None)
      \<Longrightarrow> \<exists>bs'. ring (fst st') l (as @ bs')"
  shows "list_iterate_reverse l off body st = Some (visit body off (rev xs) st)"
proof -
  have "iterate_reverse_loop body off l (hd (rev xs @ [l])) st = Some (visit body off (rev xs) st)"
  proof (rule iterate_reverse_loop_visit [where J = "\<lambda>as st. \<exists>bs. ring (fst st) l (rev as @ bs)"])
    show "l \<notin> set (rev xs)" using assms(1) by (simp add: ring_def)
    show "\<exists>bs. ring (fst st) l (rev (rev xs) @ bs)" using assms(1) by (intro exI [of _ "[]"]) simp
  next
    fix x as and st :: "'a mem_scheme \<times> 'b"
    assume "\<exists>bs. ring (fst st) l (rev (x # as) @ bs)"
    then obtain bs where "ring (fst st) l (rev as @ x # bs)" by auto
    moreover have "last (l # rev as) = hd (as @ [l])" by (cases as) simp_all
    ultimately show "get_prev x (fst st) = Inr (hd (as @ [l]))" using ring_get_prev by metis
  next
    fix x as and st st' :: "'a mem_scheme \<times> 'b"
    assume r: "\<exists>bs. ring (fst st) l (rev (x # as) @ bs)" and b: "body (list_item x off) st = Inr (st', None)"
    from r obtain bs where "ring (fst st) l (rev as @ x # bs)" by auto
    from assms(2) [OF this b] show "\<exists>bs. ring (fst st') l (rev as @ bs)" .
  qed
  moreover have "get_prev l (fst st) = Inr (hd (rev xs @ [l]))"
    using live_fields(4) [OF ring_live [OF assms(1)] ring_prev [OF assms(1)]]
    by (cases xs rule: rev_cases) simp_all
  ultimately show ?thesis by (simp add: list_iterate_reverse_def)
qed

text \<open>
  The condition under which the code after \<open>list_iterate_begin\<close> may run: with a client's invariant \<open>I\<close> of the
  elements still to come, each call leaves their links \<open>f\<close> as they are and does not release them.  What it does to
  the element it was given, which is no longer among them, is its own affair.
\<close>

definition spares :: "('a mem_scheme \<Rightarrow> addr \<rightharpoonup> addr) \<Rightarrow> ('a, 's, 'r) body \<Rightarrow> nat
    \<Rightarrow> (addr list \<Rightarrow> 'a mem_scheme \<times> 's \<Rightarrow> bool) \<Rightarrow> bool" where
  "spares f body off I \<longleftrightarrow> (\<forall>x bs st st'. I (x # bs) st \<and> body (list_item x off) st = Inr (st', None)
     \<longrightarrow> I bs st' \<and> (\<forall>b \<in> set bs. live (fst st) b \<longrightarrow> live (fst st') b \<and> f (fst st') b = f (fst st) b))"

text \<open>The chain of the links \<open>f\<close> from an element to the head.\<close>

definition chain :: "('a mem_scheme \<Rightarrow> addr \<rightharpoonup> addr) \<Rightarrow> addr \<Rightarrow> addr list \<Rightarrow> 'a mem_scheme \<Rightarrow> bool" where
  "chain f l bs m \<longleftrightarrow> (\<forall>b \<in> set bs. live m b) \<and> (\<forall>as x cs. bs = as @ x # cs \<longrightarrow> f m x = Some (hd (cs @ [l])))"

lemma chain_first: "chain f l (x # bs) m \<Longrightarrow> live m x \<and> f m x = Some (hd (bs @ [l]))"
  by (auto simp: chain_def)

lemma spares_chain:
  assumes "spares f body off I" and "I (x # bs) st \<and> chain f l (x # bs) (fst st)"
    and "body (list_item x off) st = Inr (st', None)"
  shows "I bs st' \<and> chain f l bs (fst st')"
proof -
  from assms have s: "I bs st'" "\<forall>b \<in> set bs. live (fst st) b \<longrightarrow> live (fst st') b \<and> f (fst st') b = f (fst st) b"
    unfolding spares_def by blast+
  from assms(2) have c: "\<forall>b \<in> set bs. live (fst st) b" "f (fst st) y = Some (hd (cs @ [l]))" if "bs = as @ y # cs" for as y cs
    using that by (auto simp: chain_def)
  have "f (fst st') y = Some (hd (cs @ [l]))" if "bs = as @ y # cs" for as y cs
    using s(2) c [OF that] that by simp
  moreover have "\<forall>b \<in> set bs. live (fst st) b" using assms(2) by (simp add: chain_def)
  ultimately show ?thesis using s by (auto simp: chain_def)
qed

lemma ring_chain:
  assumes "ring m l xs"
  shows "chain l_next l xs m" and "chain l_prev l (rev xs) m"
proof -
  have n: "l_next m x = Some (hd (cs @ [l]))" if "xs = as @ x # cs" for as x cs
  proof -
    have "get_next x m = Inr (hd (cs @ [l]))" using ring_get_next assms that by blast
    then show ?thesis by (auto simp: get_next_def read_field_def bindE_Inr_iff split: option.splits)
  qed
  have p: "l_prev m x = Some (hd (cs @ [l]))" if "rev xs = as @ x # cs" for as x cs
  proof -
    have "xs = rev cs @ x # rev as" using that by (metis append.assoc append_Cons append_Nil rev.simps(2) rev_append rev_rev_ident)
    then have "get_prev x m = Inr (last (l # rev cs))" using ring_get_prev assms by blast
    moreover have "last (l # rev cs) = hd (cs @ [l])" by (cases cs) simp_all
    ultimately show ?thesis by (auto simp: get_prev_def read_field_def bindE_Inr_iff split: option.splits)
  qed
  show "chain l_next l xs m" "chain l_prev l (rev xs) m" using n p ring_live [OF assms] by (auto simp: chain_def)
qed

lemma list_iterate_spares:
  assumes "ring (fst st) l xs" and "I xs st" and "spares l_next body off I"
  shows "list_iterate l off body st = Some (visit body off xs st)"
proof -
  have "iterate_loop body off l (hd (xs @ [l])) st = Some (visit body off xs st)"
  proof (rule iterate_loop_visit [where J = "\<lambda>bs st. I bs st \<and> chain l_next l bs (fst st)"])
    show "l \<notin> set xs" using assms(1) by (simp add: ring_def)
  qed (use assms ring_chain(1) [OF assms(1)] chain_first live_fields(3) spares_chain in blast)+
  moreover have "get_next l (fst st) = Inr (hd (xs @ [l]))"
    using live_fields(3) [OF ring_live [OF assms(1)] ring_next [OF assms(1)]] by simp
  ultimately show ?thesis by (simp add: list_iterate_def)
qed

lemma list_iterate_reverse_spares:
  assumes "ring (fst st) l xs" and "I (rev xs) st" and "spares l_prev body off I"
  shows "list_iterate_reverse l off body st = Some (visit body off (rev xs) st)"
proof -
  have "iterate_reverse_loop body off l (hd (rev xs @ [l])) st = Some (visit body off (rev xs) st)"
  proof (rule iterate_reverse_loop_visit [where J = "\<lambda>bs st. I bs st \<and> chain l_prev l bs (fst st)"])
    show "l \<notin> set (rev xs)" using assms(1) by (simp add: ring_def)
  qed (use assms ring_chain(2) [OF assms(1)] chain_first live_fields(4) spares_chain in blast)+
  moreover have "get_prev l (fst st) = Inr (hd (rev xs @ [l]))"
    using live_fields(4) [OF ring_live [OF assms(1)] ring_prev [OF assms(1)]]
    by (cases xs rule: rev_cases) simp_all
  ultimately show ?thesis by (simp add: list_iterate_reverse_def)
qed

text \<open>Bodies that leave the list alone, or remove the element, spare the others.\<close>

lemma spares_unchanged:
  assumes "\<And>x st st'. body x st = Inr (st', None) \<Longrightarrow> blocks (fst st') = blocks (fst st) \<and> f (fst st') = f (fst st)"
  shows "spares f body off (\<lambda>bs st. True)"
proof -
  have "live (fst st') = live (fst st) \<and> f (fst st') = f (fst st)" if "body x st = Inr (st', None)" for x st st'
    using assms [OF that] by (simp add: live_def owned_def fun_eq_iff)
  then show ?thesis by (auto simp: spares_def)
qed

lemma spares_removal:
  assumes "\<And>as x bs st st'. ring (fst st) l (as @ x # bs) \<Longrightarrow> body (list_item x off) st = Inr (st', None)
      \<Longrightarrow> ring (fst st') l (as @ bs)"
  shows "spares l_next body off (\<lambda>bs st. \<exists>as. ring (fst st) l (as @ bs))"
  unfolding spares_def
proof (intro allI impI, elim conjE exE)
  fix x bs st st' as
  assume r: "ring (fst st) l (as @ x # bs)" and b: "body (list_item x off) st = Inr (st', None)"
  have r': "ring (fst st') l (as @ bs)" by (rule assms [OF r b])
  have "live (fst st') y \<and> l_next (fst st') y = l_next (fst st) y" if y: "y \<in> set bs" for y
  proof -
    obtain cs ds where bs: "bs = cs @ y # ds" using y by (meson split_list)
    have "chain l_next l (as @ x # bs) (fst st)" "chain l_next l (as @ bs) (fst st')"
      using ring_chain(1) r r' by blast+
    moreover have "as @ x # bs = (as @ x # cs) @ y # ds" "as @ bs = (as @ cs) @ y # ds" using bs by simp_all
    ultimately have "l_next (fst st) y = Some (hd (ds @ [l]))" "l_next (fst st') y = Some (hd (ds @ [l]))"
      unfolding chain_def by blast+
    moreover have "live (fst st') y" using ring_live [OF r'] y by simp
    ultimately show ?thesis by simp
  qed
  with r' show "(\<exists>as. ring (fst st') l (as @ bs))
      \<and> (\<forall>b \<in> set bs. live (fst st) b \<longrightarrow> live (fst st') b \<and> l_next (fst st') b = l_next (fst st) b)" by blast
qed

section \<open>The list as an abstract sequence\<close>

text \<open>
  C37: a list in memory is the sequence of its links from the head.  Inserting at the head, at the tail
  or before an element, and removing an element, the first or the last one, do this to the sequence and
  touch no other memory; \<open>list_empty\<close> says whether the sequence is empty.  None of them faults.
\<close>

theorem list_ops_refine:
  assumes "ring m l (xs @ ys)" and "live m new" and "new \<notin> set (l # xs @ ys)"
  shows "(\<exists>m'. list_insert_before (hd (ys @ [l])) new m = Inr m' \<and> ring m' l (xs @ new # ys)
        \<and> same_outside (set (l # new # xs @ ys)) m m'
        \<and> (\<exists>m''. list_remove new m' = Inr m'' \<and> ring m'' l (xs @ ys) \<and> same_outside (set (l # new # xs @ ys)) m' m''))
    \<and> (\<exists>m'. list_insert_head l new m = Inr m' \<and> ring m' l (new # xs @ ys)
        \<and> (\<exists>m''. list_remove_head l m' = Inr m'' \<and> ring m'' l (xs @ ys)))
    \<and> (\<exists>m'. list_insert_tail l new m = Inr m' \<and> ring m' l (xs @ ys @ [new])
        \<and> (\<exists>m''. list_remove_tail l m' = Inr m'' \<and> ring m'' l (xs @ ys)))
    \<and> list_empty l m = Inr (xs @ ys = [])"
proof (intro conjI)
  show "list_empty l m = Inr (xs @ ys = [])" by (rule list_empty_ring [OF assms(1)])
qed (use list_insert_before_ring [OF assms] list_insert_head_ring [OF assms] list_insert_tail_ring [OF assms]
    list_remove_ring [of _ l xs new ys] list_remove_head_ring [of _ l new "xs @ ys"]
    list_remove_tail_ring [of _ l "xs @ ys" new] in \<open>(fastforce simp: append_assoc)+\<close>)

text \<open>A head at 16 with the elements 32 and 48, and an unlinked element at 64.\<close>

definition sample_mem :: mem where
  "sample_mem = \<lparr>blocks = [(16, 64)], l_next = [16 \<mapsto> 32, 32 \<mapsto> 48, 48 \<mapsto> 16],
     l_prev = [32 \<mapsto> 16, 48 \<mapsto> 32, 16 \<mapsto> 48]\<rparr>"

lemma sample_ring: "ring sample_mem 16 ([32] @ [48])"
  by (simp add: ring_def live_def owned_def sample_mem_def sizeof_list_def)

theorem list_ops_refine_witness:
  "\<exists>m'. list_insert_before 48 64 sample_mem = Inr m' \<and> ring m' 16 [32, 64, 48]"
proof -
  have "live sample_mem 64" "64 \<notin> set (16 # [32] @ [48::nat])"
    by (simp_all add: live_def owned_def sample_mem_def sizeof_list_def)
  from list_ops_refine [OF sample_ring this] show ?thesis by auto
qed

text \<open>
  C38: iterating over a list ends, in either direction, and runs the body on the elements the list
  had at the start, in order, up to the first one at which the body returns or faults; as long as each call of the
  body leaves the elements still to come alone: it does not write their links nor release them.  It may unlink the
  element it was given, or release it without unlinking it, because the link to the next one was read before.
\<close>

theorem list_iterate_ends:
  assumes "ring (fst st) l xs"
  shows "(I xs st \<and> spares l_next body off I \<longrightarrow> list_iterate l off body st = Some (visit body off xs st))
    \<and> (I (rev xs) st \<and> spares l_prev body off I
        \<longrightarrow> list_iterate_reverse l off body st = Some (visit body off (rev xs) st))"
  using list_iterate_spares [OF assms] list_iterate_reverse_spares [OF assms] by blast

text \<open>A body that removes every element and notes it, and one that releases the block of every element.\<close>

definition unlink_all :: "(unit, addr list, unit) body" where
  "unlink_all x st = bindE (list_remove x (fst st)) (\<lambda>m'. Inr ((m', snd st @ [x]), None))"

definition release_all :: "(unit, addr list, unit) body" where
  "release_all x st = (if list_ex (\<lambda>(b, s). b = x) (blocks (fst st))
     then Inr (((fst st)\<lparr>blocks := filter (\<lambda>(b, s). b \<noteq> x) (blocks (fst st))\<rparr>, snd st @ [x]), None) else Inl Bad_Free)"

definition sample_blocks :: mem where
  "sample_blocks = sample_mem\<lparr>blocks := [(16, 16), (32, 16), (48, 16)]\<rparr>"

definition own_blocks :: "addr list \<Rightarrow> mem \<times> addr list \<Rightarrow> bool" where
  "own_blocks bs st \<longleftrightarrow> distinct bs \<and> (\<forall>b \<in> set bs. b \<noteq> 0 \<and> (b, sizeof_list) \<in> set (blocks (fst st)))"

lemma release_all_spares:
  "spares l_next release_all 0 own_blocks" "spares l_prev release_all 0 own_blocks"
proof -
  have live: "live m b" if "b \<noteq> 0" "(b, sizeof_list) \<in> set (blocks m)" for m :: mem and b
    using that by (auto simp: live_def owned_def list_ex_iff intro!: bexI [of _ "(b, sizeof_list)"])
  have "own_blocks bs st' \<and> (\<forall>b \<in> set bs. live (fst st') b) \<and> l_next (fst st') = l_next (fst st) \<and> l_prev (fst st') = l_prev (fst st)"
    if "own_blocks (x # bs) st" "release_all (list_item x 0) st = Inr (st', None)" for x bs st st'
  proof -
    have "own_blocks bs st' \<and> l_next (fst st') = l_next (fst st) \<and> l_prev (fst st') = l_prev (fst st)"
      using that by (auto simp: own_blocks_def release_all_def list_item_def split: if_splits)
    then show ?thesis using live by (auto simp: own_blocks_def)
  qed
  then show "spares l_next release_all 0 own_blocks" "spares l_prev release_all 0 own_blocks"
    unfolding spares_def by (metis (no_types))+
qed

theorem list_iterate_ends_witness:
  "map_option (map_sum id (snd o fst)) (list_iterate 16 0 unlink_all (sample_mem, [])) = Some (Inr [32, 48])
   \<and> map_option (map_sum id fst) (list_iterate_reverse 16 0 release_all (sample_blocks, []))
     = Some (Inr (sample_blocks\<lparr>blocks := [(16, 16)]\<rparr>, [48, 32]))"
proof
  have "ring (fst (sample_mem, [])) 16 [32, 48]" using sample_ring by simp
  note u = list_iterate_ends [OF this, of "\<lambda>bs st. \<exists>as. ring (fst st) 16 (as @ bs)" unlink_all 0]
  have "spares l_next unlink_all 0 (\<lambda>bs st. \<exists>as. ring (fst st) 16 (as @ bs))"
    by (rule spares_removal) (use list_remove_ring in \<open>fastforce simp: unlink_all_def list_item_def bindE_Inr_iff\<close>)
  moreover have "\<exists>as. ring (fst (sample_mem, [] :: addr list)) 16 (as @ [32, 48])"
    using sample_ring by (intro exI [of _ "[]"]) simp
  ultimately have "list_iterate 16 0 unlink_all (sample_mem, []) = Some (visit unlink_all 0 [32, 48] (sample_mem, []))"
    using u by blast
  then show "map_option (map_sum id (snd o fst)) (list_iterate 16 0 unlink_all (sample_mem, [])) = Some (Inr [32, 48])"
    by (simp add: unlink_all_def list_item_def list_remove_def get_prev_def get_next_def read_field_def access_def
        set_next_def set_prev_def owned_def sample_mem_def sizeof_list_def)
next
  have "ring (fst (sample_blocks, [])) 16 [32, 48]"
    by (simp add: ring_def live_def owned_def sample_blocks_def sample_mem_def sizeof_list_def)
  note f = list_iterate_ends [OF this, of own_blocks release_all 0]
  have "own_blocks (rev [32, 48]) (sample_blocks, [])" by (simp add: own_blocks_def sample_blocks_def sizeof_list_def)
  with f release_all_spares have "list_iterate_reverse 16 0 release_all (sample_blocks, [])
      = Some (visit release_all 0 (rev [32, 48]) (sample_blocks, []))" by blast
  then show "map_option (map_sum id fst) (list_iterate_reverse 16 0 release_all (sample_blocks, []))
      = Some (Inr (sample_blocks\<lparr>blocks := [(16, 16)]\<rparr>, [48, 32]))"
    by (simp add: release_all_def list_item_def sample_blocks_def)
qed

end
