(* ===== verification/Htable.thy ===== *)
theory Htable
  imports Linked_List Std_Map
begin

text \<open>
  \<open>src/htable.c\<close> and \<open>src/htable.h\<close>: a hash table with a fixed number of buckets, each a list of
  \<open>src/list.h\<close> through the nodes.  The address \<open>malloc\<close> returns is an argument of the operations that call
  it, \<open>0\<close> when it fails.  \<open>void *\<close> data are addresses.  Operations that search a bucket return \<open>None\<close>
  when the search does not end.
\<close>

section \<open>Memory and the allocator\<close>

record hmem = mem +
  hn_id :: "addr \<rightharpoonup> u32"
  hn_data :: "addr \<rightharpoonup> addr"

record htable =
  ht_hash :: addr
  ht_size :: u32
  ht_cap :: u32

text \<open>A node is its link, at offset 0, the number and the data pointer.\<close>

definition hn_link_offset :: nat where "hn_link_offset = 0"
definition sizeof_node :: nat where "sizeof_node = 32"

text \<open>The contents of fresh and of released memory are indeterminate.\<close>

definition forget :: "addr \<Rightarrow> nat \<Rightarrow> (addr \<rightharpoonup> 'c) \<Rightarrow> (addr \<rightharpoonup> 'c)" where
  "forget p s f = (\<lambda>a. if p \<le> a \<and> a < p + s then None else f a)"

definition forget_all :: "addr \<Rightarrow> nat \<Rightarrow> hmem \<Rightarrow> hmem" where
  "forget_all p s m = m\<lparr>l_next := forget p s (l_next m), l_prev := forget p s (l_prev m),
     hn_id := forget p s (hn_id m), hn_data := forget p s (hn_data m)\<rparr>"

definition malloc :: "addr \<Rightarrow> nat \<Rightarrow> hmem \<Rightarrow> hmem" where
  "malloc p s m = (if p = 0 then m else forget_all p s (m\<lparr>blocks := (p, s) # blocks m\<rparr>))"

definition free :: "addr \<Rightarrow> hmem \<Rightarrow> fault + hmem" where
  "free p m = (if p = 0 then Inr m
     else case map_of (blocks m) p of
       None \<Rightarrow> Inl Bad_Free
     | Some s \<Rightarrow> Inr (forget_all p s (m\<lparr>blocks := filter (\<lambda>x. fst x \<noteq> p) (blocks m)\<rparr>)))"

definition get_id :: "addr \<Rightarrow> hmem \<Rightarrow> fault + u32" where
  "get_id hn m = read_field m hn sizeof_node (hn_id m)"

definition get_data :: "addr \<Rightarrow> hmem \<Rightarrow> fault + addr" where
  "get_data hn m = read_field m hn sizeof_node (hn_data m)"

definition set_id :: "addr \<Rightarrow> u32 \<Rightarrow> hmem \<Rightarrow> fault + hmem" where
  "set_id hn x m = bindE (access m hn sizeof_node) (\<lambda>_. Inr (m\<lparr>hn_id := (hn_id m)(hn \<mapsto> x)\<rparr>))"

definition set_data :: "addr \<Rightarrow> addr \<Rightarrow> hmem \<Rightarrow> fault + hmem" where
  "set_data hn x m = bindE (access m hn sizeof_node) (\<lambda>_. Inr (m\<lparr>hn_data := (hn_data m)(hn \<mapsto> x)\<rparr>))"

section \<open>The operations\<close>

text \<open>\<open>&ht->ht_hash[i]\<close>, and the bucket of a number.\<close>

definition bucket_at :: "addr \<Rightarrow> nat \<Rightarrow> addr" where
  "bucket_at hash i = hash + sizeof_list * i"

definition bucket :: "htable \<Rightarrow> u32 \<Rightarrow> fault + addr" where
  "bucket ht key = (if ht_cap ht = 0 then Inl Div_By_Zero
     else Inr (bucket_at (ht_hash ht) (unat (key mod ht_cap ht))))"

fun htable_init_loop :: "addr \<Rightarrow> nat \<Rightarrow> nat \<Rightarrow> hmem \<Rightarrow> fault + hmem" where
  "htable_init_loop hash i 0 m = Inr m"
| "htable_init_loop hash i (Suc left) m =
     bindE (list_init (bucket_at hash i) m) (htable_init_loop hash (Suc i) left)"

definition htable_init :: "addr \<Rightarrow> u32 \<Rightarrow> hmem \<Rightarrow> fault + htable \<times> hmem" where
  "htable_init p cap m =
     (let m = malloc p (sizeof_list * unat cap) m;
          ht = \<lparr>ht_hash = p, ht_size = 0, ht_cap = cap\<rparr>
      in bindE (htable_init_loop p 0 (unat cap) m) (\<lambda>m. Inr (ht, m)))"

text \<open>The search of a bucket; \<open>0\<close> when no node has the number.\<close>

definition lookup_body :: "u32 \<Rightarrow> (unit hmem_ext, unit, addr) body" where
  "lookup_body key hn st = bindE (get_id hn (fst st)) (\<lambda>k. Inr (st, if k = key then Some hn else None))"

definition htable_lookup :: "htable \<Rightarrow> u32 \<Rightarrow> hmem \<Rightarrow> (fault + addr) option" where
  "htable_lookup ht key m =
     (case bucket ht key of
        Inl f \<Rightarrow> Some (Inl f)
      | Inr l \<Rightarrow> map_option (\<lambda>res. bindE res (\<lambda>(st, r). Inr (case r of Some hn \<Rightarrow> hn | None \<Rightarrow> 0)))
          (list_iterate l hn_link_offset (lookup_body key) (m, ())))"

definition htable_get :: "htable \<Rightarrow> u32 \<Rightarrow> hmem \<Rightarrow> (fault + addr) option" where
  "htable_get ht key m = map_option (\<lambda>res. bindE res (\<lambda>hn.
     if hn \<noteq> 0 then get_data hn m else Inr 0)) (htable_lookup ht key m)"

text \<open>\<open>p\<close> is what \<open>malloc\<close> returns, if it is called.\<close>

definition htable_put :: "addr \<Rightarrow> htable \<Rightarrow> u32 \<Rightarrow> addr \<Rightarrow> hmem \<Rightarrow> (fault + addr \<times> htable \<times> hmem) option" where
  "htable_put p ht key data m = map_option (\<lambda>res. bindE res (\<lambda>hn.
     let old = 0
     in bindE (if hn = 0 then
                 let m = malloc p sizeof_node m; hn = p
                 in bindE (set_id hn key m) (\<lambda>m. bindE (bucket ht key) (\<lambda>l.
                    bindE (list_insert_head l (hn + hn_link_offset) m) (\<lambda>m.
                    Inr (hn, old, ht\<lparr>ht_size := ht_size ht + 1\<rparr>, m))))
               else bindE (get_data hn m) (\<lambda>old. Inr (hn, old, ht, m)))
          (\<lambda>(hn, old, ht, m). bindE (set_data hn data m) (\<lambda>m. Inr (old, ht, m)))))
     (htable_lookup ht key m)"

definition htable_remove :: "htable \<Rightarrow> u32 \<Rightarrow> hmem \<Rightarrow> (fault + addr \<times> htable \<times> hmem) option" where
  "htable_remove ht key m = map_option (\<lambda>res. bindE res (\<lambda>hn.
     if hn \<noteq> 0 then
       bindE (get_data hn m) (\<lambda>data. bindE (list_remove (hn + hn_link_offset) m) (\<lambda>m.
       bindE (free hn m) (\<lambda>m. Inr (data, ht\<lparr>ht_size := ht_size ht - 1\<rparr>, m))))
     else Inr (0, ht, m))) (htable_lookup ht key m)"

text \<open>The loop over the buckets with the loop over a bucket inside, as in \<open>htable_iterate_begin\<close>.\<close>

fun buckets_loop :: "(unit hmem_ext, 's, 'r) body \<Rightarrow> addr \<Rightarrow> nat \<Rightarrow> nat \<Rightarrow> hmem \<times> 's
    \<Rightarrow> (fault + (hmem \<times> 's) \<times> 'r option) option" where
  "buckets_loop body hash i 0 st = Some (Inr (st, None))"
| "buckets_loop body hash i (Suc left) st =
     (case list_iterate (bucket_at hash i) hn_link_offset body st of
        None \<Rightarrow> None
      | Some (Inl f) \<Rightarrow> Some (Inl f)
      | Some (Inr (st', Some r)) \<Rightarrow> Some (Inr (st', Some r))
      | Some (Inr (st', None)) \<Rightarrow> buckets_loop body hash (Suc i) left st')"

definition free_body :: "(unit hmem_ext, unit, unit) body" where
  "free_body hn st = bindE (free hn (fst st)) (\<lambda>m. Inr ((m, ()), None))"

definition htable_destroy :: "htable \<Rightarrow> hmem \<Rightarrow> (fault + hmem) option" where
  "htable_destroy ht m = map_option (\<lambda>res. bindE res (\<lambda>(st, r). free (ht_hash ht) (fst st)))
     (buckets_loop free_body (ht_hash ht) 0 (unat (ht_cap ht)) (m, ()))"

text \<open>\<open>htable_iterate_begin\<close> and \<open>htable_iterate_end\<close> around code that gets the key and the data.\<close>

definition entry_body :: "(u32 \<Rightarrow> addr \<Rightarrow> hmem \<times> 's \<Rightarrow> fault + (hmem \<times> 's) \<times> 'r option) \<Rightarrow> (unit hmem_ext, 's, 'r) body" where
  "entry_body f hn st = bindE (get_data hn (fst st)) (\<lambda>d. bindE (get_id hn (fst st)) (\<lambda>k. f k d st))"

definition htable_iterate ::
  "htable \<Rightarrow> (u32 \<Rightarrow> addr \<Rightarrow> hmem \<times> 's \<Rightarrow> fault + (hmem \<times> 's) \<times> 'r option) \<Rightarrow> hmem \<times> 's
     \<Rightarrow> (fault + (hmem \<times> 's) \<times> 'r option) option" where
  "htable_iterate ht f st = buckets_loop (entry_body f) (ht_hash ht) 0 (unat (ht_cap ht)) st"

section \<open>The invariant\<close>

text \<open>Live blocks do not overlap.  What \<open>malloc\<close> promises of the address of a new block.\<close>

definition apart :: "addr \<times> nat \<Rightarrow> addr \<times> nat \<Rightarrow> bool" where
  "apart x y \<longleftrightarrow> fst x \<noteq> fst y \<and> (fst x + snd x \<le> fst y \<or> fst y + snd y \<le> fst x)"

definition fresh :: "addr \<Rightarrow> nat \<Rightarrow> hmem \<Rightarrow> bool" where
  "fresh p s m \<longleftrightarrow> p \<noteq> 0 \<and> list_all (apart (p, s)) (blocks m)"

definition heap_ok :: "hmem \<Rightarrow> bool" where
  "heap_ok m \<longleftrightarrow> sorted_wrt apart (blocks m) \<and> list_all (\<lambda>x. fst x \<noteq> 0) (blocks m)"

text \<open>The table whose bucket \<open>i\<close> holds the nodes \<open>bs ! i\<close>.\<close>

definition node_ok :: "hmem \<Rightarrow> u32 \<Rightarrow> nat \<Rightarrow> addr \<Rightarrow> bool" where
  "node_ok m cap i hn \<longleftrightarrow> (hn, sizeof_node) \<in> set (blocks m)
     \<and> (\<exists>k d. hn_id m hn = Some k \<and> hn_data m hn = Some d \<and> unat (k mod cap) = i)"

definition assocs :: "hmem \<Rightarrow> addr list \<Rightarrow> (u32 \<times> addr) list" where
  "assocs m hns = map (\<lambda>hn. (the (hn_id m hn), the (hn_data m hn))) hns"

definition bucket_ok :: "htable \<Rightarrow> hmem \<Rightarrow> nat \<Rightarrow> addr list \<Rightarrow> bool" where
  "bucket_ok ht m i hns \<longleftrightarrow> ring m (bucket_at (ht_hash ht) i) hns
     \<and> (\<forall>hn \<in> set hns. node_ok m (ht_cap ht) i hn \<and> hn \<noteq> ht_hash ht) \<and> distinct (map fst (assocs m hns))"

definition table_ok :: "htable \<Rightarrow> hmem \<Rightarrow> addr list list \<Rightarrow> bool" where
  "table_ok ht m bs \<longleftrightarrow> ht_cap ht \<noteq> 0 \<and> length bs = unat (ht_cap ht) \<and> heap_ok m
     \<and> (ht_hash ht, sizeof_list * unat (ht_cap ht)) \<in> set (blocks m)
     \<and> (\<forall>i < length bs. bucket_ok ht m i (bs ! i))
     \<and> ht_size ht = of_nat (length (concat bs))"

definition table_map :: "htable \<Rightarrow> hmem \<Rightarrow> addr list list \<Rightarrow> u32 \<rightharpoonup> addr" where
  "table_map ht m bs key = map_of (assocs m (bs ! unat (key mod ht_cap ht))) key"

text \<open>The live blocks that do not belong to the table.\<close>

definition rest_blocks :: "htable \<Rightarrow> hmem \<Rightarrow> addr list list \<Rightarrow> (addr \<times> nat) list" where
  "rest_blocks ht m bs = filter (\<lambda>x. fst x \<notin> insert (ht_hash ht) (set (concat bs))) (blocks m)"

section \<open>Blocks\<close>

lemma apart_sym: "apart x y = apart y x"
  by (auto simp: apart_def)

lemma heap_ok_apart: "heap_ok m \<Longrightarrow> x \<in> set (blocks m) \<Longrightarrow> y \<in> set (blocks m) \<Longrightarrow> x = y \<or> apart x y"
  unfolding heap_ok_def by (auto simp: in_set_conv_nth sorted_wrt_iff_nth_less) (metis apart_sym linorder_neqE_nat)

lemma heap_ok_bases: "heap_ok m \<Longrightarrow> distinct (map fst (blocks m))"
  unfolding heap_ok_def
  by (auto simp: distinct_conv_nth sorted_wrt_iff_nth_less apart_def) (metis linorder_neqE_nat)

lemma heap_ok_base: "heap_ok m \<Longrightarrow> (p, s) \<in> set (blocks m) \<Longrightarrow> p \<noteq> 0"
  by (auto simp: heap_ok_def list_all_iff)

lemma heap_ok_malloc: "heap_ok m \<Longrightarrow> fresh p s m \<Longrightarrow> heap_ok (malloc p s m)"
  by (simp add: heap_ok_def fresh_def malloc_def forget_all_def list_all_iff)

lemma blocks_malloc: "fresh p s m \<Longrightarrow> blocks (malloc p s m) = (p, s) # blocks m"
  by (simp add: fresh_def malloc_def forget_all_def)

lemma free_block:
  assumes "heap_ok m" and "(p, s) \<in> set (blocks m)"
  shows "free p m = Inr (forget_all p s (m\<lparr>blocks := filter (\<lambda>x. fst x \<noteq> p) (blocks m)\<rparr>))"
  using heap_ok_base [OF assms] map_of_eq_Some_iff [OF heap_ok_bases [OF assms(1)], of p s] assms(2)
  by (simp add: free_def)

lemma heap_ok_filter: "heap_ok m \<Longrightarrow> heap_ok (m\<lparr>blocks := filter P (blocks m)\<rparr>)"
  by (auto simp: heap_ok_def list_all_iff sorted_wrt_filter)

lemma heap_ok_cong: "blocks m' = blocks m \<Longrightarrow> heap_ok m' = heap_ok m"
  by (simp add: heap_ok_def)

text \<open>A live link is outside a fresh block, and outside a block that ends elsewhere.\<close>

lemma live_outside:
  assumes "live m x" and "fresh p s m"
  shows "\<not> (p \<le> x \<and> x < p + s)"
  using assms by (auto simp: live_def owned_def fresh_def list_ex_iff list_all_iff apart_def sizeof_list_def)

lemma malloc_same:
  assumes "live m x" and "fresh p s m"
  shows "live (malloc p s m) x" and "l_next (malloc p s m) x = l_next m x" and "l_prev (malloc p s m) x = l_prev m x"
    and "hn_id (malloc p s m) x = hn_id m x" and "hn_data (malloc p s m) x = hn_data m x"
  using assms live_outside [OF assms]
  by (auto simp: malloc_def fresh_def forget_all_def forget_def live_def owned_def)

lemma malloc_live: "fresh p s m \<Longrightarrow> sizeof_list \<le> s \<Longrightarrow> live (malloc p s m) p"
  by (auto simp: malloc_def fresh_def forget_all_def live_def owned_def)

lemma free_same:
  assumes "heap_ok m" and "(p, s) \<in> set (blocks m)" and "live m x" and "\<not> (p \<le> x \<and> x < p + s)"
    and "free p m = Inr m'"
  shows "live m' x" and "l_next m' x = l_next m x" and "l_prev m' x = l_prev m x"
    and "hn_id m' x = hn_id m x" and "hn_data m' x = hn_data m x"
proof -
  from assms(3) obtain b t where b: "(b, t) \<in> set (blocks m)" "b \<le> x" "x + sizeof_list \<le> b + t" "x \<noteq> 0"
    by (auto simp: live_def owned_def list_ex_iff)
  have "b \<noteq> p"
  proof
    assume "b = p"
    then have "t = s" using b(1) assms(2) eq_key_imp_eq_value [OF heap_ok_bases [OF assms(1)]] by blast
    with b assms(4) \<open>b = p\<close> show False by (simp add: sizeof_list_def)
  qed
  moreover have m': "m' = forget_all p s (m\<lparr>blocks := filter (\<lambda>x. fst x \<noteq> p) (blocks m)\<rparr>)"
    using free_block [OF assms(1,2)] assms(5) by simp
  ultimately show "live m' x" using b by (force simp: live_def owned_def list_ex_iff forget_all_def)
  show "l_next m' x = l_next m x" "l_prev m' x = l_prev m x" "hn_id m' x = hn_id m x" "hn_data m' x = hn_data m x"
    using assms(4) by (auto simp: m' forget_all_def forget_def)
qed

lemma ring_cong:
  assumes "ring m l xs"
    and "\<And>x. x \<in> set (l # xs) \<Longrightarrow> live m x \<Longrightarrow> live m' x \<and> l_next m' x = l_next m x \<and> l_prev m' x = l_prev m x"
  shows "ring m' l xs"
proof -
  have "live m x" if "x \<in> set (l # xs)" for x using assms(1) that by (rule ring_live)
  note eq = assms(2) [OF _ this]
  have "linked m' (l # xs @ [l]) = linked m (l # xs @ [l])"
    by (rule linked_cong) (use eq in \<open>auto simp: butlast_append dest: in_set_butlastD\<close>)
  with assms(1) eq show ?thesis by (auto simp: ring_def)
qed

section \<open>Buckets\<close>

lemma bucket_ok_cong:
  assumes "bucket_ok ht m i hns" and "ht_hash ht' = ht_hash ht" and "ht_cap ht' = ht_cap ht"
    and "\<And>x. x \<in> set (bucket_at (ht_hash ht) i # hns) \<Longrightarrow> live m x
      \<Longrightarrow> live m' x \<and> l_next m' x = l_next m x \<and> l_prev m' x = l_prev m x"
    and "\<And>x. x \<in> set hns \<Longrightarrow> (x, sizeof_node) \<in> set (blocks m) \<Longrightarrow>
      (x, sizeof_node) \<in> set (blocks m') \<and> hn_id m' x = hn_id m x \<and> (hn_data m x \<noteq> None \<longrightarrow> hn_data m' x \<noteq> None)"
  shows "bucket_ok ht' m' i hns"
proof -
  have "ring m' (bucket_at (ht_hash ht) i) hns"
    by (rule ring_cong [of m]) (use assms(1,4) in \<open>simp_all add: bucket_ok_def\<close>)
  moreover have "node_ok m' (ht_cap ht) i hn \<and> hn \<noteq> ht_hash ht" if "hn \<in> set hns" for hn
    using assms(1) assms(5) [OF that] that by (fastforce simp: bucket_ok_def node_ok_def)
  moreover have "map fst (assocs m' hns) = map fst (assocs m hns)"
    using assms(1,5) by (auto simp: bucket_ok_def node_ok_def assocs_def)
  ultimately show ?thesis using assms(1-3) by (simp add: bucket_ok_def)
qed

text \<open>The links of different buckets are different; nodes are not in the array of heads.\<close>

lemma node_away:
  assumes "table_ok ht m bs" and "i < length bs" and "hn \<in> set (bs ! i)" and "j < length bs"
  shows "\<not> (hn \<le> bucket_at (ht_hash ht) j \<and> bucket_at (ht_hash ht) j < hn + sizeof_node)"
    and "\<not> (ht_hash ht \<le> hn \<and> hn < ht_hash ht + sizeof_list * unat (ht_cap ht))"
proof -
  have b: "(hn, sizeof_node) \<in> set (blocks m)" "(ht_hash ht, sizeof_list * unat (ht_cap ht)) \<in> set (blocks m)"
    "hn \<noteq> ht_hash ht" "heap_ok m" "j < unat (ht_cap ht)"
    using assms by (auto simp: table_ok_def bucket_ok_def node_ok_def)
  then have "apart (hn, sizeof_node) (ht_hash ht, sizeof_list * unat (ht_cap ht))"
    using heap_ok_apart by blast
  then show "\<not> (hn \<le> bucket_at (ht_hash ht) j \<and> bucket_at (ht_hash ht) j < hn + sizeof_node)"
    "\<not> (ht_hash ht \<le> hn \<and> hn < ht_hash ht + sizeof_list * unat (ht_cap ht))"
    using b(5) by (auto simp: apart_def bucket_at_def sizeof_list_def sizeof_node_def)
qed

lemma node_bucket:
  assumes "table_ok ht m bs" and "i < length bs" and "j < length bs" and "hn \<in> set (bs ! i)" and "hn \<in> set (bs ! j)"
  shows "i = j"
proof -
  have "node_ok m (ht_cap ht) i hn" "node_ok m (ht_cap ht) j hn" using assms by (auto simp: table_ok_def bucket_ok_def)
  then show ?thesis by (auto simp: node_ok_def)
qed

lemma nodes_apart:
  assumes "table_ok ht m bs" and "i < length bs" and "j < length bs" and "hn \<in> set (bs ! i)" and "x \<in> set (bs ! j)" and "x \<noteq> hn"
  shows "\<not> (hn \<le> x \<and> x < hn + sizeof_node)"
proof -
  have "(hn, sizeof_node) \<in> set (blocks m)" "(x, sizeof_node) \<in> set (blocks m)" "heap_ok m"
    using assms by (auto simp: table_ok_def bucket_ok_def node_ok_def)
  then have "apart (hn, sizeof_node) (x, sizeof_node)" using heap_ok_apart assms(6) by blast
  then show ?thesis by (auto simp: apart_def sizeof_node_def)
qed

lemma cells_disjoint:
  assumes "table_ok ht m bs" and "i < length bs" and "j < length bs" and "i \<noteq> j"
    and "x \<in> set (bucket_at (ht_hash ht) j # bs ! j)"
  shows "x \<notin> set (bucket_at (ht_hash ht) i # bs ! i)"
proof -
  have "length bs = unat (ht_cap ht)" using assms(1) by (simp add: table_ok_def)
  then have "\<not> (ht_hash ht \<le> hn \<and> hn < ht_hash ht + sizeof_list * length bs)"
    if "k < length bs" "hn \<in> set (bs ! k)" for k hn
    using node_away(2) [OF assms(1) that that(1)] by simp
  moreover have "ht_hash ht \<le> bucket_at (ht_hash ht) k \<and> bucket_at (ht_hash ht) k < ht_hash ht + sizeof_list * length bs"
    if "k < length bs" for k
    using that by (simp add: bucket_at_def sizeof_list_def)
  moreover have "bucket_at (ht_hash ht) i \<noteq> bucket_at (ht_hash ht) j" using assms(4) by (simp add: bucket_at_def sizeof_list_def)
  ultimately show ?thesis using node_bucket [OF assms(1-3)] assms(2-5) by auto
qed

lemma table_bucket:
  assumes "table_ok ht m bs"
  shows "bucket ht key = Inr (bucket_at (ht_hash ht) (unat (key mod ht_cap ht)))"
    and "unat (key mod ht_cap ht) < length bs"
  using assms by (simp_all add: table_ok_def bucket_def unat_mod unat_gt_0 word_neq_0_conv [symmetric])

lemma map_of_assocs:
  assumes "\<forall>hn \<in> set hns. hn_id m hn \<noteq> None \<and> hn_data m hn \<noteq> None"
  shows "map_of (assocs m hns) key = (case find (\<lambda>hn. hn_id m hn = Some key) hns of None \<Rightarrow> None | Some hn \<Rightarrow> hn_data m hn)"
  using assms by (induction hns) (auto simp: assocs_def)

lemma bucket_fields: "bucket_ok ht m i hns \<Longrightarrow> \<forall>hn \<in> set hns. hn_id m hn \<noteq> None \<and> hn_data m hn \<noteq> None"
  by (fastforce simp: bucket_ok_def node_ok_def)

lemma table_map_find:
  assumes "table_ok ht m bs"
  shows "table_map ht m bs key = (case find (\<lambda>hn. hn_id m hn = Some key) (bs ! unat (key mod ht_cap ht)) of
    None \<Rightarrow> None | Some hn \<Rightarrow> hn_data m hn)"
proof -
  have "bucket_ok ht m (unat (key mod ht_cap ht)) (bs ! unat (key mod ht_cap ht))"
    using assms table_bucket(2) [OF assms] by (simp add: table_ok_def)
  from map_of_assocs [OF bucket_fields [OF this]] show ?thesis by (simp add: table_map_def)
qed

section \<open>Searching and reading\<close>

lemma node_access:
  assumes "heap_ok m" and "(hn, sizeof_node) \<in> set (blocks m)"
  shows "access m hn sizeof_node = Inr ()" and "live m hn" and "hn \<noteq> 0"
proof -
  show "hn \<noteq> 0" using assms by (rule heap_ok_base)
  moreover have "owned m hn s" if "s \<le> sizeof_node" for s
    unfolding owned_def list_ex_iff by (rule bexI [OF _ assms(2)]) (use that in simp)
  ultimately show "access m hn sizeof_node = Inr ()" "live m hn"
    by (simp_all add: access_def live_def sizeof_node_def sizeof_list_def)
qed

lemma visit_lookup:
  assumes "\<forall>hn \<in> set hns. \<exists>k. hn_id m hn = Some k \<and> get_id hn m = Inr k"
  shows "visit (lookup_body key) hn_link_offset hns (m, ()) = Inr ((m, ()), find (\<lambda>hn. hn_id m hn = Some key) hns)"
  using assms by (induction hns) (auto simp: lookup_body_def list_item_def hn_link_offset_def)

lemma table_node:
  assumes "table_ok ht m bs" and "i < length bs" and "hn \<in> set (bs ! i)"
  shows "(hn, sizeof_node) \<in> set (blocks m)" and "\<exists>k. hn_id m hn = Some k \<and> get_id hn m = Inr k \<and> unat (k mod ht_cap ht) = i"
    and "\<exists>d. hn_data m hn = Some d \<and> get_data hn m = Inr d" and "hn \<noteq> 0"
proof -
  have n: "node_ok m (ht_cap ht) i hn" "heap_ok m" using assms by (auto simp: table_ok_def bucket_ok_def)
  then show b: "(hn, sizeof_node) \<in> set (blocks m)" by (simp add: node_ok_def)
  note a = node_access [OF n(2) b]
  from n(1) a show "\<exists>k. hn_id m hn = Some k \<and> get_id hn m = Inr k \<and> unat (k mod ht_cap ht) = i" "hn \<noteq> 0"
    "\<exists>d. hn_data m hn = Some d \<and> get_data hn m = Inr d"
    by (auto simp: node_ok_def get_id_def get_data_def read_field_def)
qed

lemma htable_lookup_eq:
  assumes "table_ok ht m bs"
  shows "htable_lookup ht key m = Some (Inr (case find (\<lambda>hn. hn_id m hn = Some key) (bs ! unat (key mod ht_cap ht)) of
    None \<Rightarrow> 0 | Some hn \<Rightarrow> hn))"
proof -
  note i = table_bucket [OF assms, of key]
  let ?i = "unat (key mod ht_cap ht)"
  have r: "ring (fst (m, ())) (bucket_at (ht_hash ht) ?i) (bs ! ?i)" using assms i(2) by (simp add: table_ok_def bucket_ok_def)
  have "list_iterate (bucket_at (ht_hash ht) ?i) hn_link_offset (lookup_body key) (m, ())
      = Some (visit (lookup_body key) hn_link_offset (bs ! ?i) (m, ()))"
  proof (rule list_iterate_visit [OF r])
    fix as x bs' and st st' :: "hmem \<times> unit"
    assume "ring (fst st) (bucket_at (ht_hash ht) ?i) (as @ x # bs')"
      and "lookup_body key (list_item x hn_link_offset) st = Inr (st', None)"
    then have "ring (fst st') (bucket_at (ht_hash ht) ?i) ((as @ [x]) @ bs')" by (auto simp: lookup_body_def)
    then show "\<exists>as'. ring (fst st') (bucket_at (ht_hash ht) ?i) (as' @ bs')" by blast
  qed
  moreover have "visit (lookup_body key) hn_link_offset (bs ! ?i) (m, ())
      = Inr ((m, ()), find (\<lambda>hn. hn_id m hn = Some key) (bs ! ?i))"
    by (rule visit_lookup) (use table_node(2) [OF assms i(2)] in blast)
  ultimately show ?thesis by (simp add: htable_lookup_def i(1))
qed

text \<open>The two outcomes of a search.\<close>

lemma htable_lookup_cases:
  assumes "table_ok ht m bs"
  obtains (absent) "htable_lookup ht key m = Some (Inr 0)" and "table_map ht m bs key = None"
    and "\<forall>hn \<in> set (bs ! unat (key mod ht_cap ht)). hn_id m hn \<noteq> Some key"
  | (present) hn d where "htable_lookup ht key m = Some (Inr hn)" and "hn \<noteq> 0" and "hn_id m hn = Some key"
    and "hn \<in> set (bs ! unat (key mod ht_cap ht))" and "get_data hn m = Inr d" and "hn_data m hn = Some d"
    and "table_map ht m bs key = Some d"
proof (cases "find (\<lambda>hn. hn_id m hn = Some key) (bs ! unat (key mod ht_cap ht))")
  case None
  show ?thesis
    using None htable_lookup_eq [OF assms, of key] table_map_find [OF assms, of key]
    by (intro absent) (simp_all, simp add: find_None_iff)
next
  case (Some hn)
  then have hn: "hn \<in> set (bs ! unat (key mod ht_cap ht))" "hn_id m hn = Some key"
    by (auto simp: find_Some_iff)
  note n = table_node [OF assms table_bucket(2) [OF assms] hn(1)]
  from n(3) obtain d where d: "hn_data m hn = Some d" "get_data hn m = Inr d" by blast
  show ?thesis
    by (rule present) (use Some hn n(4) d htable_lookup_eq [OF assms, of key] table_map_find [OF assms, of key] in simp_all)
qed

lemma htable_get_eq:
  assumes "table_ok ht m bs"
  shows "htable_get ht key m = Some (Inr (case table_map ht m bs key of None \<Rightarrow> 0 | Some d \<Rightarrow> d))"
  by (rule htable_lookup_cases [OF assms, of key]) (simp_all add: htable_get_def)

section \<open>Updating\<close>

lemma table_map_eqI:
  assumes "table_ok ht m bs" and "table_ok ht' m' bs'" and "ht_cap ht' = ht_cap ht"
    and "\<And>key. key \<noteq> key0 \<Longrightarrow> find (\<lambda>hn. hn_id m' hn = Some key) (bs' ! unat (key mod ht_cap ht))
      = find (\<lambda>hn. hn_id m hn = Some key) (bs ! unat (key mod ht_cap ht))"
    and "\<And>i hn. i < length bs \<Longrightarrow> hn \<in> set (bs ! i) \<Longrightarrow> hn_id m hn \<noteq> Some key0 \<Longrightarrow> hn_data m' hn = hn_data m hn"
    and "table_map ht' m' bs' key0 = v"
  shows "table_map ht' m' bs' = (table_map ht m bs)(key0 := v)"
proof
  fix key
  show "table_map ht' m' bs' key = ((table_map ht m bs)(key0 := v)) key"
  proof (cases "key = key0")
    case False
    let ?f = "find (\<lambda>hn. hn_id m hn = Some key) (bs ! unat (key mod ht_cap ht))"
    have "hn_data m' hn = hn_data m hn" if "?f = Some hn" for hn
      using that False by (intro assms(5) [OF table_bucket(2) [OF assms(1), of key]]) (auto simp: find_Some_iff)
    then show ?thesis
      using table_map_find [OF assms(1), of key] table_map_find [OF assms(2), of key] assms(3) assms(4) [OF False] False
      by (cases ?f) simp_all
  qed (use assms(6) in simp)
qed

lemma find_id:
  assumes "distinct (map fst (assocs m hns))" and "hn \<in> set hns" and "hn_id m hn = Some key"
  shows "find (\<lambda>hn. hn_id m hn = Some key) hns = Some hn"
  using assms by (induction hns) (force simp: assocs_def)+

lemma put_present:
  assumes "table_ok ht m bs" and "hn \<in> set (bs ! i)" and "i < length bs" and "hn_id m hn = Some key"
    and "unat (key mod ht_cap ht) = i" and m'_def: "m' = m\<lparr>hn_data := (hn_data m)(hn \<mapsto> data)\<rparr>"
  shows "set_data hn data m = Inr m'" and "table_ok ht m' bs"
    and "table_map ht m' bs = (table_map ht m bs)(key \<mapsto> data)" and "rest_blocks ht m' bs = rest_blocks ht m bs"
proof -
  show "rest_blocks ht m' bs = rest_blocks ht m bs" by (simp add: rest_blocks_def m'_def)
  have h: "heap_ok m" using assms(1) by (simp add: table_ok_def)
  show "set_data hn data m = Inr m'"
    using node_access(1) [OF h table_node(1) [OF assms(1,3,2)]] by (simp add: set_data_def m'_def)
  have lv: "live m' = live m" by (simp add: m'_def live_def owned_def fun_eq_iff)
  have "bucket_ok ht m' j (bs ! j)" if "j < length bs" for j
    by (rule bucket_ok_cong [of ht m j "bs ! j"]) (use assms(1) that lv in \<open>simp_all add: table_ok_def m'_def\<close>)
  then show t: "table_ok ht m' bs"
    using assms(1) by (simp add: table_ok_def m'_def heap_ok_def)
  have "distinct (map fst (assocs m (bs ! i)))" using assms(1,3) by (simp add: table_ok_def bucket_ok_def)
  have f: "hn_id m' = hn_id m" by (simp add: m'_def)
  have "table_map ht m' bs key = Some data"
  proof -
    have "find (\<lambda>hn. hn_id m hn = Some key) (bs ! i) = Some hn"
      by (rule find_id) fact+
    then show ?thesis using table_map_find [OF t, of key] assms(5) by (simp add: f) (simp add: m'_def)
  qed
  then show "table_map ht m' bs = (table_map ht m bs)(key \<mapsto> data)"
    by (intro table_map_eqI [OF assms(1) t]) (use assms(4) in \<open>auto simp: m'_def\<close>)
qed

text \<open>A new node in front of its bucket.\<close>

lemma same_outside_fields:
  fixes m m' :: hmem
  assumes "same_outside S m m'"
  shows "blocks m' = blocks m" and "hn_id m' = hn_id m" and "hn_data m' = hn_data m"
  using assms by (cases m; cases m'; simp add: same_outside_def)+

lemma length_concat_update:
  "i < length bs \<Longrightarrow> length (concat (bs[i := hns])) + length (bs ! i) = length (concat bs) + length hns"
  by (induction bs arbitrary: i) (auto split: nat.split simp: less_Suc_eq_0_disj)

lemma set_concat_update:
  "i < length bs \<Longrightarrow> set (concat (bs[i := hns])) = set (concat (take i bs)) \<union> set hns \<union> set (concat (drop (Suc i) bs))"
  by (simp add: upd_conv_take_nth_drop Un_assoc)

lemma set_concat_nth:
  "i < length bs \<Longrightarrow> set (concat bs) = set (concat (take i bs)) \<union> set (bs ! i) \<union> set (concat (drop (Suc i) bs))"
  using set_concat_update [of i bs "bs ! i"] by simp

lemma set_concat_Cons: "i < length bs \<Longrightarrow> set (concat (bs[i := p # bs ! i])) = insert p (set (concat bs))"
  unfolding set_concat_update set_concat_nth by auto

lemma set_concat_remove:
  "i < length bs \<Longrightarrow> bs ! i = xs @ p # ys \<Longrightarrow> insert p (set (concat (bs[i := xs @ ys]))) = set (concat bs)"
  unfolding set_concat_update set_concat_nth [of i bs] by auto

lemma assocs_same:
  "(\<And>hn. hn \<in> set hns \<Longrightarrow> hn_id m' hn = hn_id m hn \<and> hn_data m' hn = hn_data m hn) \<Longrightarrow> assocs m' hns = assocs m hns"
  by (simp add: assocs_def)

lemma assocs_Cons: "assocs m (hn # hns) = (the (hn_id m hn), the (hn_data m hn)) # assocs m hns"
  by (simp add: assocs_def)

text \<open>The fields of a link and node are as before.\<close>

definition kept :: "hmem \<Rightarrow> hmem \<Rightarrow> addr \<Rightarrow> bool" where
  "kept m m' x \<longleftrightarrow> live m' x \<and> l_next m' x = l_next m x \<and> l_prev m' x = l_prev m x
     \<and> hn_id m' x = hn_id m x \<and> hn_data m' x = hn_data m x"

lemma table_live:
  assumes "table_ok ht m bs" and "j < length bs" and "x \<in> set (bucket_at (ht_hash ht) j # bs ! j)"
  shows "live m x"
proof -
  have "ring m (bucket_at (ht_hash ht) j) (bs ! j)" using assms(1,2) by (simp add: table_ok_def bucket_ok_def)
  then show ?thesis using assms(3) by (rule ring_live)
qed

text \<open>A table of which one bucket has changed.\<close>

lemma table_ok_update:
  assumes "table_ok ht m bs" and "i < length bs" and ht': "ht_hash ht' = ht_hash ht" "ht_cap ht' = ht_cap ht"
    and others: "\<And>j x. j < length bs \<Longrightarrow> j \<noteq> i \<Longrightarrow> x \<in> set (bucket_at (ht_hash ht) j # bs ! j) \<Longrightarrow> kept m m' x"
    and nodes: "\<And>j x. j < length bs \<Longrightarrow> j \<noteq> i \<Longrightarrow> x \<in> set (bs ! j) \<Longrightarrow> (x, sizeof_node) \<in> set (blocks m')"
    and "heap_ok m'" and "(ht_hash ht, sizeof_list * unat (ht_cap ht)) \<in> set (blocks m')"
    and "bucket_ok ht' m' i hns" and "ht_size ht' = of_nat (length (concat (bs[i := hns])))"
  shows "table_ok ht' m' (bs[i := hns])"
proof -
  have "bucket_ok ht' m' j (bs ! j)" if j: "j < length bs" "j \<noteq> i" for j
    by (rule bucket_ok_cong [of ht m j "bs ! j"])
      (use assms(1) others [OF j] nodes [OF j] ht' j in \<open>auto simp: table_ok_def kept_def\<close>)
  then have "bucket_ok ht' m' j (bs[i := hns] ! j)" if "j < length bs" for j
    using assms(2,9) that by (cases "j = i") simp_all
  then show ?thesis using assms(1,7,8,10) ht' by (simp add: table_ok_def)
qed

lemma table_map_update:
  assumes "table_ok ht m bs" and "table_ok ht' m' (bs[i := hns])" and "ht_cap ht' = ht_cap ht" and "unat (key mod ht_cap ht) = i"
    and others: "\<And>j x. j < length bs \<Longrightarrow> j \<noteq> i \<Longrightarrow> x \<in> set (bs ! j) \<Longrightarrow> kept m m' x"
    and "\<And>key'. key' \<noteq> key \<Longrightarrow> find (\<lambda>hn. hn_id m' hn = Some key') hns = find (\<lambda>hn. hn_id m hn = Some key') (bs ! i)"
    and data: "\<And>hn. hn \<in> set (bs ! i) \<Longrightarrow> hn_id m hn \<noteq> Some key \<Longrightarrow> hn_data m' hn = hn_data m hn"
  shows "table_map ht' m' (bs[i := hns])
    = (table_map ht m bs)(key := case find (\<lambda>hn. hn_id m' hn = Some key) hns of None \<Rightarrow> None | Some hn \<Rightarrow> hn_data m' hn)"
proof (rule table_map_eqI [OF assms(1,2,3)])
  have i: "i < length bs" using table_bucket(2) [OF assms(1), of key] assms(4) by simp
  show "table_map ht' m' (bs[i := hns]) key
      = (case find (\<lambda>hn. hn_id m' hn = Some key) hns of None \<Rightarrow> None | Some hn \<Rightarrow> hn_data m' hn)"
    using table_map_find [OF assms(2), of key] assms(3,4) i by simp
  show "hn_data m' hn = hn_data m hn" if "j < length bs" "hn \<in> set (bs ! j)" "hn_id m hn \<noteq> Some key" for j hn
    using others [OF that(1) _ that(2)] data that by (cases "j = i") (auto simp: kept_def)
  fix key' assume ne: "key' \<noteq> key"
  let ?j = "unat (key' mod ht_cap ht)"
  have j: "?j < length bs" by (rule table_bucket(2) [OF assms(1)])
  show "find (\<lambda>hn. hn_id m' hn = Some key') (bs[i := hns] ! ?j) = find (\<lambda>hn. hn_id m hn = Some key') (bs ! ?j)"
  proof (cases "?j = i")
    case True
    with assms(6) [OF ne] i show ?thesis by simp
  next
    case False
    with others [OF j] show ?thesis by (auto simp: kept_def intro!: find_cong)
  qed
qed

text \<open>The memory after a new node has been filled in and put in front of its bucket.\<close>

lemma put_absent_memory:
  assumes "table_ok ht m bs" and "fresh p sizeof_node m" and "i < length bs"
  defines "l \<equiv> bucket_at (ht_hash ht) i"
  shows "\<exists>m1 m2 m3. set_id p key (malloc p sizeof_node m) = Inr m1 \<and> list_insert_head l p m1 = Inr m2
    \<and> set_data p data m2 = Inr m3 \<and> heap_ok m3 \<and> blocks m3 = (p, sizeof_node) # blocks m \<and> ring m3 l (p # bs ! i)
    \<and> hn_id m3 p = Some key \<and> hn_data m3 p = Some data
    \<and> (\<forall>x. live m x \<longrightarrow> x \<noteq> p \<and> hn_id m3 x = hn_id m x \<and> hn_data m3 x = hn_data m x \<and> (x \<notin> set (l # bs ! i) \<longrightarrow> kept m m3 x))"
proof -
  define m0 where "m0 = malloc p sizeof_node m"
  define m1 where "m1 = m0\<lparr>hn_id := (hn_id m0)(p \<mapsto> key)\<rparr>"
  have h0: "heap_ok m0" unfolding m0_def by (rule heap_ok_malloc) (use assms(1,2) in \<open>simp_all add: table_ok_def\<close>)
  have p0: "blocks m0 = (p, sizeof_node) # blocks m" by (simp add: m0_def blocks_malloc [OF assms(2)])
  have s1: "set_id p key m0 = Inr m1" using node_access(1) [OF h0, of p] p0 by (simp add: set_id_def m1_def)
  have lv1: "live m1 = live m0" by (simp add: m1_def live_def owned_def fun_eq_iff)
  have same1: "kept m m1 x \<and> x \<noteq> p" if "live m x" for x
    using malloc_same [OF that assms(2)] live_outside [OF that assms(2)] lv1
    by (auto simp: kept_def m1_def m0_def sizeof_node_def)
  note cells = table_live [OF assms(1,3)]
  have "ring m l (bs ! i)" using assms(1,3) by (simp add: table_ok_def bucket_ok_def l_def)
  then have r1: "ring m1 l (bs ! i)" by (rule ring_cong) (use same1 in \<open>auto simp: kept_def\<close>)
  have lp: "live m1 p" unfolding lv1 m0_def by (rule malloc_live [OF assms(2)]) (simp add: sizeof_node_def sizeof_list_def)
  have out: "p \<notin> set (l # bs ! i)" using cells same1 unfolding l_def by blast
  from list_insert_head_ring [OF r1 lp out] obtain m2 where m2: "list_insert_head l p m1 = Inr m2" "ring m2 l (p # bs ! i)"
    and same2: "same_outside (set (l # p # bs ! i)) m1 m2" by blast
  from same_outside_fields [OF same2] h0 have f2: "blocks m2 = blocks m0" "hn_id m2 = hn_id m1" "hn_data m2 = hn_data m1" "heap_ok m2"
    by (simp_all add: m1_def heap_ok_def)
  define m3 where "m3 = m2\<lparr>hn_data := (hn_data m2)(p \<mapsto> data)\<rparr>"
  have s3: "set_data p data m2 = Inr m3" using node_access(1) [of m2 p] p0 f2 by (simp add: set_data_def m3_def)
  have lv3: "live m3 = live m1" by (simp add: live_def owned_def m3_def f2(1) m1_def fun_eq_iff)
  have "x \<noteq> p \<and> hn_id m3 x = hn_id m x \<and> hn_data m3 x = hn_data m x \<and> (x \<notin> set (l # bs ! i) \<longrightarrow> kept m m3 x)" if "live m x" for x
    using same1 [OF that] same2 lv3 by (auto simp: kept_def m3_def f2 same_outside_def)
  moreover have "ring m3 l (p # bs ! i)" by (rule ring_cong [OF m2(2)]) (simp add: m3_def live_def owned_def)
  moreover have "heap_ok m3" "blocks m3 = (p, sizeof_node) # blocks m" "hn_id m3 p = Some key" "hn_data m3 p = Some data"
    using f2 p0 by (simp_all add: m3_def m1_def heap_ok_def)
  ultimately show ?thesis using s1 m2(1) s3 unfolding m0_def by blast
qed

lemma put_absent:
  assumes "table_ok ht m bs" and "fresh p sizeof_node m" and "unat (key mod ht_cap ht) = i"
    and "\<forall>hn \<in> set (bs ! i). hn_id m hn \<noteq> Some key"
  defines "l \<equiv> bucket_at (ht_hash ht) i" and "ht' \<equiv> ht\<lparr>ht_size := ht_size ht + 1\<rparr>" and "bs' \<equiv> bs[i := p # bs ! i]"
  shows "\<exists>m1 m2 m3. set_id p key (malloc p sizeof_node m) = Inr m1 \<and> list_insert_head l p m1 = Inr m2
    \<and> set_data p data m2 = Inr m3 \<and> table_ok ht' m3 bs' \<and> table_map ht' m3 bs' = (table_map ht m bs)(key \<mapsto> data)
    \<and> rest_blocks ht' m3 bs' = rest_blocks ht m bs"
proof -
  have i: "i < length bs" using table_bucket(2) [OF assms(1), of key] assms(3) by simp
  from put_absent_memory [OF assms(1,2) i, of key data] obtain m1 m2 m3 where
    ops: "set_id p key (malloc p sizeof_node m) = Inr m1" "list_insert_head l p m1 = Inr m2" "set_data p data m2 = Inr m3"
    and m3: "heap_ok m3" "blocks m3 = (p, sizeof_node) # blocks m" "ring m3 l (p # bs ! i)" "hn_id m3 p = Some key" "hn_data m3 p = Some data"
    and same: "\<And>x. live m x \<Longrightarrow> x \<noteq> p \<and> hn_id m3 x = hn_id m x \<and> hn_data m3 x = hn_data m x \<and> (x \<notin> set (l # bs ! i) \<longrightarrow> kept m m3 x)"
    unfolding l_def by blast
  have ht': "ht_hash ht' = ht_hash ht" "ht_cap ht' = ht_cap ht" by (simp_all add: ht'_def)
  have b: "bucket_ok ht m i (bs ! i)" using assms(1) i by (simp add: table_ok_def)
  have old: "x \<noteq> p \<and> hn_id m3 x = hn_id m x \<and> hn_data m3 x = hn_data m x" if "x \<in> set (bs ! i)" for x
    using same [OF table_live [OF assms(1) i, of x]] that by simp
  have others: "kept m m3 x" if j: "j < length bs" "j \<noteq> i" and x: "x \<in> set (bucket_at (ht_hash ht) j # bs ! j)" for j x
    using same [OF table_live [OF assms(1) j(1) x]] cells_disjoint [OF assms(1) i j(1) j(2) [symmetric] x] by (simp add: l_def)
  have a: "assocs m3 (bs ! i) = assocs m (bs ! i)" by (rule assocs_same) (use old in simp)
  have "key \<notin> fst ` set (assocs m (bs ! i))" using assms(4) bucket_fields [OF b] by (auto simp: assocs_def)
  then have "distinct (map fst (assocs m3 (p # bs ! i)))" using b m3(4) by (simp add: assocs_Cons a bucket_ok_def)
  moreover have "p \<noteq> ht_hash ht" using assms(1,2) by (auto simp: table_ok_def fresh_def list_all_iff apart_def)
  moreover have "node_ok m3 (ht_cap ht) i hn \<and> hn \<noteq> ht_hash ht" if "hn \<in> set (bs ! i)" for hn
    using b that old [OF that] by (auto simp: bucket_ok_def node_ok_def m3(2))
  ultimately have "bucket_ok ht' m3 i (p # bs ! i)"
    using m3 assms(3) by (auto simp: bucket_ok_def node_ok_def ht' l_def)
  moreover have "ht_size ht' = of_nat (length (concat bs'))"
    using length_concat_update [OF i, of "p # bs ! i"] assms(1) by (simp add: table_ok_def ht'_def bs'_def)
  ultimately have t: "table_ok ht' m3 bs'"
    unfolding bs'_def using assms(1) m3(1,2) table_node(1) [OF assms(1)]
    by (intro table_ok_update [OF assms(1) i ht' others]) (auto simp: table_ok_def)
  have "table_map ht' m3 bs' = (table_map ht m bs)(key \<mapsto> data)"
    using table_map_update [OF assms(1) t [unfolded bs'_def] ht'(2) assms(3)] others old m3(4,5)
    by (simp add: bs'_def cong: find_cong)
  moreover have "\<forall>x \<in> set (blocks m). fst x \<noteq> p" using assms(2) by (auto simp: fresh_def list_all_iff apart_def)
  then have "rest_blocks ht' m3 bs' = rest_blocks ht m bs"
    using set_concat_Cons [OF i, of p]
    by (auto simp del: set_concat simp add: rest_blocks_def ht' bs'_def m3(2) intro!: filter_cong)
  ultimately show ?thesis using ops t by blast
qed

text \<open>A node taken out of its bucket and released.\<close>

lemma remove_memory:
  assumes "table_ok ht m bs" and "i < length bs" and "bs ! i = xs @ hn # ys"
  defines "l \<equiv> bucket_at (ht_hash ht) i"
  shows "\<exists>m1 m2. list_remove hn m = Inr m1 \<and> free hn m1 = Inr m2 \<and> heap_ok m2
    \<and> blocks m2 = filter (\<lambda>x. fst x \<noteq> hn) (blocks m) \<and> ring m2 l (xs @ ys)
    \<and> (\<forall>x j. j < length bs \<longrightarrow> x \<in> set (bucket_at (ht_hash ht) j # bs ! j) \<longrightarrow> x \<noteq> hn \<longrightarrow>
         hn_id m2 x = hn_id m x \<and> hn_data m2 x = hn_data m x \<and> (j \<noteq> i \<longrightarrow> kept m m2 x))"
proof -
  have h: "heap_ok m" and hn: "hn \<in> set (bs ! i)" using assms(1,3) by (simp_all add: table_ok_def)
  have "bucket_ok ht m i (bs ! i)" using assms(1,2) by (simp add: table_ok_def)
  then have r: "ring m l (xs @ hn # ys)" by (simp add: bucket_ok_def l_def assms(3))
  from list_remove_ring [OF r] obtain m1 where m1: "list_remove hn m = Inr m1" "ring m1 l (xs @ ys)"
    and same1: "same_outside (set (l # hn # xs @ ys)) m m1" by blast
  note f1 = same_outside_fields [OF same1]
  have lv1: "live m1 = live m" by (simp add: live_def owned_def f1(1) fun_eq_iff)
  have h1: "heap_ok m1" using h heap_ok_cong [OF f1(1)] by simp
  have n1: "(hn, sizeof_node) \<in> set (blocks m1)" using table_node(1) [OF assms(1,2) hn] f1(1) by simp
  from free_block [OF h1 n1] obtain m2 where m2: "free hn m1 = Inr m2"
    and m2b: "blocks m2 = filter (\<lambda>x. fst x \<noteq> hn) (blocks m)" "heap_ok m2"
    using heap_ok_filter [OF h1, of "\<lambda>x. fst x \<noteq> hn"] f1(1) by (simp add: forget_all_def heap_ok_def)
  have same: "kept m1 m2 x" if "j < length bs" "x \<in> set (bucket_at (ht_hash ht) j # bs ! j)" "x \<noteq> hn" for j x
  proof -
    have "\<not> (hn \<le> x \<and> x < hn + sizeof_node)"
      using node_away(1) [OF assms(1,2) hn that(1)] nodes_apart [OF assms(1,2) that(1) hn] that(2,3) by auto
    from free_same [OF h1 n1 _ this m2] table_live [OF assms(1) that(1,2)] show ?thesis by (simp add: lv1 kept_def)
  qed
  have "x \<in> set (bucket_at (ht_hash ht) i # bs ! i) \<and> x \<noteq> hn" if "x \<in> set (l # xs @ ys)" for x
    using that r by (auto simp: assms(3) l_def ring_def)
  then have "ring m2 l (xs @ ys)"
    using same [OF assms(2)] by (intro ring_cong [OF m1(2)]) (auto simp: kept_def)
  moreover have "kept m m2 x" if "j < length bs" "x \<in> set (bucket_at (ht_hash ht) j # bs ! j)" "x \<noteq> hn" "j \<noteq> i" for j x
    using same [OF that(1-3)] cells_disjoint [OF assms(1,2) that(1) that(4) [symmetric] that(2)] same1
    by (simp add: kept_def same_outside_def f1 l_def assms(3))
  ultimately show ?thesis using m1(1) m2 m2b same by (auto simp: kept_def f1)
qed

lemma remove_present:
  assumes "table_ok ht m bs" and "hn \<in> set (bs ! i)" and "i < length bs" and "hn_id m hn = Some key"
    and "unat (key mod ht_cap ht) = i"
  defines "l \<equiv> bucket_at (ht_hash ht) i" and "ht' \<equiv> ht\<lparr>ht_size := ht_size ht - 1\<rparr>"
  shows "\<exists>m1 m2 bs'. list_remove hn m = Inr m1 \<and> free hn m1 = Inr m2 \<and> table_ok ht' m2 bs'
    \<and> table_map ht' m2 bs' = (table_map ht m bs)(key := None) \<and> rest_blocks ht' m2 bs' = rest_blocks ht m bs"
proof -
  obtain xs ys where xy: "bs ! i = xs @ hn # ys" using assms(2) by (meson split_list)
  from remove_memory [OF assms(1,3) xy] obtain m1 m2 where ops: "list_remove hn m = Inr m1" "free hn m1 = Inr m2"
    and m2: "heap_ok m2" "blocks m2 = filter (\<lambda>x. fst x \<noteq> hn) (blocks m)" "ring m2 l (xs @ ys)"
    and same: "\<And>x j. j < length bs \<Longrightarrow> x \<in> set (bucket_at (ht_hash ht) j # bs ! j) \<Longrightarrow> x \<noteq> hn \<Longrightarrow>
         hn_id m2 x = hn_id m x \<and> hn_data m2 x = hn_data m x \<and> (j \<noteq> i \<longrightarrow> kept m m2 x)"
    unfolding l_def by blast
  define bs' where "bs' = bs[i := xs @ ys]"
  have ht': "ht_hash ht' = ht_hash ht" "ht_cap ht' = ht_cap ht" by (simp_all add: ht'_def)
  have b: "bucket_ok ht m i (xs @ hn # ys)" using assms(1,3) xy by (auto simp: table_ok_def)
  have ids: "distinct (map fst (assocs m (xs @ hn # ys)))" and hn: "hn \<noteq> ht_hash ht" "hn \<notin> set (xs @ ys)" "hn \<noteq> l"
    using b by (auto simp: bucket_ok_def ring_def l_def)
  have old: "hn_id m2 x = hn_id m x \<and> hn_data m2 x = hn_data m x" if "x \<in> set (xs @ ys)" for x
    using same [OF assms(3), of x] that hn(2) by (auto simp: xy)
  have apart: "x \<noteq> hn" if "j < length bs" "j \<noteq> i" "x \<in> set (bucket_at (ht_hash ht) j # bs ! j)" for j x
    using cells_disjoint [OF assms(1,3) that(1) that(2) [symmetric] that(3)] assms(2) by auto
  have others: "kept m m2 x" if "j < length bs" "j \<noteq> i" "x \<in> set (bucket_at (ht_hash ht) j # bs ! j)" for j x
    using same [OF that(1,3) apart [OF that]] that(2) by simp
  have a: "assocs m2 (xs @ ys) = assocs m (xs @ ys)" by (rule assocs_same) (use old in simp)
  have "node_ok m2 (ht_cap ht) i x \<and> x \<noteq> ht_hash ht" if "x \<in> set (xs @ ys)" for x
    using b that old [OF that] hn(2) by (auto simp: bucket_ok_def node_ok_def m2(2))
  moreover have "distinct (map fst (assocs m (xs @ ys)))" using ids by (simp add: assocs_def)
  ultimately have "bucket_ok ht' m2 i (xs @ ys)" using m2(3) a by (simp add: bucket_ok_def ht' l_def)
  moreover have "Suc (length (concat bs')) = length (concat bs)"
    using length_concat_update [OF assms(3), of "xs @ ys"] by (simp add: bs'_def xy)
  then have "ht_size ht = of_nat (Suc (length (concat bs')))" using assms(1) by (simp only: table_ok_def)
  then have "ht_size ht' = of_nat (length (concat bs'))" by (simp add: ht'_def)
  moreover have "(x, sizeof_node) \<in> set (blocks m2)" if "j < length bs" "j \<noteq> i" "x \<in> set (bs ! j)" for j x
    using table_node(1) [OF assms(1) that(1,3)] apart [OF that(1,2), of x] that(3) by (simp add: m2(2))
  ultimately have t: "table_ok ht' m2 bs'"
    unfolding bs'_def using assms(1) m2(1,2) hn(1)
    by (intro table_ok_update [OF assms(1,3) ht' others]) (auto simp: table_ok_def)
  have "x \<notin> set (xs @ ys)" if "hn_id m x = Some key" for x
    using ids that assms(4) by (force simp: assocs_def)
  then have "find (\<lambda>hn. hn_id m2 hn = Some key) (xs @ ys) = None" using old by (auto simp: find_None_iff)
  moreover have "find (\<lambda>hn. hn_id m2 hn = Some key') (xs @ ys) = find (\<lambda>hn. hn_id m hn = Some key') (bs ! i)" if "key' \<noteq> key" for key'
  proof -
    have "find (\<lambda>hn. hn_id m2 hn = Some key') (xs @ ys) = find (\<lambda>hn. hn_id m hn = Some key') (xs @ ys)"
      by (rule find_cong) (use old in simp_all)
    also have "\<dots> = find (\<lambda>hn. hn_id m hn = Some key') (xs @ hn # ys)"
      using assms(4) that by (induction xs) simp_all
    finally show ?thesis by (simp only: xy)
  qed
  ultimately have "table_map ht' m2 bs' = (table_map ht m bs)(key := None)"
    using table_map_update [OF assms(1) t [unfolded bs'_def] ht'(2) assms(5)] others old assms(4)
    by (auto simp add: bs'_def xy)
  moreover have "rest_blocks ht' m2 bs' = rest_blocks ht m bs"
    unfolding rest_blocks_def m2(2) bs'_def set_concat_remove [OF assms(3) xy, symmetric]
    by (auto simp: ht'_def intro!: filter_cong)
  ultimately show ?thesis using ops t by blast
qed

end
