(* ===== verification/Htable_Map.thy ===== *)
theory Htable_Map
  imports Htable
begin

text \<open>
  What the hash table of \<open>src/htable.c\<close> promises: it is a map from numbers to data, iteration meets every
  entry once, and \<open>htable_destroy\<close> releases exactly the blocks of the table.  With an allocator that
  always finds room it is an instance of the keyed store that the routing table is an instance of too.
\<close>

section \<open>The loop over the buckets\<close>

lemma visit_append:
  "visit body off (xs @ ys) st = bindE (visit body off xs st) (\<lambda>(st', r).
     case r of None \<Rightarrow> visit body off ys st' | Some v \<Rightarrow> Inr (st', Some v))"
proof (induction xs arbitrary: st)
  case (Cons x xs)
  then show ?case
    by (cases "body (list_item x off) st") (auto split: option.split)
qed simp

lemma buckets_loop_visit:
  assumes "\<And>k st. J k st \<Longrightarrow> k < length bs \<Longrightarrow>
      list_iterate (bucket_at hash k) hn_link_offset body st = Some (visit body hn_link_offset (bs ! k) st)"
    and "\<And>k st st'. J k st \<Longrightarrow> k < length bs \<Longrightarrow> visit body hn_link_offset (bs ! k) st = Inr (st', None) \<Longrightarrow> J (Suc k) st'"
    and "J i st" and "i + left = length bs"
  shows "buckets_loop body hash i left st = Some (visit body hn_link_offset (concat (drop i bs)) st)"
  using assms(3,4)
proof (induction left arbitrary: i st)
  case (Suc left)
  then have i: "i < length bs" by simp
  have c: "concat (drop i bs) = bs ! i @ concat (drop (Suc i) bs)" by (simp add: Cons_nth_drop_Suc [OF i, symmetric])
  note l = assms(1) [OF Suc.prems(1) i]
  show ?case
  proof (cases "visit body hn_link_offset (bs ! i) st")
    case (Inl f)
    then show ?thesis by (simp add: l c visit_append)
  next
    case (Inr y)
    obtain st' r where y: "y = (st', r)" by (cases y)
    show ?thesis
    proof (cases r)
      case None
      with Suc.IH [OF assms(2) [OF Suc.prems(1) i]] Inr y Suc.prems(2) show ?thesis by (simp add: l c visit_append)
    next
      case (Some v)
      with Inr y show ?thesis by (simp add: l c visit_append)
    qed
  qed
qed simp

section \<open>Initialisation\<close>

lemma htable_init_loop_rings:
  assumes "\<forall>k \<in> {i..<i + left}. live m (bucket_at hash k)"
  shows "\<exists>m'. htable_init_loop hash i left m = Inr m' \<and> same_outside (bucket_at hash ` {i..<i + left}) m m'
    \<and> (\<forall>k \<in> {i..<i + left}. ring m' (bucket_at hash k) [])"
  using assms
proof (induction left arbitrary: i m)
  case (Suc left)
  then have "live m (bucket_at hash i)" by simp
  from list_init_ring [OF this] obtain m1 where m1: "list_init (bucket_at hash i) m = Inr m1" "ring m1 (bucket_at hash i) []"
    and s1: "same_outside {bucket_at hash i} m m1" by blast
  have "live m1 = live m" using s1 by (simp add: same_outside_def live_def owned_def fun_eq_iff)
  with Suc.IH [of "Suc i" m1] Suc.prems obtain m' where m': "htable_init_loop hash (Suc i) left m1 = Inr m'"
    "same_outside (bucket_at hash ` {Suc i..<i + Suc left}) m1 m'" "\<forall>k \<in> {Suc i..<i + Suc left}. ring m' (bucket_at hash k) []"
    by auto
  have "bucket_at hash i \<notin> bucket_at hash ` {Suc i..<i + Suc left}" by (auto simp: bucket_at_def sizeof_list_def)
  with ring_same_outside [OF m'(2) m1(2)] have "ring m' (bucket_at hash i) []" by simp
  moreover have e: "{i..<i + Suc left} = insert i {Suc i..<i + Suc left}" by auto
  moreover have "same_outside (bucket_at hash ` {i..<i + Suc left}) m m'"
    using s1 m'(2) unfolding e same_outside_def by simp
  ultimately show ?case using m1(1) m'(1,3) by (auto simp del: atLeastLessThan_iff)
qed (simp add: same_outside_def)

lemma htable_init_ok:
  assumes "heap_ok m" and "fresh p (sizeof_list * unat cap) m" and "cap \<noteq> 0"
  shows "\<exists>ht m'. htable_init p cap m = Inr (ht, m') \<and> table_ok ht m' (replicate (unat cap) [])
    \<and> table_map ht m' (replicate (unat cap) []) = Map.empty \<and> rest_blocks ht m' (replicate (unat cap) []) = blocks m"
proof -
  let ?m = "malloc p (sizeof_list * unat cap) m"
  have b: "blocks ?m = (p, sizeof_list * unat cap) # blocks m" by (rule blocks_malloc [OF assms(2)])
  have "\<forall>k \<in> {0..<0 + unat cap}. live ?m (bucket_at p k)"
    using assms(2) b by (auto simp: live_def owned_def bucket_at_def sizeof_list_def fresh_def)
  from htable_init_loop_rings [OF this] obtain m' where m': "htable_init_loop p 0 (unat cap) ?m = Inr m'"
    "same_outside (bucket_at p ` {0..<unat cap}) ?m m'" "\<forall>k \<in> {0..<unat cap}. ring m' (bucket_at p k) []" by auto
  have f: "blocks m' = blocks ?m" using m'(2) by (simp add: same_outside_def)
  let ?ht = "\<lparr>ht_hash = p, ht_size = 0, ht_cap = cap\<rparr>"
  have "heap_ok m'" using heap_ok_malloc [OF assms(1,2)] heap_ok_cong [OF f] by simp
  moreover have "0 < unat cap" using assms(3) by (simp add: unat_gt_0)
  ultimately have "table_ok ?ht m' (replicate (unat cap) [])"
    using m'(3) f b assms(3) by (simp add: table_ok_def bucket_ok_def assocs_def)
  moreover from table_map_find [OF this] table_bucket(2) [OF this]
  have "table_map ?ht m' (replicate (unat cap) []) = Map.empty" by (auto simp: fun_eq_iff)
  moreover have "rest_blocks ?ht m' (replicate (unat cap) []) = blocks m"
    using assms(2) by (auto simp: rest_blocks_def f b fresh_def list_all_iff apart_def intro!: filter_True)
  ultimately show ?thesis using m'(1) by (simp add: htable_init_def Let_def)
qed

section \<open>Iteration\<close>

lemma distinct_concat_index:
  assumes "\<And>i x. i < length xss \<Longrightarrow> x \<in> set (xss ! i) \<Longrightarrow> h x = i + k"
    and "\<And>i. i < length xss \<Longrightarrow> distinct (xss ! i)"
  shows "distinct (concat xss)"
  using assms
proof (induction xss arbitrary: k)
  case (Cons xs xss)
  have "distinct (concat xss)"
    using Cons.prems(1) [of "Suc i" for i] Cons.prems(2) [of "Suc i" for i] by (intro Cons.IH [of "Suc k"]) auto
  moreover have "h x = k" if "x \<in> set xs" for x using Cons.prems(1) [of 0 x] that by simp
  moreover have "h x \<noteq> k" if x: "x \<in> set (concat xss)" for x
  proof -
    from x obtain i where "i < length xss" "x \<in> set (xss ! i)" by (auto simp: in_set_conv_nth [of _ xss])
    with Cons.prems(1) [of "Suc i" x] show ?thesis by simp
  qed
  ultimately show ?case using Cons.prems(2) [of 0] by auto
qed simp

lemma table_keys:
  assumes "table_ok ht m bs"
  shows "distinct (map fst (assocs m (concat bs)))" and "map_of (assocs m (concat bs)) = table_map ht m bs"
proof -
  have key: "unat (k mod ht_cap ht) = i" if "i < length bs" "(k, v) \<in> set (assocs m (bs ! i))" for i k v
    using table_node(2) [OF assms that(1)] that(2) by (fastforce simp: assocs_def)
  have b: "distinct (map fst (assocs m (bs ! i)))" if "i < length bs" for i
    using assms that by (simp add: table_ok_def bucket_ok_def)
  have c: "assocs m (concat bs) = concat (map (assocs m) bs)" by (induction bs) (simp_all add: assocs_def)
  have "map fst (assocs m (concat bs)) = concat (map (\<lambda>hns. map fst (assocs m hns)) bs)"
    by (simp add: c map_concat comp_def)
  also have "distinct \<dots>"
    by (rule distinct_concat_index [where h = "\<lambda>k. unat (k mod ht_cap ht)" and k = 0]) (use b key in auto)
  finally show d: "distinct (map fst (assocs m (concat bs)))" .
  show "map_of (assocs m (concat bs)) = table_map ht m bs"
  proof
    fix k
    let ?i = "unat (k mod ht_cap ht)"
    have i: "?i < length bs" by (rule table_bucket(2) [OF assms])
    have "(k, v) \<in> set (assocs m (concat bs)) \<longleftrightarrow> (k, v) \<in> set (assocs m (bs ! ?i))" for v
      using key i by (fastforce simp: c in_set_conv_nth [of _ bs])
    then have "map_of (assocs m (concat bs)) k = Some v \<longleftrightarrow> map_of (assocs m (bs ! ?i)) k = Some v" for v
      using map_of_eq_Some_iff [OF d] map_of_eq_Some_iff [OF b [OF i]] by simp
    then show "map_of (assocs m (concat bs)) k = table_map ht m bs k"
      unfolding table_map_def by (metis option.exhaust)
  qed
qed

text \<open>Code inside the iteration that computes with keys and data and leaves the table alone.\<close>

definition pure_body :: "(u32 \<Rightarrow> addr \<Rightarrow> 's \<Rightarrow> 's) \<Rightarrow> u32 \<Rightarrow> addr \<Rightarrow> hmem \<times> 's \<Rightarrow> fault + (hmem \<times> 's) \<times> unit option" where
  "pure_body g k d st = Inr ((fst st, g k d (snd st)), None)"

lemma visit_pure:
  assumes "\<forall>hn \<in> set hns. \<exists>k d. hn_id m hn = Some k \<and> get_id hn m = Inr k \<and> hn_data m hn = Some d \<and> get_data hn m = Inr d"
  shows "visit (entry_body (pure_body g)) hn_link_offset hns (m, s)
    = Inr ((m, fold (\<lambda>(k, d). g k d) (assocs m hns) s), None)"
  using assms
  by (induction hns arbitrary: s)
    (auto simp: entry_body_def pure_body_def list_item_def hn_link_offset_def assocs_def)

lemma htable_iterate_pure:
  assumes "table_ok ht m bs"
  shows "htable_iterate ht (pure_body g) (m, s)
    = Some (Inr ((m, fold (\<lambda>(k, d). g k d) (assocs m (concat bs)) s), None))"
proof -
  have n: "\<forall>hn \<in> set (bs ! k). \<exists>key d. hn_id m hn = Some key \<and> get_id hn m = Inr key \<and> hn_data m hn = Some d \<and> get_data hn m = Inr d"
    if "k < length bs" for k
    using table_node(2,3) [OF assms that] by blast
  have "\<forall>hn \<in> set (concat bs). \<exists>key d. hn_id m hn = Some key \<and> get_id hn m = Inr key \<and> hn_data m hn = Some d \<and> get_data hn m = Inr d"
    using n by (auto simp: in_set_conv_nth [of _ bs])
  from visit_pure [OF this] have v: "visit (entry_body (pure_body g)) hn_link_offset (concat (drop 0 bs)) (m, s)
      = Inr ((m, fold (\<lambda>(k, d). g k d) (assocs m (concat bs)) s), None)" by simp
  have "buckets_loop (entry_body (pure_body g)) (ht_hash ht) 0 (length bs) (m, s)
      = Some (visit (entry_body (pure_body g)) hn_link_offset (concat (drop 0 bs)) (m, s))"
  proof (rule buckets_loop_visit [where J = "\<lambda>_ st. fst st = m"])
    fix k and st :: "hmem \<times> 'a" assume st: "fst st = m" and k: "k < length bs"
    show "list_iterate (bucket_at (ht_hash ht) k) hn_link_offset (entry_body (pure_body g)) st
        = Some (visit (entry_body (pure_body g)) hn_link_offset (bs ! k) st)"
    proof (rule list_iterate_visit)
      show "ring (fst st) (bucket_at (ht_hash ht) k) (bs ! k)"
        using assms k by (simp add: st table_ok_def bucket_ok_def)
      fix as x bs' and st st' :: "hmem \<times> 'a"
      assume "ring (fst st) (bucket_at (ht_hash ht) k) (as @ x # bs')"
        and "entry_body (pure_body g) (list_item x hn_link_offset) st = Inr (st', None)"
      then have "ring (fst st') (bucket_at (ht_hash ht) k) ((as @ [x]) @ bs')" by (auto simp: entry_body_def pure_body_def)
      then show "\<exists>as'. ring (fst st') (bucket_at (ht_hash ht) k) (as' @ bs')" by blast
    qed
  next
    fix k and st st' :: "hmem \<times> 'a" assume st: "fst st = m" and k: "k < length bs"
      and v: "visit (entry_body (pure_body g)) hn_link_offset (bs ! k) st = Inr (st', None)"
    show "fst st' = m" using visit_pure [OF n [OF k], of g "snd st"] v st by (cases st) auto
  qed simp_all
  then show ?thesis using assms by (simp only: v htable_iterate_def table_ok_def)
qed

section \<open>Destruction\<close>

text \<open>The nodes still to be released: they are live and each points at the next one.\<close>

fun doomed :: "hmem \<Rightarrow> addr \<Rightarrow> addr list \<Rightarrow> bool" where
  "doomed m l [] = True"
| "doomed m l (x # xs) \<longleftrightarrow> l_next m x = Some (hd (xs @ [l])) \<and> doomed m l xs"

definition nodes_live :: "hmem \<Rightarrow> addr list \<Rightarrow> bool" where
  "nodes_live m hns \<longleftrightarrow> heap_ok m \<and> distinct hns \<and> (\<forall>hn \<in> set hns. (hn, sizeof_node) \<in> set (blocks m))"

definition in_nodes :: "addr \<Rightarrow> addr list \<Rightarrow> bool" where
  "in_nodes x hns \<longleftrightarrow> (\<exists>hn \<in> set hns. hn \<le> x \<and> x < hn + sizeof_node)"

lemma doomed_cong: "(\<And>x. x \<in> set hns \<Longrightarrow> l_next m' x = l_next m x) \<Longrightarrow> doomed m' l hns = doomed m l hns"
  by (induction hns) simp_all

lemma linked_doomed: "linked m (x # hns @ [l]) \<Longrightarrow> doomed m l hns"
proof (induction hns arbitrary: x)
  case (Cons a hns)
  then show ?case by (cases hns) simp_all
qed simp

lemma free_node:
  assumes "nodes_live m (hn # hns)"
  shows "\<exists>m'. free hn m = Inr m' \<and> nodes_live m' hns \<and> blocks m' = filter (\<lambda>x. fst x \<noteq> hn) (blocks m)
    \<and> (\<forall>x. live m x \<and> \<not> in_nodes x [hn] \<longrightarrow> live m' x \<and> l_next m' x = l_next m x)
    \<and> (\<forall>x \<in> set hns. l_next m' x = l_next m x)"
proof -
  have h: "heap_ok m" and b: "(hn, sizeof_node) \<in> set (blocks m)" using assms by (simp_all add: nodes_live_def)
  let ?m = "m\<lparr>blocks := filter (\<lambda>x. fst x \<noteq> hn) (blocks m)\<rparr>"
  from free_block [OF h b] have f: "free hn m = Inr (forget_all hn sizeof_node ?m)" by simp
  let ?m' = "forget_all hn sizeof_node ?m"
  have s: "live ?m' x \<and> l_next ?m' x = l_next m x" if "live m x" "\<not> in_nodes x [hn]" for x
    using free_same [OF h b that(1) _ f] that(2) by (auto simp: in_nodes_def)
  moreover have "l_next ?m' x = l_next m x" if x: "x \<in> set hns" for x
  proof -
    have "(x, sizeof_node) \<in> set (blocks m)" "x \<noteq> hn" using assms x by (auto simp: nodes_live_def)
    then have "live m x" "apart (hn, sizeof_node) (x, sizeof_node)"
      using node_access(2) [OF h] heap_ok_apart [OF h b] by auto
    then show ?thesis using s by (auto simp: in_nodes_def apart_def sizeof_node_def)
  qed
  moreover have "heap_ok ?m'" using heap_ok_filter [OF h] by (simp add: forget_all_def heap_ok_def)
  then have "nodes_live ?m' hns" using assms by (auto simp: nodes_live_def forget_all_def)
  ultimately show ?thesis using f by (auto simp: forget_all_def)
qed

lemma free_body_eq:
  "free hn m = Inr m' \<Longrightarrow> free_body (list_item hn hn_link_offset) (m, ()) = Inr ((m', ()), None)"
  by (simp add: free_body_def list_item_def hn_link_offset_def)

lemma visit_free:
  assumes "nodes_live m hns"
  shows "\<exists>m'. visit free_body hn_link_offset hns (m, ()) = Inr ((m', ()), None) \<and> heap_ok m'
    \<and> blocks m' = filter (\<lambda>x. fst x \<notin> set hns) (blocks m)
    \<and> (\<forall>x. live m x \<and> \<not> in_nodes x hns \<longrightarrow> live m' x \<and> l_next m' x = l_next m x)"
  using assms
proof (induction hns arbitrary: m)
  case (Cons hn hns)
  from free_node [OF Cons.prems] obtain m1 where m1: "free hn m = Inr m1" "nodes_live m1 hns"
    "blocks m1 = filter (\<lambda>x. fst x \<noteq> hn) (blocks m)"
    "\<forall>x. live m x \<and> \<not> in_nodes x [hn] \<longrightarrow> live m1 x \<and> l_next m1 x = l_next m x" by blast
  from Cons.IH [OF m1(2)] obtain m' where m': "visit free_body hn_link_offset hns (m1, ()) = Inr ((m', ()), None)" "heap_ok m'"
    "blocks m' = filter (\<lambda>x. fst x \<notin> set hns) (blocks m1)"
    "\<forall>x. live m1 x \<and> \<not> in_nodes x hns \<longrightarrow> live m' x \<and> l_next m' x = l_next m1 x" by blast
  have "visit free_body hn_link_offset (hn # hns) (m, ()) = Inr ((m', ()), None)"
    by (simp add: free_body_eq [OF m1(1)] m'(1))
  moreover have "blocks m' = filter (\<lambda>x. fst x \<notin> set (hn # hns)) (blocks m)"
    by (simp add: m'(3) m1(3) conj_commute)
  moreover have "live m' x \<and> l_next m' x = l_next m x" if "live m x" "\<not> in_nodes x (hn # hns)" for x
    using that m1(4) m'(4) by (simp add: in_nodes_def)
  ultimately show ?case using m'(2) by blast
qed (simp add: nodes_live_def)

lemma iterate_free:
  assumes "nodes_live m hns" and "doomed m l hns" and "l_next m l = Some (hd (hns @ [l]))" and "live m l" and "l \<notin> set hns"
  shows "list_iterate l hn_link_offset free_body (m, ()) = Some (visit free_body hn_link_offset hns (m, ()))"
proof -
  have "iterate_loop free_body hn_link_offset l (hd (hns @ [l])) (m, ()) = Some (visit free_body hn_link_offset hns (m, ()))"
  proof (rule iterate_loop_visit [where J = "\<lambda>hns st. nodes_live (fst st) hns \<and> doomed (fst st) l hns"])
    fix x hns and st :: "hmem \<times> unit"
    assume "nodes_live (fst st) (x # hns) \<and> doomed (fst st) l (x # hns)"
    then have "live (fst st) x" "l_next (fst st) x = Some (hd (hns @ [l]))"
      using node_access(2) [of "fst st" x] by (simp_all add: nodes_live_def)
    then show "get_next x (fst st) = Inr (hd (hns @ [l]))" by (rule live_fields(3))
  next
    fix x hns and st st' :: "hmem \<times> unit"
    assume n: "nodes_live (fst st) (x # hns) \<and> doomed (fst st) l (x # hns)"
      and b: "free_body (list_item x hn_link_offset) st = Inr (st', None)"
    from free_node [of "fst st" x hns] n b
    show "nodes_live (fst st') hns \<and> doomed (fst st') l hns"
      by (auto simp: free_body_def list_item_def hn_link_offset_def cong: doomed_cong)
  qed (use assms in simp_all)
  then show ?thesis using live_fields(3) [OF assms(4,3)] by (simp add: list_iterate_def)
qed

text \<open>The memory after the nodes of the first \<open>k\<close> buckets have been released.\<close>

definition destroying :: "hmem \<Rightarrow> addr list list \<Rightarrow> nat \<Rightarrow> hmem \<Rightarrow> bool" where
  "destroying m bs k mk \<longleftrightarrow> heap_ok mk \<and> blocks mk = filter (\<lambda>x. fst x \<notin> set (concat (take k bs))) (blocks m)
     \<and> (\<forall>x. live m x \<and> \<not> in_nodes x (concat (take k bs)) \<longrightarrow> live mk x \<and> l_next mk x = l_next m x)"

lemma earlier_bucket:
  assumes "hn \<in> set (concat (take k bs))" and "k \<le> length bs"
  obtains j where "j < k" and "hn \<in> set (bs ! j)"
  using assms that by (auto simp: in_set_conv_nth [of _ "take k bs"])

lemma destroying_cell:
  assumes "table_ok ht m bs" and "destroying m bs k mk" and "k < length bs" and "x \<in> set (bucket_at (ht_hash ht) k # bs ! k)"
  shows "live mk x" and "l_next mk x = l_next m x"
proof -
  have "bucket_ok ht m k (bs ! k)" using assms(1,3) by (simp add: table_ok_def)
  then have l: "live m x" using ring_live assms(4) unfolding bucket_ok_def by blast
  have "\<not> (hn \<le> x \<and> x < hn + sizeof_node)" if "hn \<in> set (concat (take k bs))" for hn
  proof -
    from earlier_bucket [OF that] assms(3) obtain j where j: "j < k" "j < length bs" "hn \<in> set (bs ! j)" by auto
    with node_bucket [OF assms(1) j(2) assms(3)] have "hn \<notin> set (bs ! k)" by auto
    then show ?thesis
      using node_away(1) [OF assms(1) j(2,3) assms(3)] nodes_apart [OF assms(1) j(2) assms(3) j(3)] assms(4) by auto
  qed
  then have "\<not> in_nodes x (concat (take k bs))" unfolding in_nodes_def by blast
  with l assms(2) show "live mk x" "l_next mk x = l_next m x" by (simp_all add: destroying_def)
qed

lemma destroying_ready:
  assumes "table_ok ht m bs" and "destroying m bs k mk" and "k < length bs"
  shows "nodes_live mk (bs ! k)"
    and "list_iterate (bucket_at (ht_hash ht) k) hn_link_offset free_body (mk, ())
      = Some (visit free_body hn_link_offset (bs ! k) (mk, ()))"
proof -
  let ?l = "bucket_at (ht_hash ht) k"
  have r: "ring m ?l (bs ! k)" using assms(1,3) by (simp add: table_ok_def bucket_ok_def)
  note c = destroying_cell [OF assms]
  have "hn \<notin> set (concat (take k bs))" if "hn \<in> set (bs ! k)" for hn
  proof
    assume "hn \<in> set (concat (take k bs))"
    then obtain j where "j < k" "hn \<in> set (bs ! j)" by (rule earlier_bucket) (use assms(3) in simp)
    with node_bucket [OF assms(1) _ assms(3) _ that, of j] assms(3) show False by simp
  qed
  then have "(hn, sizeof_node) \<in> set (blocks mk)" if "hn \<in> set (bs ! k)" for hn
    using table_node(1) [OF assms(1,3) that] assms(2) that by (simp add: destroying_def)
  then show n: "nodes_live mk (bs ! k)" using r assms(2) by (simp add: nodes_live_def ring_def destroying_def)
  have "doomed m ?l (bs ! k)" using linked_doomed [of m ?l "bs ! k" ?l] r by (simp add: ring_def)
  then have "doomed mk ?l (bs ! k)" using c doomed_cong [of "bs ! k" mk m ?l] by simp
  from iterate_free [OF n this] c [of ?l] ring_next [OF r] r
  show "list_iterate ?l hn_link_offset free_body (mk, ()) = Some (visit free_body hn_link_offset (bs ! k) (mk, ()))"
    by (simp add: ring_def)
qed

lemma destroying_step:
  assumes "table_ok ht m bs" and "destroying m bs k mk" and "k < length bs"
  shows "\<exists>m'. visit free_body hn_link_offset (bs ! k) (mk, ()) = Inr ((m', ()), None) \<and> destroying m bs (Suc k) m'"
proof -
  have t: "concat (take (Suc k) bs) = concat (take k bs) @ bs ! k" using assms(3) by (simp add: take_Suc_conv_app_nth)
  from visit_free [OF destroying_ready(1) [OF assms]] obtain m' where
    m': "visit free_body hn_link_offset (bs ! k) (mk, ()) = Inr ((m', ()), None)" "heap_ok m'"
    "blocks m' = filter (\<lambda>x. fst x \<notin> set (bs ! k)) (blocks mk)"
    "\<forall>x. live mk x \<and> \<not> in_nodes x (bs ! k) \<longrightarrow> live m' x \<and> l_next m' x = l_next mk x" by blast
  have "blocks m' = filter (\<lambda>x. fst x \<notin> set (concat (take (Suc k) bs))) (blocks m)"
    using assms(2) m'(3) unfolding t destroying_def by (auto intro!: filter_cong)
  moreover have "live m' x \<and> l_next m' x = l_next m x" if "live m x" "\<not> in_nodes x (concat (take (Suc k) bs))" for x
  proof -
    have "\<not> in_nodes x (concat (take k bs))" "\<not> in_nodes x (bs ! k)"
      using that(2) unfolding t in_nodes_def by (simp_all add: ball_Un)
    with that(1) m'(4) assms(2) show ?thesis by (simp add: destroying_def)
  qed
  ultimately show ?thesis using m'(1,2) by (auto simp: destroying_def)
qed

lemma destroying_all:
  assumes "table_ok ht m bs" and "k \<le> length bs"
  shows "\<exists>m'. visit free_body hn_link_offset (concat (take k bs)) (m, ()) = Inr ((m', ()), None) \<and> destroying m bs k m'"
  using assms(2)
proof (induction k)
  case 0
  show ?case using assms(1) by (simp add: destroying_def table_ok_def in_nodes_def)
next
  case (Suc k)
  then obtain mk where mk: "visit free_body hn_link_offset (concat (take k bs)) (m, ()) = Inr ((mk, ()), None)" "destroying m bs k mk"
    by auto
  from destroying_step [OF assms(1) mk(2)] Suc.prems mk(1) show ?case
    by (auto simp: take_Suc_conv_app_nth visit_append)
qed

lemma htable_destroy_blocks:
  assumes "table_ok ht m bs"
  shows "\<exists>m'. htable_destroy ht m = Some (Inr m') \<and> heap_ok m'
    \<and> blocks m' = rest_blocks ht m bs"
proof -
  from destroying_all [OF assms order_refl] obtain m1 where
    m1: "visit free_body hn_link_offset (concat bs) (m, ()) = Inr ((m1, ()), None)" "destroying m bs (length bs) m1" by auto
  have "buckets_loop free_body (ht_hash ht) 0 (length bs) (m, ()) = Some (visit free_body hn_link_offset (concat (drop 0 bs)) (m, ()))"
  proof (rule buckets_loop_visit [where J = "\<lambda>k st. destroying m bs k (fst st)"])
    show "list_iterate (bucket_at (ht_hash ht) k) hn_link_offset free_body st = Some (visit free_body hn_link_offset (bs ! k) st)"
      if "destroying m bs k (fst st)" "k < length bs" for k st
      using destroying_ready(2) [OF assms that] by (cases st) simp
    show "destroying m bs (Suc k) (fst st')"
      if "destroying m bs k (fst st)" "k < length bs" "visit free_body hn_link_offset (bs ! k) st = Inr (st', None)" for k st st'
      using destroying_step [OF assms that(1,2)] that(3) by (cases st) auto
    show "destroying m bs 0 (fst (m, ()))" using assms by (simp add: destroying_def table_ok_def in_nodes_def)
  qed simp
  then have l: "buckets_loop free_body (ht_hash ht) 0 (unat (ht_cap ht)) (m, ()) = Some (Inr ((m1, ()), None))"
    using m1(1) assms by (simp add: table_ok_def)
  have "ht_hash ht \<notin> set (concat bs)"
    using assms by (fastforce simp: table_ok_def bucket_ok_def in_set_conv_nth [of _ bs])
  then have "(ht_hash ht, sizeof_list * unat (ht_cap ht)) \<in> set (blocks m1)"
    using m1(2) assms by (simp add: destroying_def table_ok_def)
  from free_block [OF _ this] m1(2) heap_ok_filter [of m1 "\<lambda>x. fst x \<noteq> ht_hash ht"]
  have f: "free (ht_hash ht) m1 = Inr (forget_all (ht_hash ht) (sizeof_list * unat (ht_cap ht))
      (m1\<lparr>blocks := filter (\<lambda>x. fst x \<noteq> ht_hash ht) (blocks m1)\<rparr>))"
    and h: "heap_ok (m1\<lparr>blocks := filter (\<lambda>x. fst x \<noteq> ht_hash ht) (blocks m1)\<rparr>)"
    by (simp_all add: destroying_def)
  have "filter (\<lambda>x. fst x \<noteq> ht_hash ht) (blocks m1) = filter (\<lambda>x. fst x \<notin> insert (ht_hash ht) (set (concat bs))) (blocks m)"
    using m1(2) by (auto simp: destroying_def intro!: filter_cong)
  with f h show ?thesis by (simp add: htable_destroy_def l forget_all_def heap_ok_def rest_blocks_def)
qed

section \<open>The table as a map\<close>

lemma htable_put_ok:
  assumes "table_ok ht m bs" and "fresh p sizeof_node m"
  shows "\<exists>ht' m' bs'. htable_put p ht key data m
      = Some (Inr (case table_map ht m bs key of None \<Rightarrow> 0 | Some d \<Rightarrow> d, ht', m'))
    \<and> table_ok ht' m' bs' \<and> table_map ht' m' bs' = (table_map ht m bs)(key \<mapsto> data)
    \<and> rest_blocks ht' m' bs' = rest_blocks ht m bs"
proof (rule htable_lookup_cases [OF assms(1), of key])
  assume l: "htable_lookup ht key m = Some (Inr 0)" "table_map ht m bs key = None"
    and "\<forall>hn \<in> set (bs ! unat (key mod ht_cap ht)). hn_id m hn \<noteq> Some key"
  from put_absent [OF assms refl this(3), of data] table_bucket(1) [OF assms(1), of key] l
  show ?thesis by (fastforce simp: htable_put_def hn_link_offset_def)
next
  fix hn d
  assume l: "htable_lookup ht key m = Some (Inr hn)" "hn \<noteq> 0" "get_data hn m = Inr d" "table_map ht m bs key = Some d"
    and n: "hn_id m hn = Some key" "hn \<in> set (bs ! unat (key mod ht_cap ht))"
  from put_present [OF assms(1) n(2) table_bucket(2) [OF assms(1)] n(1) refl refl, of data] l
  show ?thesis by (auto simp: htable_put_def)
qed

lemma htable_remove_ok:
  assumes "table_ok ht m bs"
  shows "\<exists>ht' m' bs'. htable_remove ht key m
      = Some (Inr (case table_map ht m bs key of None \<Rightarrow> 0 | Some d \<Rightarrow> d, ht', m'))
    \<and> table_ok ht' m' bs' \<and> table_map ht' m' bs' = (table_map ht m bs)(key := None)
    \<and> rest_blocks ht' m' bs' = rest_blocks ht m bs"
proof (rule htable_lookup_cases [OF assms, of key])
  assume l: "htable_lookup ht key m = Some (Inr 0)" "table_map ht m bs key = None"
  then have "(table_map ht m bs)(key := None) = table_map ht m bs" by auto
  with l assms show ?thesis by (auto simp: htable_remove_def)
next
  fix hn d
  assume l: "htable_lookup ht key m = Some (Inr hn)" "hn \<noteq> 0" "get_data hn m = Inr d" "table_map ht m bs key = Some d"
    and n: "hn_id m hn = Some key" "hn \<in> set (bs ! unat (key mod ht_cap ht))"
  from remove_present [OF assms n(2) table_bucket(2) [OF assms] n(1) refl] l
  show ?thesis by (fastforce simp: htable_remove_def hn_link_offset_def)
qed

lemma table_size:
  assumes "table_ok ht m bs"
  shows "finite (dom (table_map ht m bs))" and "ht_size ht = of_nat (card (dom (table_map ht m bs)))"
proof -
  have "card (dom (table_map ht m bs)) = length (assocs m (concat bs))"
    using distinct_card [OF table_keys(1) [OF assms]] by (simp add: table_keys(2) [OF assms, symmetric] dom_map_of_conv_image_fst)
  then show "ht_size ht = of_nat (card (dom (table_map ht m bs)))" using assms by (simp add: table_ok_def assocs_def)
  show "finite (dom (table_map ht m bs))" by (simp add: table_keys(2) [OF assms, symmetric] finite_dom_map_of)
qed

text \<open>
  With the allocator that hands out the memory behind all blocks, the table is a keyed store: the laws
  that the routing table's \<open>std::map\<close> satisfies hold of it too.
\<close>

definition bump :: "hmem \<Rightarrow> addr" where
  "bump m = foldr (\<lambda>(b, s) e. max e (b + s + 1)) (blocks m) 1"

lemma fresh_bump: "fresh (bump m) s m"
proof -
  have "x \<in> set bl \<Longrightarrow> fst x + snd x < foldr (\<lambda>(b, s) e. max e (b + s + 1)) bl 1" for bl :: "(addr \<times> nat) list" and x
    by (induction bl) (auto simp: less_max_iff_disj)
  then have "\<forall>x \<in> set (blocks m). fst x + snd x < bump m" by (simp add: bump_def)
  moreover have "0 < foldr (\<lambda>(b, s) e. max e (b + s + 1)) bl (1 :: nat)" for bl :: "(addr \<times> nat) list"
    by (induction bl) (auto simp: less_max_iff_disj)
  then have "bump m \<noteq> 0" by (simp add: bump_def)
  ultimately show ?thesis by (fastforce simp: fresh_def list_all_iff apart_def)
qed

definition hs_find :: "htable \<times> hmem \<Rightarrow> u32 \<Rightarrow> addr option" where
  "hs_find s key = (case htable_lookup (fst s) key (snd s) of
     Some (Inr hn) \<Rightarrow> if hn = 0 then None else hn_data (snd s) hn | _ \<Rightarrow> None)"

definition hs_put :: "u32 \<Rightarrow> addr \<Rightarrow> htable \<times> hmem \<Rightarrow> htable \<times> hmem" where
  "hs_put key data s = (case htable_put (bump (snd s)) (fst s) key data (snd s) of Some (Inr (old, s')) \<Rightarrow> s' | _ \<Rightarrow> s)"

definition hs_remove :: "u32 \<Rightarrow> htable \<times> hmem \<Rightarrow> htable \<times> hmem" where
  "hs_remove key s = (case htable_remove (fst s) key (snd s) of Some (Inr (old, s')) \<Rightarrow> s' | _ \<Rightarrow> s)"

definition hs_ok :: "htable \<times> hmem \<Rightarrow> bool" where
  "hs_ok s \<longleftrightarrow> (\<exists>bs. table_ok (fst s) (snd s) bs)"

lemma hs_find_map: "table_ok ht m bs \<Longrightarrow> hs_find (ht, m) = table_map ht m bs"
proof
  fix key
  assume t: "table_ok ht m bs"
  show "hs_find (ht, m) key = table_map ht m bs key"
    by (rule htable_lookup_cases [OF t, of key]) (simp_all add: hs_find_def)
qed

lemma hs_put_ok: "hs_ok s \<Longrightarrow> hs_ok (hs_put key data s) \<and> hs_find (hs_put key data s) = (hs_find s)(key \<mapsto> data)"
proof -
  assume "hs_ok s"
  then obtain ht m bs where s: "s = (ht, m)" "table_ok ht m bs" by (cases s) (auto simp: hs_ok_def)
  from htable_put_ok [OF s(2) fresh_bump, of key data] obtain ht' m' bs' where
    "hs_put key data s = (ht', m')" "table_ok ht' m' bs'" "table_map ht' m' bs' = (table_map ht m bs)(key \<mapsto> data)"
    by (auto simp: hs_put_def s(1))
  with hs_find_map [OF s(2)] hs_find_map [of ht' m' bs'] s(1) show ?thesis by (auto simp: hs_ok_def)
qed

lemma hs_remove_ok: "hs_ok s \<Longrightarrow> hs_ok (hs_remove key s) \<and> hs_find (hs_remove key s) = (hs_find s)(key := None)"
proof -
  assume "hs_ok s"
  then obtain ht m bs where s: "s = (ht, m)" "table_ok ht m bs" by (cases s) (auto simp: hs_ok_def)
  from htable_remove_ok [OF s(2), of key] obtain ht' m' bs' where
    "hs_remove key s = (ht', m')" "table_ok ht' m' bs'" "table_map ht' m' bs' = (table_map ht m bs)(key := None)"
    by (auto simp: hs_remove_def s(1))
  with hs_find_map [OF s(2)] hs_find_map [of ht' m' bs'] s(1) show ?thesis by (auto simp: hs_ok_def)
qed

interpretation hash_map: key_map hs_find hs_put hs_remove hs_ok
  by unfold_locales (simp_all add: hs_put_ok hs_remove_ok)

section \<open>Tables in use\<close>

text \<open>
  A table that was initialised in memory \<open>m0\<close> and has seen puts and removals; \<open>f\<close> is the map they built.
\<close>

inductive in_use :: "hmem \<Rightarrow> (u32 \<rightharpoonup> addr) \<Rightarrow> htable \<Rightarrow> hmem \<Rightarrow> bool" for m0 where
  use_init: "heap_ok m0 \<Longrightarrow> fresh p (sizeof_list * unat cap) m0 \<Longrightarrow> cap \<noteq> 0
    \<Longrightarrow> htable_init p cap m0 = Inr (ht, m) \<Longrightarrow> in_use m0 Map.empty ht m"
| use_put: "in_use m0 f ht m \<Longrightarrow> fresh p sizeof_node m
    \<Longrightarrow> htable_put p ht key data m = Some (Inr (old, ht', m')) \<Longrightarrow> in_use m0 (f(key \<mapsto> data)) ht' m'"
| use_remove: "in_use m0 f ht m
    \<Longrightarrow> htable_remove ht key m = Some (Inr (old, ht', m')) \<Longrightarrow> in_use m0 (f(key := None)) ht' m'"

lemma in_use_ok:
  assumes "in_use m0 f ht m"
  shows "\<exists>bs. table_ok ht m bs \<and> table_map ht m bs = f \<and> rest_blocks ht m bs = blocks m0"
  using assms
proof induction
  case (use_init p cap ht m)
  then show ?case using htable_init_ok [of m0 p cap] by auto
next
  case (use_put f ht m p key data old ht' m')
  then obtain bs where bs: "table_ok ht m bs" "table_map ht m bs = f" "rest_blocks ht m bs = blocks m0" by blast
  from htable_put_ok [OF this(1) use_put.hyps(2), of key data] use_put.hyps(3) bs(2,3) show ?case by auto
next
  case (use_remove f ht m key old ht' m')
  then obtain bs where bs: "table_ok ht m bs" "table_map ht m bs = f" "rest_blocks ht m bs = blocks m0" by blast
  from htable_remove_ok [OF this(1), of key] use_remove.hyps(2) bs(2,3) show ?case by auto
qed

text \<open>
  C39: a table in use behaves as the map of its history: \<open>htable_get\<close> returns the data last put under the
  number and \<open>NULL\<close> when there is none; with a fresh block from \<open>malloc\<close>, \<open>htable_put\<close> and \<open>htable_remove\<close> end without a fault, return
  the former data, and keep the table in use; \<open>ht_size\<close> is the number of entries modulo \<open>2 ^ 32\<close>.
\<close>

theorem htable_is_map:
  assumes "in_use m0 f ht m" and "fresh p sizeof_node m"
  shows "htable_get ht key m = Some (Inr (case f key of None \<Rightarrow> 0 | Some d \<Rightarrow> d))
    \<and> (\<exists>ht' m'. htable_put p ht key data m = Some (Inr (case f key of None \<Rightarrow> 0 | Some d \<Rightarrow> d, ht', m'))
        \<and> in_use m0 (f(key \<mapsto> data)) ht' m')
    \<and> (\<exists>ht' m'. htable_remove ht key m = Some (Inr (case f key of None \<Rightarrow> 0 | Some d \<Rightarrow> d, ht', m'))
        \<and> in_use m0 (f(key := None)) ht' m')
    \<and> ht_size ht = of_nat (card (dom f))"
proof -
  from in_use_ok [OF assms(1)] obtain bs where bs: "table_ok ht m bs" "table_map ht m bs = f" by blast
  show ?thesis
    using htable_get_eq [OF bs(1), of key] htable_put_ok [OF bs(1) assms(2), of key data] htable_remove_ok [OF bs(1), of key]
      table_size(2) [OF bs(1)] use_put [OF assms, of key data] use_remove [OF assms(1), of key] bs(2)
    by fastforce
qed

text \<open>
  \<open>htable_iterate_begin\<close> around code that leaves the table alone ends and runs the code once for
  every entry, with its number and its data; the order does not depend on the code.
\<close>

theorem htable_iterates_once:
  assumes "in_use m0 f ht m"
  shows "\<exists>es. distinct (map fst es) \<and> map_of es = f
    \<and> (\<forall>g s. htable_iterate ht (pure_body g) (m, s) = Some (Inr ((m, fold (\<lambda>(k, d). g k d) es s), None)))"
proof -
  from in_use_ok [OF assms] obtain bs where bs: "table_ok ht m bs" "table_map ht m bs = f" by blast
  show ?thesis
    by (intro exI [of _ "assocs m (concat bs)"] conjI allI htable_iterate_pure [OF bs(1)])
      (use table_keys [OF bs(1)] bs(2) in simp_all)
qed

text \<open>
  C40: \<open>htable_destroy\<close>, which walks the lists while it releases their nodes, ends, never touches
  released memory or releases a block twice, and leaves live exactly the blocks that were live before
  \<open>htable_init\<close>, whatever the table was used for in between.
\<close>

theorem htable_destroy_releases:
  assumes "in_use m0 f ht m"
  shows "\<exists>m'. htable_destroy ht m = Some (Inr m') \<and> blocks m' = blocks m0"
proof -
  from in_use_ok [OF assms] obtain bs where bs: "table_ok ht m bs" "rest_blocks ht m bs = blocks m0" by blast
  with htable_destroy_blocks [OF bs(1)] show ?thesis by auto
qed

text \<open>With no buckets every operation that looks for one divides by zero.\<close>

lemma htable_no_buckets:
  assumes "ht_cap ht = 0"
  shows "htable_get ht key m = Some (Inl Div_By_Zero)" and "htable_put p ht key data m = Some (Inl Div_By_Zero)"
    and "htable_remove ht key m = Some (Inl Div_By_Zero)"
  using assms by (simp_all add: htable_get_def htable_put_def htable_remove_def htable_lookup_def bucket_def)

section \<open>Instances\<close>

definition start_mem :: hmem where
  "start_mem = \<lparr>blocks = [(8, 64)], l_next = Map.empty, l_prev = Map.empty, hn_id = Map.empty, hn_data = Map.empty\<rparr>"

lemma start_fresh: "heap_ok start_mem" "fresh 160 (sizeof_list * unat (2 :: u32)) start_mem"
  by (simp_all add: heap_ok_def fresh_def apart_def start_mem_def sizeof_list_def)

lemma start_in_use: "\<exists>ht m. htable_init 160 2 start_mem = Inr (ht, m) \<and> in_use start_mem Map.empty ht m"
  using htable_init_ok [OF start_fresh] use_init [OF start_fresh] by auto

text \<open>Two numbers that share a bucket.\<close>

lemma colliding_in_use: "\<exists>ht m. in_use start_mem [1 \<mapsto> 500, 3 \<mapsto> 700] ht m"
proof -
  obtain ht m where "in_use start_mem Map.empty ht m" using start_in_use by blast
  from in_use_ok [OF this] this obtain ht1 m1 where "in_use start_mem [1 \<mapsto> 500] ht1 m1"
    using htable_put_ok [OF _ fresh_bump, of ht m _ 1 500] use_put [OF _ fresh_bump, of start_mem Map.empty ht m 1 500] by blast
  from in_use_ok [OF this] this show ?thesis
    using htable_put_ok [OF _ fresh_bump, of ht1 m1 _ 3 700] use_put [OF _ fresh_bump, of start_mem "[1 \<mapsto> 500]" ht1 m1 3 700] by blast
qed

theorem htable_is_map_witness:
  "\<exists>ht m ht' m'. htable_get ht 3 m = Some (Inr 700) \<and> htable_put (bump m) ht 1 900 m = Some (Inr (500, ht', m'))
    \<and> in_use start_mem [1 \<mapsto> 900, 3 \<mapsto> 700] ht' m'"
proof -
  from colliding_in_use obtain ht m where u: "in_use start_mem [1 \<mapsto> 500, 3 \<mapsto> 700] ht m" by blast
  have "[1 :: u32 \<mapsto> 500, 3 \<mapsto> 700, 1 \<mapsto> 900] = [1 \<mapsto> 900, 3 \<mapsto> 700 :: addr]" by (auto simp: fun_eq_iff)
  with htable_is_map [OF u fresh_bump, of 3 0] htable_is_map [OF u fresh_bump, of 1 900] show ?thesis by fastforce
qed

theorem htable_iterates_once_witness:
  "\<exists>ht m. in_use start_mem [1 \<mapsto> 500, 3 \<mapsto> 700] ht m
    \<and> htable_iterate ht (pure_body (\<lambda>k d s. s + d)) (m, 0) = Some (Inr ((m, 1200), None))"
proof -
  from colliding_in_use obtain ht m where u: "in_use start_mem [1 \<mapsto> 500, 3 \<mapsto> 700] ht m" by blast
  have "\<exists>es. distinct (map fst es) \<and> map_of es = [1 \<mapsto> 500, 3 \<mapsto> 700]
      \<and> (\<forall>(g :: u32 \<Rightarrow> addr \<Rightarrow> nat \<Rightarrow> nat) s. htable_iterate ht (pure_body g) (m, s)
           = Some (Inr ((m, fold (\<lambda>(k, d). g k d) es s), None)))"
    by (rule htable_iterates_once [OF u])
  then obtain es :: "(u32 \<times> addr) list" where es: "distinct (map fst es)" "map_of es = [1 \<mapsto> 500, 3 \<mapsto> 700]"
    and it: "htable_iterate ht (pure_body (\<lambda>k d s. s + d)) (m, 0)
      = Some (Inr ((m, fold (\<lambda>(k, d) s. s + d) es 0), None))" by fastforce
  have "(k, v) \<in> set es \<longleftrightarrow> (k, v) = (1, 500) \<or> (k, v) = (3, 700)" for k v
    using map_of_eq_Some_iff [OF es(1), of k v] by (auto simp: es(2) split: if_splits)
  then have s: "set es = {(1, 500), (3, 700)}" by (auto simp: set_eq_iff)
  have "length es = 2" using distinct_card [of es] es(1) by (simp add: s distinct_map)
  then obtain x y where "es = [x, y]" by (auto simp: length_Suc_conv numeral_2_eq_2)
  with s have "es = [(1, 500), (3, 700)] \<or> es = [(3, 700), (1, 500)]" by (auto simp: doubleton_eq_iff)
  with it have "htable_iterate ht (pure_body (\<lambda>k d s. s + d)) (m, 0) = Some (Inr ((m, 1200), None))" by auto
  with u show ?thesis by blast
qed

theorem htable_destroy_releases_witness:
  "\<exists>ht m m'. in_use start_mem [1 \<mapsto> 500, 3 \<mapsto> 700] ht m \<and> htable_destroy ht m = Some (Inr m') \<and> blocks m' = [(8, 64)]"
proof -
  from colliding_in_use obtain ht m where u: "in_use start_mem [1 \<mapsto> 500, 3 \<mapsto> 700] ht m" by blast
  from htable_destroy_releases [OF this] u show ?thesis by (auto simp: start_mem_def)
qed

end
