(* ===== verification/Spec2Isabelle.thy ===== *)
theory Spec2Isabelle
  imports Deployment Sending_Path Dissector Socket_Race Main_Program Links_Memory Fgets_Main Layer_Ifc Table_Race Htable_Map
begin

text \<open>
  \<^bold>\<open>The program.\<close>  A node of a virtual IP network: UDP sockets stand for links, and routes are exchanged
  with RIP.  A \<open>Node\<close> (\<open>src/Node.hh\<close>, \<open>src/NodeImpl.cc\<close>) owns one \<open>LinkLayer\<close> for each line of its \<open>.lnx\<close>
  file, one \<open>NetworkLayer\<close> and one \<open>RipLayer\<close>.  The thread of a link receives datagrams and hands them to the
  network layer's outgoing queue; \<open>process_out_queue\<close> takes them from there and delivers, forwards or gives them to the
  RIP layer; everything a node sends goes through the incoming queue, \<open>process_in_queue\<close> and the one-frame
  buffer of a link, which the link's thread transmits.  Two timers push an id into a third queue, which the thread
  of the RIP layer serves: it sends a response on every interface, or removes the routes that are too old.
  \<open>main\<close> (\<open>src/node.cc\<close>) builds the node, sets the timers and reads commands.

  \<^bold>\<open>Conventions.\<close>  Integers keep their width; a C fault (null or dangling pointer, read outside a buffer, use of
  an indeterminate value, division by zero, wrong \<open>free\<close>, \<open>exit\<close>) is a value of \<open>fault\<close> on the left of a sum,
  and every operation that can fault returns \<open>fault + 'a\<close>.  An \<open>option\<close> around it is \<open>None\<close> where the code would
  block or loop for ever.  Packets are byte lists in the memory layout of the packed structures on a
  little-endian machine.  System calls, the resolver and the clock are arguments.  A link is its index in
  \<open>_interfaces\<close>.

  \<^bold>\<open>Theories and sources.\<close>
  \<^item> \<open>Prelude\<close>, \<open>Bytes\<close>, \<open>Std_Map\<close>, \<open>C_Lib\<close>: faults and weakest preconditions, memory and byte order,
    \<open>std::map\<close> as an ordered association list, with the interface \<open>key_map\<close>, and the conversions of \<open>scanf\<close>, \<open>inet_pton\<close>
    and \<open>inet_ntop\<close>.
  \<^item> \<open>Net_Types\<close>: \<open>src/common.hh\<close>, \<open>struct iphdr\<close> of \<open>src/ip.h\<close>, the state of links and node, the interface lookups.
  \<^item> \<open>Ip_Sum\<close> (\<open>src/ipsum.h\<close>), \<open>Ip_Packet\<close>, \<open>Network_Layer\<close>, \<open>Network_Recv\<close> (\<open>src/NetworkLayer.cc\<close>).
  \<^item> \<open>Rip_Layer\<close>, \<open>Rip_Table\<close>, \<open>Rip_Wire\<close>, \<open>Table_Race\<close> (\<open>src/RipLayer.cc\<close>): the operations; the table
    invariant and the abstract relaxation step; messages as they travel; the table under several threads, one
    access at a time.
  \<^item> \<open>Link_Layer\<close>, \<open>Link_Setup\<close> (\<open>src/LinkLayer.cc\<close>, \<open>src/LinkLayer.hh\<close>), \<open>Slot_Protocol\<close> (the send buffer with its
    two threads), \<open>Socket_Race\<close> (the socket with the link's thread and \<open>up\<close> and \<open>down\<close>), \<open>Msg_Queue\<close> (\<open>src/MessageQueue.hh\<close>, with the timer signal handler).
  \<^item> \<open>Node_System\<close>, \<open>Node_Own\<close>: all events of a node as one step function and the reachable nodes.
  \<^item> \<open>Commands\<close>, \<open>Parse_Links\<close> (\<open>src/parselinks.c\<close>), \<open>Startup\<close>, \<open>Main_Program\<close>, \<open>Dbg\<close> (\<open>src/dbg.c\<close>, \<open>src/dbg.h\<close>),
    \<open>Layer_Ifc\<close> (\<open>src/LayerIfc.hh\<close>): the command line, the configuration file, construction beside the
    threads it starts, \<open>main\<close>, debug output, virtual dispatch.
  \<^item> \<open>Links_Memory\<close> (\<open>parse_links\<close> and \<open>free_links\<close> on the objects \<open>malloc\<close> returns), \<open>Console_Text\<close> (the formats of the listings,
    of the packet report and of the help), \<open>Fgets_Main\<close> (the command loop without \<open>READLINE\<close>).
  \<^item> \<open>Delivery\<close>, \<open>Rip_Network\<close>, \<open>Rip_Convergence\<close>, \<open>Sample_Net\<close>: two nodes and a wire; networks with loss,
    duplication, delay and reordering; convergence; the nodes of \<open>src/nets\<close> used in the instances.
  \<^item> \<open>Node_Frames\<close>, \<open>Provenance\<close>, \<open>Multi_Hop\<close>, \<open>End_To_End\<close>: what the packets inside a node are made of; where a
    delivered payload comes from; a packet on its way over several hops; routing and forwarding together.
  \<^item> \<open>Deployment\<close>: the network that a set of \<open>.lnx\<close> files makes, from \<open>parse_links\<close> on; the five files of
    \<open>src/nets/routeAggregation/tree\<close> are its instance.
  \<^item> \<open>Atomic_Ops\<close>, \<open>Sending_Path\<close>: the fine-grained threads of the queue, of \<open>process_in_queue\<close> and of the links, simulated
    by the events of \<open>Node_System\<close>.
  \<^item> \<open>Dissector\<close> (\<open>src/rip_dissector/cs168_rip.lua\<close>): the Wireshark script, with Wireshark's buffer as an argument.
  \<^item> \<open>Linked_List\<close>, \<open>Htable\<close>, \<open>Htable_Map\<close> (\<open>src/list.h\<close>, \<open>src/htable.c\<close>, \<open>src/htable.h\<close>): pointer structures on an
    explicit memory.  The Makefile does not build them and nothing else uses them.

  \<^bold>\<open>What is shown.\<close>  The routing table refines the distance-vector relaxation; in every reachable network each route
  is backed by a path of its length, and from any reachable state in which all interfaces are up complete
  rounds of responses lead to shortest paths.  No event of a reachable node goes through a null pointer; an own
  address is routed exactly while its interface is up.  The queues and the send buffer are channels (interface
  \<open>fifo_channel\<close>, interpreted for both and for every interface behind the threads together): items come out in order, each
  once, under every interleaving of their accesses, and each such interleaving is a run of the atomic events of the node
  model (interface \<open>simulation\<close>, interpreted for the send buffer, the queue, and the threads together); when exactly a sender is stuck at the send buffer (a lost
  wake-up, a full buffer behind a closed socket, a link's thread that hangs or has failed) and the deadlock of the signal
  handler are proved as such.  The calls of a table operation on the map amount to its atomic function as long as no other thread
  interferes; that these calls race with each other outside the mutex, and the damage that an erasure in another thread does even
  if each call is atomic, is proved as well.  The
  checksum is the ones-complement sum; a header with a changed word is dropped, except for a change between 0x0000 and
  0xFFFF, which passes; payloads arrive unchanged.  The interface
  \<open>traffic\<close> carries a predicate on packets through every operation of a node and is interpreted twice: every
  frame a node emits has a correct checksum and size, and in a network whose wires are faithful every payload
  printed was given to \<open>send\<close> somewhere.  After enough rounds of responses a payload sent anywhere reaches its
  destination over a chain of as many links as the shortest path has, through every node of it in turn, and this
  holds from the configuration files on: files that fit together make such a network; in a loop of routes a packet goes round for ever.  Configuration
  files and printed addresses are read back exactly.  Construction step by step agrees with the constructor as a
  function when nothing arrives, and every frame that arrives too early goes through an uninitialised pointer.
  The pointer form of \<open>parse_links\<close> refines the list form, whatever \<open>malloc\<close> answers, releases what it
  allocated when it fails, and leaves its buffers only for words of 16 or more characters.  The thread of a link fails on its socket only
  in a round that \<open>down\<close> overlaps, where it does fail, or when a call on the open socket fails.
  Lists in memory are sequences, also while a body unlinks or releases the element an iteration is at; the hash table
  is a finite map (it interprets \<open>key_map\<close>, as \<open>std::map\<close> does), and its destruction releases exactly what it allocated.  The dissector shows all entries of a message exactly when the node
  can learn them without leaving the packet, and shows what it learns.  The theorems that describe a defect state what the
  code does, not what it should do.

  \<^bold>\<open>Bounds and termination.\<close>  There is no fuel: recursions are structural or have a measure, the loops
  of \<open>list_iterate\<close> are partial functions that are proved to return, and the receive loop recurses on the
  datagrams that arrive.

  \<^bold>\<open>Not modelled.\<close>  The diagnostics that \<open>create_socket\<close> and \<open>perror\<close> print; the parts of
  \<open>src/ip.h\<close> that the program does not use, and \<open>cmpAddress\<close>, which nothing uses either; the events of \<open>Node_System\<close> are
  atomic: for the sending side, while the interfaces stay open, every
  interleaving is a run of these events (\<open>Sending_Path\<close>); what happens elsewhere when they overlap is
  in \<open>Table_Race\<close> and \<open>Socket_Race\<close>, each for the data its threads share.  The programs in \<open>src/tools\<close> are executables
  without source, and the registration of the dissector with Wireshark is a list of declarations.
\<close>

end
